(* ===== verification/Prelude.thy ===== *)
theory Prelude
  imports Main "HOL-Library.Multiset" "HOL-Library.Char_ord" "HOL-Library.List_Lexorder" "HOL-Library.Product_Lexorder"
    "HOL-Library.Word"
begin

text \<open>
  Shared vocabulary of the development: Rust's \<open>Result\<close> as a sum with its
  combinators (\<open>?\<close>, \<open>ok_or\<close>, early return, fallible loops), \<open>BTreeMap\<close> as an
  association list sorted by key, \<open>HashMap\<close> as an association list in iteration
  order, decimal printing, and the lemma collections \<open>result_simps\<close> and
  \<open>map_simps\<close> that the component theories hand to the simplifier.
\<close>

named_theorems result_simps \<open>inversion of fallible computations\<close>
named_theorems map_simps \<open>facts on the ordered and hashed maps\<close>

section \<open>Fallible computations\<close>

type_synonym ('e, 'a) result = "'e + 'a"

definition and_then :: "('e, 'a) result \<Rightarrow> ('a \<Rightarrow> ('e, 'b) result) \<Rightarrow> ('e, 'b) result" where
  "and_then m f = (case m of Inl e \<Rightarrow> Inl e | Inr x \<Rightarrow> f x)"

definition ok_or :: "'e \<Rightarrow> 'a option \<Rightarrow> ('e, 'a) result" where
  "ok_or e v = (case v of None \<Rightarrow> Inl e | Some x \<Rightarrow> Inr x)"

definition err_if :: "bool \<Rightarrow> 'e \<Rightarrow> ('e, unit) result" where
  "err_if b e = (if b then Inl e else Inr ())"

definition is_ok :: "('e, 'a) result \<Rightarrow> bool" where
  "is_ok r \<longleftrightarrow> (case r of Inl _ \<Rightarrow> False | Inr _ \<Rightarrow> True)"

fun try_each :: "('a \<Rightarrow> ('e, unit) result) \<Rightarrow> 'a list \<Rightarrow> ('e, unit) result" where
  "try_each f [] = Inr ()"
| "try_each f (x # xs) = and_then (f x) (\<lambda>_. try_each f xs)"

fun try_map :: "('a \<Rightarrow> ('e, 'b) result) \<Rightarrow> 'a list \<Rightarrow> ('e, 'b list) result" where
  "try_map f [] = Inr []"
| "try_map f (x # xs) = and_then (f x) (\<lambda>y. and_then (try_map f xs) (\<lambda>ys. Inr (y # ys)))"

fun try_fold :: "('s \<Rightarrow> 'a \<Rightarrow> ('e, 's) result) \<Rightarrow> 's \<Rightarrow> 'a list \<Rightarrow> ('e, 's) result" where
  "try_fold f s [] = Inr s"
| "try_fold f s (x # xs) = and_then (f s x) (\<lambda>s'. try_fold f s' xs)"

text \<open>A loop whose body may fail to return: an index panic or a step without end is \<open>None\<close>.\<close>

fun fold_opt :: "('s \<Rightarrow> 'a \<Rightarrow> 's option) \<Rightarrow> 's \<Rightarrow> 'a list \<Rightarrow> 's option" where
  "fold_opt f s [] = Some s"
| "fold_opt f s (x # xs) = Option.bind (f s x) (\<lambda>s'. fold_opt f s' xs)"

definition try_opt :: "('a \<Rightarrow> ('e, unit) result) \<Rightarrow> 'a option \<Rightarrow> ('e, unit) result" where
  "try_opt f v = (case v of None \<Rightarrow> Inr () | Some x \<Rightarrow> f x)"

definition transpose_opt :: "('e, 'a) result option \<Rightarrow> ('e, 'a option) result" where
  "transpose_opt v = (case v of None \<Rightarrow> Inr None | Some r \<Rightarrow> and_then r (\<lambda>x. Inr (Some x)))"

section \<open>Ordered and hashed maps\<close>

type_synonym ('k, 'v) btree = "('k \<times> 'v) list"
type_synonym ('k, 'v) hmap = "('k \<times> 'v) list"

abbreviation bt_ok :: "('k::linorder, 'v) btree \<Rightarrow> bool" where
  "bt_ok m \<equiv> sorted_wrt (<) (map fst m)"

fun bt_insert :: "'k::linorder \<Rightarrow> 'v \<Rightarrow> ('k, 'v) btree \<Rightarrow> ('k, 'v) btree" where
  "bt_insert k v [] = [(k, v)]"
| "bt_insert k v ((a, b) # m) =
     (if k < a then (k, v) # (a, b) # m
      else if k = a then (k, v) # m
      else (a, b) # bt_insert k v m)"

definition bt_or_insert :: "'k::linorder \<Rightarrow> 'v \<Rightarrow> ('k, 'v) btree \<Rightarrow> ('k, 'v) btree" where
  "bt_or_insert k v m = (if map_of m k = None then bt_insert k v m else m)"

definition bt_modify :: "'k::linorder \<Rightarrow> 'v \<Rightarrow> ('v \<Rightarrow> 'v) \<Rightarrow> ('k, 'v) btree \<Rightarrow> ('k, 'v) btree" where
  "bt_modify k d f m = bt_insert k (f (case map_of m k of None \<Rightarrow> d | Some v \<Rightarrow> v)) m"

definition bt_contains :: "('k, 'v) btree \<Rightarrow> 'k \<Rightarrow> bool" where
  "bt_contains m k \<longleftrightarrow> map_of m k \<noteq> None"

definition bt_retain :: "('k \<Rightarrow> 'v \<Rightarrow> bool) \<Rightarrow> ('k, 'v) btree \<Rightarrow> ('k, 'v) btree" where
  "bt_retain p m = filter (\<lambda>(k, v). p k v) m"

definition bt_collect :: "('k::linorder \<times> 'v) list \<Rightarrow> ('k, 'v) btree" where
  "bt_collect xs = fold (\<lambda>(k, v). bt_insert k v) xs []"

fun hm_modify :: "'k \<Rightarrow> 'v \<Rightarrow> ('v \<Rightarrow> 'v) \<Rightarrow> ('k, 'v) hmap \<Rightarrow> ('k, 'v) hmap" where
  "hm_modify k d f [] = [(k, f d)]"
| "hm_modify k d f ((a, b) # m) = (if a = k then (a, f b) # m else (a, b) # hm_modify k d f m)"

fun position :: "('a \<Rightarrow> bool) \<Rightarrow> 'a list \<Rightarrow> nat option" where
  "position p [] = None"
| "position p (x # xs) = (if p x then Some 0 else map_option Suc (position p xs))"

fun update_first :: "('a \<Rightarrow> bool) \<Rightarrow> ('a \<Rightarrow> 'a) \<Rightarrow> 'a list \<Rightarrow> 'a list option" where
  "update_first p f [] = None"
| "update_first p f (x # xs) =
     (if p x then Some (f x # xs) else map_option (Cons x) (update_first p f xs))"

definition last_index_map :: "'k list \<Rightarrow> 'k \<Rightarrow> nat option" where
  "last_index_map ks = map_of (rev (zip ks [0..<length ks]))"

section \<open>Decimal printing\<close>

fun show_nat :: "nat \<Rightarrow> string" where
  "show_nat n = (if n < 10 then [char_of (48 + n)] else show_nat (n div 10) @ [char_of (48 + n mod 10)])"

declare show_nat.simps [simp del]

definition show_int :: "int \<Rightarrow> string" where
  "show_int i = (if i < 0 then ''-'' @ show_nat (nat (- i)) else show_nat (nat i))"

section \<open>Facts on fallible computations\<close>

lemma and_then_simps [simp]:
  "and_then (Inr x) f = f x" "and_then (Inl e) f = Inl e"
  by (simp_all add: and_then_def)

lemma and_then_Inr [result_simps]: "and_then m f = Inr y \<longleftrightarrow> (\<exists>x. m = Inr x \<and> f x = Inr y)"
  by (cases m) auto

lemma and_then_Inl [result_simps]:
  "and_then m f = Inl e \<longleftrightarrow> m = Inl e \<or> (\<exists>x. m = Inr x \<and> f x = Inl e)"
  by (cases m) auto

lemma and_then_cong [fundef_cong]:
  "m = m' \<Longrightarrow> (\<And>x. m' = Inr x \<Longrightarrow> f x = g x) \<Longrightarrow> and_then m f = and_then m' g"
  by (cases m') auto

lemma and_then_assoc: "and_then (and_then m f) g = and_then m (\<lambda>x. and_then (f x) g)"
  by (cases m) auto

lemma ok_or_simps [simp]: "ok_or e None = Inl e" "ok_or e (Some x) = Inr x"
  by (simp_all add: ok_or_def)

lemma ok_or_Inr [result_simps]: "ok_or e v = Inr x \<longleftrightarrow> v = Some x"
  by (cases v) auto

lemma ok_or_Inl [result_simps]: "ok_or e v = Inl e' \<longleftrightarrow> v = None \<and> e' = e"
  by (cases v) auto

lemma err_if_simps [simp]: "err_if True e = Inl e" "err_if False e = Inr ()"
  by (simp_all add: err_if_def)

lemma err_if_Inr [result_simps]: "err_if b e = Inr u \<longleftrightarrow> \<not> b"
  by (cases b) auto

lemma err_if_Inl [result_simps]: "err_if b e = Inl e' \<longleftrightarrow> b \<and> e' = e"
  by (cases b) auto

lemma try_opt_simps [simp]: "try_opt f None = Inr ()" "try_opt f (Some x) = f x"
  by (simp_all add: try_opt_def)

lemma try_opt_Inr [result_simps]: "try_opt f v = Inr u \<longleftrightarrow> (\<forall>x. v = Some x \<longrightarrow> f x = Inr ())"
  by (cases v) auto

lemma try_each_Inr [result_simps]: "try_each f xs = Inr u \<longleftrightarrow> (\<forall>x \<in> set xs. f x = Inr ())"
  by (induction xs) (auto simp: and_then_Inr)

lemma try_each_cong [fundef_cong]:
  "xs = ys \<Longrightarrow> (\<And>x. x \<in> set ys \<Longrightarrow> f x = g x) \<Longrightarrow> try_each f xs = try_each g ys"
proof (induction ys arbitrary: xs)
  case (Cons y ys)
  then have "f y = g y" and "try_each f ys = try_each g ys" by auto
  with Cons.prems(1) show ?case by simp
qed simp

lemma try_map_Inr: "try_map f xs = Inr ys \<longleftrightarrow> list_all2 (\<lambda>x y. f x = Inr y) xs ys"
  by (induction xs arbitrary: ys) (auto simp: and_then_Inr list_all2_Cons1)

lemma try_map_length: "try_map f xs = Inr ys \<Longrightarrow> length ys = length xs"
  by (auto simp: try_map_Inr dest: list_all2_lengthD)

lemma transpose_opt_Inr [result_simps]:
  "transpose_opt v = Inr w \<longleftrightarrow>
     (v = None \<and> w = None) \<or> (\<exists>x. v = Some (Inr x) \<and> w = Some x)"
  by (cases v) (auto simp: transpose_opt_def and_then_Inr)

text \<open>The loop rule of a fallible fold: an invariant every successful step keeps.\<close>

lemma try_fold_invariant:
  assumes "try_fold f s xs = Inr t" and "I s"
    and "\<And>s x s'. I s \<Longrightarrow> x \<in> set xs \<Longrightarrow> f s x = Inr s' \<Longrightarrow> I s'"
  shows "I t"
  using assms
proof (induction xs arbitrary: s)
  case (Cons x xs)
  from Cons.prems(1) obtain s' where s': "f s x = Inr s'" "try_fold f s' xs = Inr t"
    by (auto simp: and_then_Inr)
  have "I s'" by (rule Cons.prems(3) [OF Cons.prems(2) _ s'(1)]) simp
  from s'(2) this show ?case
  proof (rule Cons.IH)
    fix a y a' assume "I a" "y \<in> set xs" "f a y = Inr a'"
    then show "I a'" using Cons.prems(3) [of a y a'] by simp
  qed
qed simp

lemma try_fold_append: "try_fold f s (xs @ ys) = and_then (try_fold f s xs) (\<lambda>t. try_fold f t ys)"
  by (induction xs arbitrary: s) (auto simp: and_then_assoc)

lemma fold_opt_append: "fold_opt f s (xs @ ys) = Option.bind (fold_opt f s xs) (\<lambda>t. fold_opt f t ys)"
  by (induction xs arbitrary: s) (auto split: bind_splits)

section \<open>Facts on maps\<close>

lemma map_of_bt_insert [map_simps]: "map_of (bt_insert k v m) = (map_of m)(k \<mapsto> v)"
  by (induction k v m rule: bt_insert.induct) (auto simp: fun_eq_iff)

lemma set_bt_insert: "fst ` set (bt_insert k v m) = insert k (fst ` set m)"
  by (induction k v m rule: bt_insert.induct) auto

lemma bt_ok_insert [map_simps]: "bt_ok m \<Longrightarrow> bt_ok (bt_insert k v m)"
proof (induction k v m rule: bt_insert.induct)
  case (2 k v a b m)
  have "fst ` set (bt_insert k v m) = insert k (fst ` set m)" by (rule set_bt_insert)
  then have keys: "x \<in> set (bt_insert k v m) \<Longrightarrow> fst x = k \<or> fst x \<in> fst ` set m" for x by blast
  with 2 show ?case
    by (auto simp: not_less order.order_iff_strict dest!: keys intro: less_trans)
qed simp

lemma bt_ok_distinct: "bt_ok m \<Longrightarrow> distinct (map fst m)"
  by (simp add: strict_sorted_iff)

lemma bt_ok_map_of_set: "bt_ok m \<Longrightarrow> (k, v) \<in> set m \<longleftrightarrow> map_of m k = Some v"
  by (simp add: map_of_eq_Some_iff bt_ok_distinct)

lemma map_of_bt_or_insert [map_simps]:
  "map_of (bt_or_insert k v m) = (if map_of m k = None then (map_of m)(k \<mapsto> v) else map_of m)"
  by (simp add: bt_or_insert_def map_of_bt_insert)

lemma bt_ok_or_insert [map_simps]: "bt_ok m \<Longrightarrow> bt_ok (bt_or_insert k v m)"
  by (simp add: bt_or_insert_def bt_ok_insert)

lemma map_of_bt_modify [map_simps]:
  "map_of (bt_modify k d f m) =
     (map_of m)(k \<mapsto> f (case map_of m k of None \<Rightarrow> d | Some v \<Rightarrow> v))"
  by (simp add: bt_modify_def map_of_bt_insert)

lemma bt_ok_modify [map_simps]: "bt_ok m \<Longrightarrow> bt_ok (bt_modify k d f m)"
  by (simp add: bt_modify_def bt_ok_insert)

lemma bt_ok_filter [map_simps]: "bt_ok m \<Longrightarrow> bt_ok (filter p m)"
  by (induction m) auto

lemma bt_insert_length:
  "length (bt_insert k v m) \<le> Suc (length m)"
  by (induction k v m rule: bt_insert.induct) auto

lemma bt_insert_new_length:
  "map_of m k = None \<Longrightarrow> length (bt_insert k v m) = Suc (length m)"
  by (induction k v m rule: bt_insert.induct) (auto split: if_splits)

lemma bt_contains_iff: "bt_contains m k \<longleftrightarrow> k \<in> fst ` set m"
  by (simp add: bt_contains_def map_of_eq_None_iff)

lemma map_of_hm_modify [map_simps]:
  "map_of (hm_modify k d f m) =
     (map_of m)(k \<mapsto> f (case map_of m k of None \<Rightarrow> d | Some v \<Rightarrow> v))"
  by (induction k d f m rule: hm_modify.induct) (auto simp: fun_eq_iff)

lemma hm_modify_keys: "fst ` set (hm_modify k d f m) = insert k (fst ` set m)"
  by (induction k d f m rule: hm_modify.induct) auto

lemma hm_modify_distinct [map_simps]:
  "distinct (map fst m) \<Longrightarrow> distinct (map fst (hm_modify k d f m))"
proof (induction k d f m rule: hm_modify.induct)
  case (2 k d f a b m)
  have "fst ` set (hm_modify k d f m) = insert k (fst ` set m)" by (rule hm_modify_keys)
  with 2 show ?case by auto
qed simp

lemma position_Some_iff:
  "position p xs = Some i \<longleftrightarrow> i < length xs \<and> p (xs ! i) \<and> (\<forall>j < i. \<not> p (xs ! j))"
proof (induction xs arbitrary: i)
  case (Cons x xs)
  then show ?case by (cases i) (auto simp: All_less_Suc2)
qed simp

lemma update_first_None: "update_first p f xs = None \<longleftrightarrow> (\<forall>x \<in> set xs. \<not> p x)"
  by (induction xs) auto

lemma update_first_Some:
  "update_first p f xs = Some ys \<longleftrightarrow>
     (\<exists>i. position p xs = Some i \<and> ys = xs[i := f (xs ! i)])"
  by (induction xs arbitrary: ys) auto

lemma last_index_map_bound: "last_index_map ks k = Some i \<Longrightarrow> i < length ks \<and> ks ! i = k"
  by (auto simp: last_index_map_def set_zip dest!: map_of_SomeD)

lemma last_index_map_distinct:
  assumes "distinct ks" "i < length ks"
  shows "last_index_map ks (ks ! i) = Some i"
proof -
  have "distinct (map fst (rev (zip ks [0..<length ks])))" using assms(1) by (simp flip: rev_map)
  moreover have "(ks ! i, i) \<in> set (rev (zip ks [0..<length ks]))" using assms(2) by (force simp: set_zip)
  ultimately show ?thesis unfolding last_index_map_def by (rule map_of_is_SomeI)
qed

text \<open>Two sorted maps with the same lookups are the same list: iteration order is a function of the contents.\<close>

lemma bt_ok_extensional:
  assumes "bt_ok m" "bt_ok m'" "map_of m = map_of m'"
  shows "m = m'"
proof (rule map_sorted_distinct_set_unique [where f = fst])
  have "(k, v) \<in> set m \<longleftrightarrow> (k, v) \<in> set m'" for k v
    using assms by (simp add: bt_ok_map_of_set)
  then show set_eq: "set m = set m'" by auto
  show "inj_on fst (set m \<union> set m')"
    using bt_ok_distinct [OF assms(1)] set_eq by (simp add: distinct_map)
qed (use assms in \<open>simp_all add: strict_sorted_iff\<close>)

section \<open>An ordered map interface\<close>

text \<open>
  What the components rely on when they keep records in a \<open>BTreeMap\<close>: lookups after an
  insertion, the kept invariant, and iteration in key order.
\<close>

locale ordered_map =
  fixes insert_m :: "'k::linorder \<Rightarrow> 'v \<Rightarrow> 'm \<Rightarrow> 'm"
    and lookup_m :: "'m \<Rightarrow> 'k \<Rightarrow> 'v option"
    and entries_m :: "'m \<Rightarrow> ('k \<times> 'v) list"
    and invar_m :: "'m \<Rightarrow> bool"
  assumes lookup_insert: "lookup_m (insert_m k v m) = (lookup_m m)(k \<mapsto> v)"
    and invar_insert: "invar_m m \<Longrightarrow> invar_m (insert_m k v m)"
    and entries_sorted: "invar_m m \<Longrightarrow> sorted_wrt (<) (map fst (entries_m m))"
    and entries_lookup: "invar_m m \<Longrightarrow> (k, v) \<in> set (entries_m m) \<longleftrightarrow> lookup_m m k = Some v"
begin

lemma insert_commute:
  assumes "k \<noteq> k'" "invar_m m"
  shows "entries_m (insert_m k v (insert_m k' v' m)) = entries_m (insert_m k' v' (insert_m k v m))"
proof (rule bt_ok_extensional)
  let ?l = "insert_m k v (insert_m k' v' m)" and ?r = "insert_m k' v' (insert_m k v m)"
  have invs: "invar_m ?l" "invar_m ?r" using assms(2) by (simp_all add: invar_insert)
  then show sorted: "bt_ok (entries_m ?l)" "bt_ok (entries_m ?r)" by (simp_all add: entries_sorted)
  have "lookup_m ?l = lookup_m ?r" using assms(1) by (simp add: lookup_insert fun_upd_twist)
  then have "(a, b) \<in> set (entries_m ?l) \<longleftrightarrow> (a, b) \<in> set (entries_m ?r)" for a b
    using invs by (simp add: entries_lookup)
  then have "set (entries_m ?l) = set (entries_m ?r)" by auto
  then show "map_of (entries_m ?l) = map_of (entries_m ?r)"
    using sorted by (metis bt_ok_distinct map_of_inject_set)
qed

lemma insert_idem: "invar_m m \<Longrightarrow> lookup_m m k = Some v \<Longrightarrow> entries_m (insert_m k v m) = entries_m m"
  by (rule bt_ok_extensional)
    (auto simp: entries_sorted invar_insert entries_lookup lookup_insert bt_ok_distinct
      intro!: map_of_inject_set [THEN iffD2] split: if_splits)

end

interpretation bt: ordered_map bt_insert map_of "\<lambda>m. m" "bt_ok"
  by unfold_locales (simp_all add: map_of_bt_insert bt_ok_insert bt_ok_map_of_set)

end
