(* ===== verification/F64.thy ===== *)
theory F64
  imports Prelude
begin

text \<open>
  Rust's \<open>f64\<close>: IEEE 754 binary64 on its 64-bit pattern, executable and exact. A finite
  value is an integer multiple of \<open>2^-1074\<close>; every operation computes the exact result in
  those units and rounds it to nearest, ties to even. Comparison reads the pattern as a
  signed magnitude, so \<open>-0.0\<close> and \<open>0.0\<close> compare equal and a NaN compares false with
  everything. Rust leaves the payload of a computed NaN open; here it is the quiet NaN.
  The theory supplies the arithmetic that the numeric guards of the program are written in.
\<close>

datatype f64 = F64 (to_bits: "64 word")

section \<open>Decoding\<close>

definition f64_sign :: "f64 \<Rightarrow> bool" where
  "f64_sign x \<longleftrightarrow> 2 ^ 63 \<le> uint (to_bits x)"

definition f64_mag :: "f64 \<Rightarrow> int" where
  "f64_mag x = uint (to_bits x) mod 2 ^ 63"

definition inf_mag :: int where
  "inf_mag = 2047 * 2 ^ 52"

definition is_nan :: "f64 \<Rightarrow> bool" where
  "is_nan x \<longleftrightarrow> inf_mag < f64_mag x"

definition is_infinite :: "f64 \<Rightarrow> bool" where
  "is_infinite x \<longleftrightarrow> f64_mag x = inf_mag"

definition is_finite :: "f64 \<Rightarrow> bool" where
  "is_finite x \<longleftrightarrow> f64_mag x < inf_mag"

definition mag_units :: "int \<Rightarrow> int" where
  "mag_units m = (if m < 2 ^ 52 then m else (2 ^ 52 + m mod 2 ^ 52) * 2 ^ (nat (m div 2 ^ 52) - 1))"

definition f64_units :: "f64 \<Rightarrow> int" where
  "f64_units x = (if f64_sign x then - mag_units (f64_mag x) else mag_units (f64_mag x))"

definition f64_key :: "f64 \<Rightarrow> int" where
  "f64_key x = (if f64_sign x then - f64_mag x else f64_mag x)"

definition total_key :: "f64 \<Rightarrow> int" where
  "total_key x = (if f64_sign x then - f64_mag x - 1 else f64_mag x)"

section \<open>Encoding and rounding\<close>

definition f64_pack :: "bool \<Rightarrow> int \<Rightarrow> f64" where
  "f64_pack s m = F64 (word_of_int (if s then m + 2 ^ 63 else m))"

function shift_of :: "int \<Rightarrow> nat" where
  "shift_of t = (if t < 2 ^ 53 then 0 else Suc (shift_of (t div 2)))"
  by pat_completeness auto
termination
  by (relation "measure nat") auto

declare shift_of.simps [simp del]

definition round_quot :: "int \<Rightarrow> int \<Rightarrow> int" where
  "round_quot n d =
     (let q = n div d; r = n mod d
      in if d < 2 * r \<or> (d = 2 * r \<and> odd q) then q + 1 else q)"

definition round_mag :: "int \<Rightarrow> int \<Rightarrow> int" where
  "round_mag n d =
     (let s = shift_of (n div d)
      in min (int s * 2 ^ 52 + round_quot n (d * 2 ^ s)) inf_mag)"

definition f64_round_to :: "bool \<Rightarrow> int \<Rightarrow> int \<Rightarrow> f64" where
  "f64_round_to s n d = f64_pack s (round_mag n d)"

definition f64_NAN :: f64 where "f64_NAN = f64_pack False (2 ^ 63 - 2 ^ 51)"
definition f64_INFINITY :: "bool \<Rightarrow> f64" where "f64_INFINITY s = f64_pack s inf_mag"
definition f64_neg_zero :: f64 where "f64_neg_zero = f64_pack True 0"

definition f64_of_int :: "int \<Rightarrow> f64" where
  "f64_of_int i = f64_round_to (i < 0) (\<bar>i\<bar> * 2 ^ 1074) 1"

text \<open>The decimal literal \<open>m * 10^-k\<close>, correctly rounded as the compiler reads it.\<close>

definition f64_dec :: "nat \<Rightarrow> nat \<Rightarrow> f64" where
  "f64_dec m k = f64_round_to False (int m * 2 ^ 1074) (10 ^ k)"

section \<open>Operations\<close>

definition f64_neg :: "f64 \<Rightarrow> f64" where
  "f64_neg x = f64_pack (\<not> f64_sign x) (f64_mag x)"

definition f64_abs :: "f64 \<Rightarrow> f64" where
  "f64_abs x = f64_pack False (f64_mag x)"

definition f64_add :: "f64 \<Rightarrow> f64 \<Rightarrow> f64" where
  "f64_add x y =
     (if is_nan x \<or> is_nan y then f64_NAN
      else if is_infinite x then (if is_infinite y \<and> f64_sign x \<noteq> f64_sign y then f64_NAN else x)
      else if is_infinite y then y
      else let u = f64_units x + f64_units y
           in if u = 0 then f64_pack (f64_sign x \<and> f64_sign y) 0
              else f64_round_to (u < 0) \<bar>u\<bar> 1)"

definition f64_mul :: "f64 \<Rightarrow> f64 \<Rightarrow> f64" where
  "f64_mul x y =
     (let s = (f64_sign x \<noteq> f64_sign y)
      in if is_nan x \<or> is_nan y then f64_NAN
         else if is_infinite x \<or> is_infinite y
         then (if f64_mag x = 0 \<or> f64_mag y = 0 then f64_NAN else f64_INFINITY s)
         else f64_round_to s \<bar>f64_units x * f64_units y\<bar> (2 ^ 1074))"

definition f64_div :: "f64 \<Rightarrow> f64 \<Rightarrow> f64" where
  "f64_div x y =
     (let s = (f64_sign x \<noteq> f64_sign y)
      in if is_nan x \<or> is_nan y then f64_NAN
         else if is_infinite x then (if is_infinite y then f64_NAN else f64_INFINITY s)
         else if is_infinite y then f64_pack s 0
         else if f64_mag y = 0 then (if f64_mag x = 0 then f64_NAN else f64_INFINITY s)
         else f64_round_to s (\<bar>f64_units x\<bar> * 2 ^ 1074) \<bar>f64_units y\<bar>)"

definition f64_lt :: "f64 \<Rightarrow> f64 \<Rightarrow> bool" where
  "f64_lt x y \<longleftrightarrow> \<not> is_nan x \<and> \<not> is_nan y \<and> f64_key x < f64_key y"

definition f64_le :: "f64 \<Rightarrow> f64 \<Rightarrow> bool" where
  "f64_le x y \<longleftrightarrow> \<not> is_nan x \<and> \<not> is_nan y \<and> f64_key x \<le> f64_key y"

definition f64_eq :: "f64 \<Rightarrow> f64 \<Rightarrow> bool" where
  "f64_eq x y \<longleftrightarrow> \<not> is_nan x \<and> \<not> is_nan y \<and> f64_key x = f64_key y"

instantiation f64 :: "{zero, one, plus, minus, times, inverse, uminus, abs, ord}"
begin

definition zero_f64 :: f64 where "0 = f64_pack False 0"
definition one_f64 :: f64 where "1 = f64_of_int 1"
definition plus_f64 :: "f64 \<Rightarrow> f64 \<Rightarrow> f64" where "x + y = f64_add x y"
definition uminus_f64 :: "f64 \<Rightarrow> f64" where "- x = f64_neg x"
definition minus_f64 :: "f64 \<Rightarrow> f64 \<Rightarrow> f64" where "x - y = f64_add x (f64_neg y)"
definition times_f64 :: "f64 \<Rightarrow> f64 \<Rightarrow> f64" where "x * y = f64_mul x y"
definition divide_f64 :: "f64 \<Rightarrow> f64 \<Rightarrow> f64" where "x div y = f64_div x y"
definition inverse_f64 :: "f64 \<Rightarrow> f64" where "inverse x = f64_div (f64_of_int 1) x"
definition abs_f64 :: "f64 \<Rightarrow> f64" where "\<bar>x\<bar> = f64_abs x"
definition less_f64 :: "f64 \<Rightarrow> f64 \<Rightarrow> bool" where "x < y \<longleftrightarrow> f64_lt x y"
definition less_eq_f64 :: "f64 \<Rightarrow> f64 \<Rightarrow> bool" where "x \<le> y \<longleftrightarrow> f64_le x y"

instance ..

end

definition f64_floor :: "f64 \<Rightarrow> f64" where
  "f64_floor x =
     (if \<not> is_finite x then x
      else let k = f64_units x div 2 ^ 1074
           in f64_round_to (f64_sign x) (\<bar>k\<bar> * 2 ^ 1074) 1)"

definition f64_round :: "f64 \<Rightarrow> f64" where
  "f64_round x =
     (if \<not> is_finite x then x
      else let k = (2 * \<bar>f64_units x\<bar> + 2 ^ 1074) div 2 ^ 1075
           in f64_round_to (f64_sign x) (k * 2 ^ 1074) 1)"

definition f64_min :: "f64 \<Rightarrow> f64 \<Rightarrow> f64" where
  "f64_min x y = (if is_nan x then y else if is_nan y then x else if y < x then y else x)"

definition f64_max :: "f64 \<Rightarrow> f64 \<Rightarrow> f64" where
  "f64_max x y = (if is_nan x then y else if is_nan y then x else if x < y then y else x)"

definition f64_total_less :: "f64 \<Rightarrow> f64 \<Rightarrow> bool" where
  "f64_total_less x y \<longleftrightarrow> total_key x < total_key y"

text \<open>\<open>Iterator::sum\<close> starts from the neutral element \<open>-0.0\<close>.\<close>

definition f64_sum :: "f64 list \<Rightarrow> f64" where
  "f64_sum xs = foldl (+) f64_neg_zero xs"

section \<open>Reading back a packed value\<close>

lemmas f64_ops = plus_f64_def uminus_f64_def minus_f64_def times_f64_def divide_f64_def
  abs_f64_def less_f64_def less_eq_f64_def zero_f64_def one_f64_def

lemma uint_bits_bound: "0 \<le> uint (to_bits x)" "uint (to_bits x) < 2 ^ 64"
  using uint_bounded [of "to_bits x"] by simp_all

lemma f64_mag_bounds: "0 \<le> f64_mag x" "f64_mag x < 2 ^ 63"
  by (simp_all add: f64_mag_def)

lemma uint_pack:
  assumes "0 \<le> m" "m < 2 ^ 63"
  shows "uint (to_bits (f64_pack s m)) = (if s then m + 2 ^ 63 else m)"
  using assms by (simp add: f64_pack_def uint_word_of_int)

lemma f64_sign_pack [simp]:
  assumes "0 \<le> m" "m < 2 ^ 63"
  shows "f64_sign (f64_pack s m) = s"
  using assms by (simp add: f64_sign_def uint_pack)

lemma f64_mag_pack [simp]:
  assumes "0 \<le> m" "m < 2 ^ 63"
  shows "f64_mag (f64_pack s m) = m"
  using assms by (simp add: f64_mag_def uint_pack)

lemma f64_pack_unpack [simp]: "f64_pack (f64_sign x) (f64_mag x) = x"
proof -
  define u where "u = uint (to_bits x)"
  have u: "0 \<le> u" "u < 2 ^ 64" using uint_bits_bound [of x] by (simp_all add: u_def)
  have "u mod 2 ^ 63 = (if 2 ^ 63 \<le> u then u - 2 ^ 63 else u)"
  proof (cases "2 ^ 63 \<le> u")
    case True
    have "u mod 2 ^ 63 = (u - 2 ^ 63) mod 2 ^ 63" by (rule minus_mod_self2 [symmetric])
    also have "\<dots> = u - 2 ^ 63" using True u(2) by (intro mod_pos_pos_trivial) simp_all
    finally show ?thesis using True by simp
  qed (use u(1) in simp)
  then have "uint (to_bits x) mod 2 ^ 63 + (if f64_sign x then 2 ^ 63 else 0) = uint (to_bits x)"
    by (simp add: f64_sign_def u_def)
  then have "(if f64_sign x then f64_mag x + 2 ^ 63 else f64_mag x) = uint (to_bits x)"
    by (simp add: f64_mag_def split: if_splits)
  then show ?thesis by (simp add: f64_pack_def)
qed

lemma f64_eqI:
  assumes "f64_sign x = f64_sign y" "f64_mag x = f64_mag y"
  shows "x = y"
proof -
  have "x = f64_pack (f64_sign x) (f64_mag x)" by (rule f64_pack_unpack [symmetric])
  also have "\<dots> = f64_pack (f64_sign y) (f64_mag y)" by (simp only: assms)
  also have "\<dots> = y" by (rule f64_pack_unpack)
  finally show ?thesis .
qed

lemma f64_class: "is_nan x \<or> is_infinite x \<or> is_finite x"
  by (auto simp: is_nan_def is_infinite_def is_finite_def)

lemma is_finite_not [simp]: "is_finite x \<Longrightarrow> \<not> is_nan x" "is_finite x \<Longrightarrow> \<not> is_infinite x"
  by (auto simp: is_nan_def is_infinite_def is_finite_def)

lemma f64_zero_facts [simp]:
  "f64_sign 0 = False" "f64_mag 0 = 0" "is_finite (0::f64)" "f64_units 0 = 0" "f64_key 0 = 0"
  by (simp_all add: zero_f64_def is_finite_def inf_mag_def f64_units_def mag_units_def f64_key_def)

section \<open>Comparison\<close>

lemma f64_less_iff: "x < y \<longleftrightarrow> \<not> is_nan x \<and> \<not> is_nan y \<and> f64_key x < f64_key (y::f64)"
  by (simp add: less_f64_def f64_lt_def)

lemma f64_le_iff: "x \<le> y \<longleftrightarrow> \<not> is_nan x \<and> \<not> is_nan y \<and> f64_key x \<le> f64_key (y::f64)"
  by (simp add: less_eq_f64_def f64_le_def)

lemma f64_less_trans: "x < y \<Longrightarrow> y < z \<Longrightarrow> x < (z::f64)"
  by (auto simp: f64_less_iff)

lemma f64_less_irrefl: "\<not> x < (x::f64)"
  by (simp add: f64_less_iff)

lemma f64_not_less: "\<not> is_nan x \<Longrightarrow> \<not> is_nan y \<Longrightarrow> \<not> x < y \<longleftrightarrow> y \<le> (x::f64)"
  by (auto simp: f64_less_iff f64_le_iff)

lemma f64_le_trans: "x \<le> y \<Longrightarrow> y \<le> z \<Longrightarrow> x \<le> (z::f64)"
  by (auto simp: f64_le_iff)

lemma f64_less_le_trans: "x < y \<Longrightarrow> y \<le> z \<Longrightarrow> x < (z::f64)"
  by (auto simp: f64_less_iff f64_le_iff)

lemma f64_le_less_trans: "x \<le> y \<Longrightarrow> y < z \<Longrightarrow> x < (z::f64)"
  by (auto simp: f64_less_iff f64_le_iff)

lemma f64_less_imp_le: "x < y \<Longrightarrow> x \<le> (y::f64)"
  by (auto simp: f64_less_iff f64_le_iff)

lemma total_key_inj: "total_key x = total_key y \<Longrightarrow> x = y"
proof -
  assume eq: "total_key x = total_key y"
  have "f64_sign x = f64_sign y"
    using eq f64_mag_bounds [of x] f64_mag_bounds [of y] by (auto simp: total_key_def split: if_splits)
  moreover have "f64_mag x = f64_mag y"
    using eq calculation by (auto simp: total_key_def split: if_splits)
  ultimately show ?thesis by (rule f64_eqI)
qed

section \<open>Exactness of rounding\<close>

lemma shift_of_small: "t < 2 ^ 53 \<Longrightarrow> shift_of t = 0"
  by (simp add: shift_of.simps)

lemma shift_of_eq: "2 ^ 52 * 2 ^ s \<le> t \<Longrightarrow> t < 2 ^ 53 * 2 ^ s \<Longrightarrow> shift_of t = s"
proof (induction s arbitrary: t)
  case 0
  then show ?case by (simp add: shift_of_small)
next
  case (Suc s)
  have "(1::int) \<le> 2 ^ s" by simp
  then have "2 ^ 53 * 1 \<le> (2 ^ 53 :: int) * 2 ^ s" by (rule mult_left_mono) simp
  moreover have "2 ^ 53 * 2 ^ s \<le> t" using Suc.prems(1) by simp
  ultimately have "2 ^ 53 * 1 \<le> t" by (rule order_trans)
  then have "\<not> t < 2 ^ 53" by simp
  moreover have "shift_of (t div 2) = s"
  proof (rule Suc.IH)
    have halve: "2 * a \<le> t \<Longrightarrow> a \<le> t div 2" "t < 2 * a \<Longrightarrow> t div 2 < a" for a by linarith+
    show "2 ^ 52 * 2 ^ s \<le> t div 2" using Suc.prems(1) by (intro halve) simp
    show "t div 2 < 2 ^ 53 * 2 ^ s" using Suc.prems(2) by (intro halve) simp
  qed
  ultimately show ?case by (simp add: shift_of.simps [of t])
qed

lemma round_quot_exact: "0 < d \<Longrightarrow> round_quot (k * d) d = k"
  by (simp add: round_quot_def Let_def)

lemma round_mag_units:
  assumes "0 \<le> m" "m < inf_mag"
  shows "round_mag (mag_units m) 1 = m"
proof (cases "m < 2 ^ 52")
  case True
  then have "shift_of m = 0" by (intro shift_of_small) simp
  moreover have "round_quot m 1 = m" using round_quot_exact [of 1 m] by simp
  ultimately show ?thesis using True assms by (simp add: round_mag_def mag_units_def min_def)
next
  case False
  define e f where "e = m div 2 ^ 52" and "f = m mod 2 ^ 52"
  have e: "1 \<le> e" using False div_mult_mod_eq [of m "2^52"] pos_imp_zdiv_pos_iff [of "2^52" m]
    by (simp add: e_def)
  have f: "0 \<le> f" "f < 2 ^ 52" by (simp_all add: f_def)
  have m: "m = e * 2 ^ 52 + f" by (simp add: e_def f_def)
  let ?s = "nat e - 1"
  have u: "mag_units m = (2 ^ 52 + f) * 2 ^ ?s" using False by (simp add: mag_units_def e_def f_def)
  have "2 ^ 52 * 2 ^ ?s \<le> mag_units m" "mag_units m < 2 ^ 53 * 2 ^ ?s"
    using f by (simp_all add: u)
  then have s: "shift_of (mag_units m) = ?s" by (rule shift_of_eq)
  have "round_quot (mag_units m) (2 ^ ?s) = 2 ^ 52 + f" unfolding u by (rule round_quot_exact) simp
  moreover have "int ?s * 2 ^ 52 + (2 ^ 52 + f) = m"
    using e by (simp add: m of_nat_diff algebra_simps)
  ultimately show ?thesis using assms by (simp add: round_mag_def s min_def)
qed

section \<open>Addition\<close>

lemma f64_add_commute: "f64_add x y = f64_add y x"
proof (cases "is_infinite x \<and> is_infinite y")
  case True
  then have "f64_sign x = f64_sign y \<Longrightarrow> x = y"
    by (intro f64_eqI) (simp_all add: is_infinite_def)
  with True show ?thesis by (auto simp: f64_add_def is_infinite_def is_nan_def)
next
  case False
  then show ?thesis by (auto simp: f64_add_def Let_def add.commute conj_commute disj_commute)
qed

lemma f64_plus_commute: "x + y = y + (x::f64)"
  by (simp add: plus_f64_def f64_add_commute)

lemma mag_units_nonneg: "0 \<le> m \<Longrightarrow> 0 \<le> mag_units m"
  by (simp add: mag_units_def)

lemma mag_units_eq_0: "0 \<le> m \<Longrightarrow> mag_units m = 0 \<longleftrightarrow> m = 0"
proof -
  have "0 < (2 ^ 52 + m mod 2 ^ 52) * (2::int) ^ (nat (m div 2 ^ 52) - 1)"
    by (intro mult_pos_pos add_pos_nonneg) simp_all
  then show ?thesis by (auto simp: mag_units_def)
qed

lemma f64_abs_units: "\<bar>f64_units x\<bar> = mag_units (f64_mag x)"
  using mag_units_nonneg [of "f64_mag x"] by (simp add: f64_units_def f64_mag_bounds)

lemma f64_units_eq_0: "f64_units x = 0 \<longleftrightarrow> f64_mag x = 0"
  using mag_units_eq_0 [of "f64_mag x"] by (auto simp: f64_units_def f64_mag_bounds)

lemma f64_units_neg: "f64_mag x \<noteq> 0 \<Longrightarrow> f64_units x < 0 \<longleftrightarrow> f64_sign x"
proof -
  assume "f64_mag x \<noteq> 0"
  then have "0 < mag_units (f64_mag x)"
    using mag_units_nonneg [OF f64_mag_bounds(1)] mag_units_eq_0 [OF f64_mag_bounds(1)]
    by (metis order.order_iff_strict)
  then show ?thesis by (auto simp: f64_units_def)
qed

lemma f64_round_units:
  assumes "is_finite x" "f64_units x \<noteq> 0"
  shows "f64_round_to (f64_units x < 0) \<bar>f64_units x\<bar> 1 = x"
proof -
  have "round_mag (mag_units (f64_mag x)) 1 = f64_mag x"
    using assms(1) by (intro round_mag_units) (simp_all add: f64_mag_bounds is_finite_def)
  moreover have "(f64_units x < 0) = f64_sign x"
    using assms(2) by (simp add: f64_units_neg f64_units_eq_0)
  ultimately show ?thesis by (simp add: f64_round_to_def f64_abs_units)
qed

text \<open>Adding to \<open>0.0\<close> keeps the value, except that \<open>-0.0\<close> becomes \<open>0.0\<close> and a NaN the quiet NaN.\<close>

lemma f64_zero_plus: "0 + x = (if is_nan x then f64_NAN else if f64_mag x = 0 then 0 else x)"
proof -
  consider "is_nan x" | "is_infinite x" | "is_finite x" "f64_mag x = 0" | "is_finite x" "f64_mag x \<noteq> 0"
    using f64_class by blast
  then show ?thesis
  proof cases
    case 2
    then show ?thesis by (simp add: plus_f64_def f64_add_def is_nan_def is_infinite_def inf_mag_def)
  next
    case 3
    then have "f64_units x = 0" by (simp add: f64_units_eq_0)
    with 3 have "0 + x = f64_pack False 0" by (simp add: plus_f64_def f64_add_def)
    with 3 show ?thesis by (simp add: zero_f64_def)
  next
    case 4
    then show ?thesis
      by (simp add: plus_f64_def f64_add_def Let_def f64_units_eq_0 f64_round_units)
  qed (simp add: plus_f64_def f64_add_def)
qed

lemma f64_plus_zero_left_comm: "(0 + a) + b = (0 + b) + (a::f64)"
proof -
  have nan: "is_nan f64_NAN" by (simp add: f64_NAN_def is_nan_def inf_mag_def)
  have z: "f64_mag c = 0 \<Longrightarrow> \<not> is_nan c" for c by (simp add: is_nan_def inf_mag_def)
  have absorb: "\<not> is_nan d \<Longrightarrow> f64_mag d \<noteq> 0 \<Longrightarrow> f64_mag c = 0 \<Longrightarrow> d + c = d" for c d :: f64
  proof -
    assume d: "\<not> is_nan d" "f64_mag d \<noteq> 0" and c: "f64_mag c = 0"
    have "f64_units c = 0" using c by (simp add: f64_units_eq_0)
    moreover have "\<not> is_infinite c" using c by (simp add: is_infinite_def inf_mag_def)
    moreover have "f64_units d \<noteq> 0" using d(2) by (simp add: f64_units_eq_0)
    ultimately show "d + c = d"
      using d z [OF c] f64_class [of d]
      by (auto simp: plus_f64_def f64_add_def Let_def f64_round_units simp del: f64_units_eq_0)
  qed
  show ?thesis
  proof (cases "is_nan a \<or> is_nan b")
    case True
    then show ?thesis using nan z by (auto simp: f64_zero_plus plus_f64_def f64_add_def)
  next
    case False
    show ?thesis
    proof (cases "f64_mag a = 0")
      case True
      with False show ?thesis
        by (cases "f64_mag b = 0") (auto simp: f64_zero_plus absorb)
    next
      case a: False
      with False show ?thesis
        by (cases "f64_mag b = 0") (auto simp: f64_zero_plus absorb f64_plus_commute)
    qed
  qed
qed

section \<open>Efficient evaluation\<close>

text \<open>Code equations that keep kernel evaluation short: bit lengths and common factors of two are read off the binary numerals.\<close>

primrec num_len :: "num \<Rightarrow> nat" where
  "num_len num.One = 1"
| "num_len (num.Bit0 n) = Suc (num_len n)"
| "num_len (num.Bit1 n) = Suc (num_len n)"

lemma num_double: "numeral (num.Bit0 n) = 2 * (numeral n :: int)" "numeral (num.Bit1 n) = 2 * (numeral n :: int) + 1"
  by simp_all

lemma num_len_pos: "0 < num_len n"
  by (cases n) simp_all

lemma num_len_upper: "numeral n < (2 :: int) ^ num_len n"
proof (induction n)
  case One show ?case by simp
next
  case (Bit0 n)
  then show ?case unfolding num_double [of n] num_len.simps power_Suc by linarith
next
  case (Bit1 n)
  then show ?case unfolding num_double [of n] num_len.simps power_Suc by linarith
qed

lemma num_len_lower: "(2 :: int) ^ num_len n \<le> 2 * numeral n"
proof (induction n)
  case One show ?case by simp
next
  case (Bit0 n)
  then show ?case unfolding num_double [of n] num_len.simps power_Suc by linarith
next
  case (Bit1 n)
  define x where "x = (numeral n :: int)"
  have "(2 :: int) ^ num_len n \<le> 2 * x" using Bit1 by (simp only: x_def)
  moreover have "a \<le> 2 * x \<Longrightarrow> 2 * a \<le> 2 * (2 * x + 1)" for a :: int by presburger
  ultimately show ?case unfolding num_double [of n] num_len.simps power_Suc x_def [symmetric] by blast
qed

lemma num_len_less: "numeral n < (2 :: int) ^ k \<longleftrightarrow> num_len n \<le> k"
proof
  assume "num_len n \<le> k"
  then have "(2 :: int) ^ num_len n \<le> 2 ^ k" by (rule power_increasing) simp
  with num_len_upper [of n] show "numeral n < (2 :: int) ^ k" by linarith
next
  assume "numeral n < (2 :: int) ^ k"
  with num_len_lower [of n] have "(2 :: int) ^ num_len n < 2 ^ Suc k" unfolding power_Suc by linarith
  then have "num_len n < Suc k" by (rule power_less_imp_less_exp [rotated]) simp
  then show "num_len n \<le> k" by linarith
qed

lemma shift_of_step:
  assumes "m div 2 = numeral n" "m = numeral k" "num_len k = Suc (num_len n)" "shift_of (numeral n) = num_len n - 53"
  shows "shift_of m = num_len k - 53"
proof (cases "num_len k \<le> 53")
  case True
  then have "m < 2 ^ 53" unfolding assms(2) num_len_less .
  then have "shift_of m = 0" unfolding shift_of.simps [of m] by (rule if_P)
  with True show ?thesis by simp
next
  case False
  then have "\<not> m < 2 ^ 53" unfolding assms(2) num_len_less .
  then have "shift_of m = Suc (shift_of (m div 2))" unfolding shift_of.simps [of m] by (rule if_not_P)
  also have "\<dots> = num_len k - 53" using False unfolding assms(1,3,4) by (simp add: Suc_diff_le)
  finally show ?thesis .
qed

lemma shift_of_numeral: "shift_of (numeral n) = num_len n - 53"
proof (induction n)
  case One
  show ?case by (simp add: shift_of.simps [of 1])
next
  case (Bit0 n)
  have "(numeral (num.Bit0 n) :: int) div 2 = numeral n" unfolding num_double [of n] by simp
  from shift_of_step [OF this refl _ Bit0] show ?case by simp
next
  case (Bit1 n)
  have "(numeral (num.Bit1 n) :: int) div 2 = numeral n" unfolding num_double [of n] by simp
  from shift_of_step [OF this refl _ Bit1] show ?case by simp
qed

lemma shift_of_nonpos: "t \<le> 0 \<Longrightarrow> shift_of t = 0"
  by (subst shift_of.simps) simp

lemma shift_of_code [code]:
  "shift_of (Int.Pos n) = num_len n - 53" "shift_of 0 = 0" "shift_of (Int.Neg n) = 0"
  by (simp_all add: shift_of_numeral shift_of_nonpos)


fun strip2 :: "num \<Rightarrow> num \<Rightarrow> num \<times> num" where
  "strip2 (num.Bit0 m) (num.Bit0 n) = strip2 m n"
| "strip2 m n = (m, n)"

lemma strip2_scale:
  assumes "strip2 m n = (m', n')"
  shows "\<exists>k. numeral m = (numeral m' :: int) * 2 ^ k \<and> numeral n = (numeral n' :: int) * 2 ^ k"
  using assms
proof (induction m n rule: strip2.induct)
  case (1 m n)
  then obtain k where "numeral m = (numeral m' :: int) * 2 ^ k" "numeral n = (numeral n' :: int) * 2 ^ k" by auto
  then have "numeral (num.Bit0 m) = (numeral m' :: int) * 2 ^ Suc k" "numeral (num.Bit0 n) = (numeral n' :: int) * 2 ^ Suc k"
    unfolding num_double [of m] num_double [of n] power_Suc by (simp_all only: mult.left_commute)
  then show ?case by blast
qed (auto intro: exI [of _ 0])

lemma round_quot_scale: "0 < (c :: int) \<Longrightarrow> round_quot (n * c) (d * c) = round_quot n d"
proof -
  assume c: "0 < c"
  have q: "n * c div (d * c) = n div d" "n * c mod (d * c) = n mod d * c" using c by simp_all
  have "d * c < 2 * (n mod d * c) \<longleftrightarrow> d < 2 * (n mod d)" "d * c = 2 * (n mod d * c) \<longleftrightarrow> d = 2 * (n mod d)"
    using c by (metis mult.assoc mult_less_cancel_right_pos, metis c less_irrefl mult.assoc mult_cancel_right)
  then show ?thesis unfolding round_quot_def Let_def q by simp
qed

lemma round_mag_scale: "0 < (c :: int) \<Longrightarrow> round_mag (n * c) (d * c) = round_mag n d"
  using round_quot_scale [of c n "d * 2 ^ s" for s] by (simp add: round_mag_def mult_ac)

definition round_mag_raw :: "int \<Rightarrow> int \<Rightarrow> int" where
  "round_mag_raw n d =
     (let s = shift_of (n div d)
      in min (int s * 2 ^ 52 + round_quot n (d * 2 ^ s)) inf_mag)"

definition round_quot_raw :: "int \<Rightarrow> int \<Rightarrow> int" where
  "round_quot_raw n d =
     (let q = n div d; r = n mod d
      in if d < 2 * r \<or> (d = 2 * r \<and> odd q) then q + 1 else q)"

lemma round_raw: "round_mag_raw = round_mag" "round_quot_raw = round_quot"
  by (simp_all add: fun_eq_iff round_mag_raw_def round_mag_def round_quot_raw_def round_quot_def)

lemma round_mag_strip: "round_mag (numeral m) (numeral n) = (case strip2 m n of (m', n') \<Rightarrow> round_mag (numeral m') (numeral n'))"
proof -
  obtain m' n' where s: "strip2 m n = (m', n')" by fastforce
  from strip2_scale [OF s] obtain k where "numeral m = (numeral m' :: int) * 2 ^ k" "numeral n = (numeral n' :: int) * 2 ^ k" by blast
  with s show ?thesis by (simp only: round_mag_scale prod.case zero_less_power zero_less_numeral)
qed

lemma round_quot_strip: "round_quot (numeral m) (numeral n) = (case strip2 m n of (m', n') \<Rightarrow> round_quot (numeral m') (numeral n'))"
proof -
  obtain m' n' where s: "strip2 m n = (m', n')" by fastforce
  from strip2_scale [OF s] obtain k where "numeral m = (numeral m' :: int) * 2 ^ k" "numeral n = (numeral n' :: int) * 2 ^ k" by blast
  with s show ?thesis by (simp only: round_quot_scale prod.case zero_less_power zero_less_numeral)
qed

lemma round_mag_code [code]:
  "round_mag (Int.Pos m) (Int.Pos n) = (case strip2 m n of (m', n') \<Rightarrow> round_mag_raw (Int.Pos m') (Int.Pos n'))"
  "round_mag 0 d = round_mag_raw 0 d" "round_mag (Int.Neg m) d = round_mag_raw (Int.Neg m) d"
  "round_mag (Int.Pos m) 0 = round_mag_raw (Int.Pos m) 0"
  "round_mag (Int.Pos m) (Int.Neg n) = round_mag_raw (Int.Pos m) (Int.Neg n)"
  unfolding round_raw Int.Pos_def by (rule round_mag_strip refl)+

lemma round_quot_code [code]:
  "round_quot (Int.Pos m) (Int.Pos n) = (case strip2 m n of (m', n') \<Rightarrow> round_quot_raw (Int.Pos m') (Int.Pos n'))"
  "round_quot 0 d = round_quot_raw 0 d" "round_quot (Int.Neg m) d = round_quot_raw (Int.Neg m) d"
  "round_quot (Int.Pos m) 0 = round_quot_raw (Int.Pos m) 0"
  "round_quot (Int.Pos m) (Int.Neg n) = round_quot_raw (Int.Pos m) (Int.Neg n)"
  unfolding round_raw Int.Pos_def by (rule round_quot_strip refl)+


lemma shift_of_range:
  assumes "2 ^ (52 + s) \<le> t" "t < 2 ^ (53 + s)"
  shows "shift_of t = s"
  using assms
proof (induction s arbitrary: t)
  case 0
  then have "t < 2 ^ 53" by simp
  then show ?case unfolding shift_of.simps [of t] by (rule if_P)
next
  case (Suc s)
  have "2 ^ 53 \<le> (2 :: int) ^ (52 + Suc s)" by (rule power_increasing) simp_all
  then have "\<not> t < 2 ^ 53" using Suc.prems(1) by linarith
  then have "shift_of t = Suc (shift_of (t div 2))" unfolding shift_of.simps [of t] by (rule if_not_P)
  moreover have "2 * 2 ^ (52 + s) \<le> t" "t < 2 * 2 ^ (53 + s)" using Suc.prems by (simp_all only: add_Suc_right power_Suc)
  then have "2 ^ (52 + s) \<le> t div 2" "t div 2 < 2 ^ (53 + s)" by linarith+
  ultimately show ?case using Suc.IH [of "t div 2"] by simp
qed

lemma int_le_div_iff: "0 < d \<Longrightarrow> a \<le> n div d \<longleftrightarrow> a * d \<le> n" for a n d :: int
proof
  assume d: "0 < d"
  { assume "a \<le> n div d"
    then have "a * d \<le> n div d * d" using d by (simp add: mult_right_mono)
    also have "\<dots> \<le> n" using d pos_mod_sign [of d n] by (simp add: div_mult_mod_eq minus_mod_eq_div_mult [symmetric])
    finally show "a * d \<le> n" . }
  assume "a * d \<le> n"
  from zdiv_mono1 [OF this d] show "a \<le> n div d" using d by simp
qed

lemma round_mag_pow2:
  assumes d: "0 < d" and lo: "2 ^ 52 * d \<le> n" and hi: "n < 2 ^ 53 * d"
  shows "round_mag (n * 2 ^ s) d = min (int s * 2 ^ 52 + round_quot n d) inf_mag"
proof -
  have "2 ^ 52 * d * 2 ^ s \<le> n * 2 ^ s" "n * 2 ^ s < 2 ^ 53 * d * 2 ^ s"
    using lo hi by (simp_all only: mult_right_mono mult_less_cancel_right_pos zero_less_power zero_less_numeral zero_le_power zero_le_numeral)
  then have "2 ^ (52 + s) * d \<le> n * 2 ^ s" "n * 2 ^ s < 2 ^ (53 + s) * d"
    by (simp_all only: power_add mult_ac)
  then have "2 ^ (52 + s) \<le> n * 2 ^ s div d" "n * 2 ^ s div d < 2 ^ (53 + s)"
    using d by (simp_all only: int_le_div_iff not_le [symmetric] not_False_eq_True)
  then have "shift_of (n * 2 ^ s div d) = s" by (rule shift_of_range)
  then show ?thesis unfolding round_mag_def Let_def by (simp add: round_quot_scale)
qed

text \<open>The decimal constants of the program, by their bit patterns.\<close>

definition f64_1e_6 :: f64 where "f64_1e_6 = f64_dec 1 6"
definition f64_1e_7 :: f64 where "f64_1e_7 = f64_dec 1 7"
definition f64_1e_9 :: f64 where "f64_1e_9 = f64_dec 1 9"
definition f64_1e_10 :: f64 where "f64_1e_10 = f64_dec 1 10"
definition f64_1e_12 :: f64 where "f64_1e_12 = f64_dec 1 12"

lemma f64_dec_bits:
  assumes "2 ^ 52 * 10 ^ k \<le> (2 :: int) ^ j" "2 ^ j < (2 :: int) ^ 53 * 10 ^ k" "j + s = 1074"
  shows "f64_dec 1 k = f64_pack False (min (int s * 2 ^ 52 + round_quot (2 ^ j) (10 ^ k)) inf_mag)"
proof -
  have "int 1 * 2 ^ 1074 = 2 ^ j * 2 ^ s" unfolding power_add [symmetric] using assms(3) by simp
  with round_mag_pow2 [of "10 ^ k" "2 ^ j" s] assms(1,2) show ?thesis
    unfolding f64_dec_def f64_round_to_def by simp
qed

lemma f64_1e_6_bits [code]: "f64_1e_6 = F64 4517329193108106637"
  using f64_dec_bits [of 6 72 1002] by (simp add: f64_1e_6_def round_quot_def inf_mag_def f64_pack_def)

lemma f64_1e_7_bits [code]: "f64_1e_7 = F64 4502148214488346440"
  using f64_dec_bits [of 7 76 998] by (simp add: f64_1e_7_def round_quot_def inf_mag_def f64_pack_def)

lemma f64_1e_9_bits [code]: "f64_1e_9 = F64 4472406533629990549"
  using f64_dec_bits [of 9 82 992] by (simp add: f64_1e_9_def round_quot_def inf_mag_def f64_pack_def)

lemma f64_1e_10_bits [code]: "f64_1e_10 = F64 4457293557087583675"
  using f64_dec_bits [of 10 86 988] by (simp add: f64_1e_10_def round_quot_def inf_mag_def f64_pack_def)

lemma f64_1e_12_bits [code]: "f64_1e_12 = F64 4427486594234968593"
  using f64_dec_bits [of 12 92 982] by (simp add: f64_1e_12_def round_quot_def inf_mag_def f64_pack_def)

lemma f64_one_bits [code]: "1 = F64 4607182418800017408"
proof -
  have "round_mag (2 ^ 52 * 2 ^ 1022) 1 = 4607182418800017408"
    by (subst round_mag_pow2) (simp_all add: round_quot_def inf_mag_def)
  moreover have "\<bar>1\<bar> * 2 ^ 1074 = (2 ^ 52 * 2 ^ 1022 :: int)"
    unfolding power_add [symmetric] by simp
  ultimately show ?thesis unfolding one_f64_def f64_of_int_def f64_round_to_def by (simp add: f64_pack_def)
qed

definition f64_two :: f64 where "f64_two = f64_of_int 2"

lemma f64_two_bits [code]: "f64_two = F64 4611686018427387904"
proof -
  have "round_mag (2 ^ 52 * 2 ^ 1023) 1 = 4611686018427387904"
    by (subst round_mag_pow2) (simp_all add: round_quot_def inf_mag_def)
  moreover have "\<bar>2\<bar> * 2 ^ 1074 = (2 ^ 52 * 2 ^ 1023 :: int)"
    unfolding power_add [symmetric] by simp
  ultimately show ?thesis unfolding f64_two_def f64_of_int_def f64_round_to_def by (simp add: f64_pack_def)
qed

lemma f64_mag_neg [simp]: "f64_mag (- x) = f64_mag x" "f64_sign (- x) = (\<not> f64_sign x)"
  using f64_mag_bounds [of x] by (simp_all add: uminus_f64_def f64_neg_def)

lemma f64_minus_self: "is_finite x \<Longrightarrow> x - x = 0"
proof -
  assume fin: "is_finite x"
  have "f64_mag (f64_neg x) = f64_mag x" "f64_sign (f64_neg x) = (\<not> f64_sign x)"
    using f64_mag_neg [of x] by (simp_all only: uminus_f64_def)
  then have "f64_units x + f64_units (f64_neg x) = 0" by (simp add: f64_units_def)
  moreover have "\<not> is_nan (f64_neg x)" "\<not> is_infinite (f64_neg x)" "\<not> is_nan x" "\<not> is_infinite x"
    using fin \<open>f64_mag (f64_neg x) = f64_mag x\<close> by (simp_all add: is_nan_def is_infinite_def is_finite_def)
  ultimately show ?thesis
    using \<open>f64_sign (f64_neg x) = (\<not> f64_sign x)\<close> by (simp add: minus_f64_def f64_add_def Let_def zero_f64_def)
qed

section \<open>Signs of differences and quotients\<close>

lemma mag_units_mono:
  assumes "0 \<le> m" "m \<le> k"
  shows "mag_units m \<le> mag_units k"
proof (cases "k < 2 ^ 52")
  case True
  with assms show ?thesis by (simp add: mag_units_def)
next
  case big: False
  define e f where "e = k div 2 ^ 52" and "f = k mod 2 ^ 52"
  have e: "1 \<le> e" using big pos_imp_zdiv_pos_iff [of "2 ^ 52" k] by (simp add: e_def)
  have f: "0 \<le> f" by (simp add: f_def)
  have uk: "mag_units k = (2 ^ 52 + f) * 2 ^ (nat e - 1)" using big by (simp add: mag_units_def e_def f_def)
  have low: "2 ^ 52 * 2 ^ (nat e - 1) \<le> mag_units k" using f by (simp add: uk)
  show ?thesis
  proof (cases "m < 2 ^ 52")
    case True
    have "m \<le> 2 ^ 52 * 1" using True by simp
    also have "\<dots> \<le> 2 ^ 52 * 2 ^ (nat e - 1)" by (intro mult_left_mono) simp_all
    finally show ?thesis using True low by (simp add: mag_units_def)
  next
    case False
    define e' f' where "e' = m div 2 ^ 52" and "f' = m mod 2 ^ 52"
    have e': "1 \<le> e'" using False pos_imp_zdiv_pos_iff [of "2 ^ 52" m] by (simp add: e'_def)
    have f': "0 \<le> f'" "f' < 2 ^ 52" by (simp_all add: f'_def)
    have um: "mag_units m = (2 ^ 52 + f') * 2 ^ (nat e' - 1)" using False by (simp add: mag_units_def e'_def f'_def)
    have "e' \<le> e" unfolding e_def e'_def using assms(2) by (rule zdiv_mono1) simp
    then consider "e' = e" | "e' < e" by linarith
    then show ?thesis
    proof cases
      case 1
      have "m = e' * 2 ^ 52 + f'" "k = e * 2 ^ 52 + f" by (simp_all add: e_def e'_def f_def f'_def)
      with 1 assms(2) have "f' \<le> f" by simp
      with 1 show ?thesis by (simp add: uk um)
    next
      case 2
      have "mag_units m \<le> 2 ^ 53 * 2 ^ (nat e' - 1)" using f' unfolding um by (intro mult_right_mono) simp_all
      also have "\<dots> = 2 ^ 52 * 2 ^ Suc (nat e' - 1)" by simp
      also have "\<dots> \<le> 2 ^ 52 * 2 ^ (nat e - 1)"
      proof (intro mult_left_mono power_increasing)
        show "Suc (nat e' - 1) \<le> nat e - 1" using 2 e' by linarith
      qed simp_all
      finally show ?thesis using low by linarith
    qed
  qed
qed

lemma f64_units_less_key: "f64_units x < f64_units y \<Longrightarrow> f64_key x < f64_key y"
proof -
  assume less: "f64_units x < f64_units y"
  have pos: "0 \<le> f64_mag x" "0 \<le> f64_mag y" by (rule f64_mag_bounds)+
  note mono = mag_units_mono [OF pos(1), of "f64_mag y"] mag_units_mono [OF pos(2), of "f64_mag x"]
    mag_units_nonneg [OF pos(1)] mag_units_nonneg [OF pos(2)]
  have z: "mag_units (f64_mag x) = 0 \<longleftrightarrow> f64_mag x = 0" "mag_units (f64_mag y) = 0 \<longleftrightarrow> f64_mag y = 0"
    by (rule mag_units_eq_0 [OF pos(1)] mag_units_eq_0 [OF pos(2)])+
  show ?thesis
    using less pos mono z
    by (cases "f64_sign x"; cases "f64_sign y"; cases "f64_mag x = 0"; cases "f64_mag y = 0"; simp add: f64_units_def f64_key_def; linarith)
qed

lemma round_mag_nonneg: "0 \<le> n \<Longrightarrow> 0 < d \<Longrightarrow> 0 \<le> round_mag n d"
proof -
  assume n: "0 \<le> n" "0 < d"
  then have "0 \<le> round_quot n (d * 2 ^ shift_of (n div d))"
    by (simp add: round_quot_def Let_def pos_imp_zdiv_nonneg_iff)
  then show ?thesis by (simp add: round_mag_def Let_def inf_mag_def)
qed

lemma f64_sign_round [simp]: "0 \<le> n \<Longrightarrow> 0 < d \<Longrightarrow> f64_sign (f64_round_to s n d) = s"
  using round_mag_nonneg [of n d]
  by (simp add: f64_round_to_def f64_sign_pack round_mag_def Let_def inf_mag_def)

lemma f64_less_zero: "x < 0 \<longleftrightarrow> \<not> is_nan x \<and> f64_sign x \<and> f64_mag x \<noteq> 0"
  using f64_mag_bounds(1) [of x] by (auto simp: f64_less_iff f64_key_def)

lemma f64_NAN_facts [simp]: "is_nan f64_NAN" "\<not> f64_sign f64_NAN"
  by (simp_all add: f64_NAN_def is_nan_def inf_mag_def)

lemma f64_minus_neg: "x - y < 0 \<Longrightarrow> x < (y::f64)"
proof -
  assume neg: "x - y < 0"
  let ?y = "f64_neg y"
  have m: "f64_mag ?y = f64_mag y" "f64_sign ?y = (\<not> f64_sign y)"
    using f64_mag_bounds [of y] by (simp_all add: f64_neg_def)
  then have cls: "is_nan ?y = is_nan y" "is_infinite ?y = is_infinite y" "f64_units ?y = - f64_units y"
    by (simp_all add: is_nan_def is_infinite_def f64_units_def)
  have nn: "\<not> is_nan x" "\<not> is_nan y" and sg: "f64_sign (x - y)" "f64_mag (x - y) \<noteq> 0"
    using neg by (auto simp: f64_less_zero minus_f64_def f64_add_def cls)
  have key: "f64_key v = (if f64_sign v then - inf_mag else inf_mag)" if "is_infinite v" for v
    using that by (simp add: f64_key_def is_infinite_def)
  have fin: "\<bar>f64_key v\<bar> < inf_mag" if "is_finite v" for v
    using that f64_mag_bounds(1) [of v] by (simp add: f64_key_def is_finite_def)
  consider "is_infinite x" | "is_finite x" "is_infinite y" | "is_finite x" "is_finite y"
    using nn f64_class by blast
  then have "f64_key x < f64_key y"
  proof cases
    case 1
    then have "f64_sign x" "is_infinite y \<longrightarrow> \<not> f64_sign y"
      using sg nn m cls by (auto simp: minus_f64_def f64_add_def split: if_splits)
    then show ?thesis using 1 key [of x] key [of y] fin [of y] f64_class [of y] nn
      by (auto simp: inf_mag_def)
  next
    case 2
    then have "\<not> f64_sign y" using sg nn m cls by (auto simp: minus_f64_def f64_add_def)
    then show ?thesis using 2 key [of y] fin [of x] by simp
  next
    case 3
    then have "f64_units x - f64_units y < 0"
      using sg nn m cls by (auto simp: minus_f64_def f64_add_def Let_def split: if_splits)
    then show ?thesis by (intro f64_units_less_key) simp
  qed
  with nn show ?thesis by (simp add: f64_less_iff)
qed

lemma f64_div_neg: "a / s < 0 \<Longrightarrow> 0 < s \<Longrightarrow> a < (0::f64)"
proof -
  assume neg: "a / s < 0" and pos: "0 < s"
  have s: "\<not> is_nan s" "\<not> f64_sign s" "f64_mag s \<noteq> 0"
    using pos f64_mag_bounds(1) [of s] by (auto simp: f64_less_iff f64_key_def split: if_splits)
  have us: "0 < \<bar>f64_units s\<bar>" using s(3) by (simp add: f64_units_eq_0)
  have r: "f64_sign (a / s)" "f64_mag (a / s) \<noteq> 0" "\<not> is_nan (a / s)" using neg by (auto simp: f64_less_zero)
  have "f64_sign a \<and> \<not> is_nan a \<and> f64_mag a \<noteq> 0"
  proof (intro conjI)
    show "\<not> is_nan a" using r(3) by (auto simp: divide_f64_def f64_div_def)
    show "f64_sign a" using r(1) s us \<open>\<not> is_nan a\<close>
      by (auto simp: divide_f64_def f64_div_def Let_def f64_INFINITY_def inf_mag_def split: if_splits)
    show "f64_mag a \<noteq> 0"
    proof
      assume z: "f64_mag a = 0"
      then have "round_mag (\<bar>f64_units a\<bar> * 2 ^ 1074) \<bar>f64_units s\<bar> = 0"
        using us by (simp add: f64_units_eq_0 [THEN iffD2] round_mag_def Let_def shift_of_small round_quot_def inf_mag_def)
      with z s r(2) show False
        by (auto simp: divide_f64_def f64_div_def Let_def is_infinite_def f64_round_to_def inf_mag_def is_nan_def split: if_splits)
    qed
  qed
  then show ?thesis by (simp add: f64_less_zero)
qed

section \<open>Sums of non-negative values\<close>

lemma shift_of_upper: "t < 2 ^ 53 * 2 ^ shift_of t"
proof (induction t rule: shift_of.induct)
  case (1 t)
  show ?case
  proof (cases "t < 2 ^ 53")
    case False
    with 1 have "t div 2 < 2 ^ 53 * 2 ^ shift_of (t div 2)" by simp
    then have "t < 2 * (2 ^ 53 * 2 ^ shift_of (t div 2))" by linarith
    also have "\<dots> = 2 ^ 53 * 2 ^ shift_of t" using False by (subst (2) shift_of.simps) simp
    finally show ?thesis .
  qed (simp add: shift_of_small)
qed

lemma shift_of_lower: "0 < shift_of t \<Longrightarrow> 2 ^ 52 * 2 ^ shift_of t \<le> t"
proof (induction t rule: shift_of.induct)
  case (1 t)
  then have big: "\<not> t < 2 ^ 53" by (auto simp: shift_of_small)
  then have s: "shift_of t = Suc (shift_of (t div 2))" by (subst shift_of.simps) simp
  have "2 ^ 52 * 2 ^ shift_of (t div 2) \<le> t div 2"
    using 1(1) big by (cases "shift_of (t div 2)") (simp_all, linarith?)
  then show ?case unfolding s power_Suc by linarith
qed

lemma round_quot_between: "n div d \<le> round_quot n d" "round_quot n d \<le> n div d + 1"
  by (simp_all add: round_quot_def Let_def)

lemma round_quot_mono:
  assumes "n \<le> n'" "0 < d"
  shows "round_quot n d \<le> round_quot n' d"
proof (cases "n div d = n' div d")
  case True
  have "n = d * (n div d) + n mod d" "n' = d * (n div d) + n' mod d" by (simp, simp add: True)
  then have "n mod d \<le> n' mod d" using assms(1) by linarith
  with True show ?thesis by (auto simp: round_quot_def Let_def)
next
  case False
  then have "n div d + 1 \<le> n' div d" using zdiv_mono1 [OF assms] by linarith
  then show ?thesis using round_quot_between [of n d] round_quot_between [of n' d] by linarith
qed

lemma round_mag_mono:
  assumes n: "n \<le> n'" and d: "0 < d"
  shows "round_mag n d \<le> round_mag n' d"
proof -
  define t t' where "t = n div d" and "t' = n' div d"
  have le: "t \<le> t'" unfolding t_def t'_def using assms by (rule zdiv_mono1)
  consider "shift_of t = shift_of t'" | "shift_of t < shift_of t'" | "shift_of t' < shift_of t" by linarith
  then show ?thesis
  proof cases
    case 1
    then show ?thesis using round_quot_mono [OF n, of "d * 2 ^ shift_of t"] d
      by (simp add: round_mag_def Let_def t_def [symmetric] t'_def [symmetric])
  next
    case 2
    have "n div (d * 2 ^ shift_of t) = t div 2 ^ shift_of t" "n' div (d * 2 ^ shift_of t') = t' div 2 ^ shift_of t'"
      unfolding t_def t'_def using d by (simp_all add: zdiv_zmult2_eq)
    moreover have "t div 2 ^ shift_of t < 2 ^ 53"
      using shift_of_upper [of t] by (simp add: not_le [symmetric] int_le_div_iff)
    moreover have "2 ^ 52 \<le> t' div 2 ^ shift_of t'"
      using shift_of_lower [of t'] 2 by (simp add: int_le_div_iff)
    ultimately have "round_quot n (d * 2 ^ shift_of t) \<le> 2 ^ 53" "2 ^ 52 \<le> round_quot n' (d * 2 ^ shift_of t')"
      using round_quot_between [of n "d * 2 ^ shift_of t"] round_quot_between [of n' "d * 2 ^ shift_of t'"] by linarith+
    moreover have "int (shift_of t) + 1 \<le> int (shift_of t')" using 2 by simp
    ultimately show ?thesis by (simp add: round_mag_def Let_def t_def [symmetric] t'_def [symmetric])
  next
    case 3
    have "t' < 2 ^ 53 * 2 ^ shift_of t'" by (rule shift_of_upper)
    also have "\<dots> = 2 ^ 52 * 2 ^ Suc (shift_of t')" by simp
    also have "\<dots> \<le> 2 ^ 52 * 2 ^ shift_of t" using 3 by (intro mult_left_mono power_increasing) simp_all
    also have "\<dots> \<le> t" using 3 by (intro shift_of_lower) simp
    finally show ?thesis using le by simp
  qed
qed

definition f64_pos :: "f64 \<Rightarrow> bool" where
  "f64_pos x \<longleftrightarrow> \<not> is_nan x \<and> \<not> f64_sign x"

lemma f64_pos_zero [simp]: "f64_pos 0"
  by (simp add: f64_pos_def)

lemma f64_pos_key: "f64_pos x \<Longrightarrow> f64_key x = f64_mag x"
  by (simp add: f64_pos_def f64_key_def)

lemma f64_pos_mag: "f64_pos x \<Longrightarrow> f64_mag x \<le> inf_mag"
  by (simp add: f64_pos_def is_nan_def)

lemma f64_pos_units: "f64_pos x \<Longrightarrow> f64_units x = mag_units (f64_mag x)"
  by (simp add: f64_pos_def f64_units_def)

lemma f64_pos_le: "f64_pos x \<Longrightarrow> f64_pos y \<Longrightarrow> x \<le> y \<longleftrightarrow> f64_mag x \<le> f64_mag y"
  by (simp add: f64_le_iff f64_pos_key) (simp add: f64_pos_def)

lemma round_mag_le_inf: "round_mag n d \<le> inf_mag"
  by (simp add: round_mag_def Let_def)

lemma f64_round_pos:
  assumes "0 \<le> n" "0 < d"
  shows "f64_pos (f64_round_to False n d)" "f64_mag (f64_round_to False n d) = round_mag n d"
proof -
  have b: "0 \<le> round_mag n d" "round_mag n d \<le> inf_mag" "round_mag n d < 2 ^ 63"
    using round_mag_nonneg [OF assms] round_mag_le_inf [of n d] by (simp_all add: inf_mag_def)
  then show m: "f64_mag (f64_round_to False n d) = round_mag n d" by (simp add: f64_round_to_def)
  show "f64_pos (f64_round_to False n d)" using b assms m by (simp add: f64_pos_def is_nan_def)
qed

lemma f64_pos_add:
  assumes x: "f64_pos x" and y: "f64_pos y"
  shows "f64_pos (x + y)" "x \<le> x + y"
proof -
  have nn: "\<not> is_nan x" "\<not> is_nan y" "\<not> f64_sign x" "\<not> f64_sign y" using x y by (simp_all add: f64_pos_def)
  have "f64_pos (x + y) \<and> f64_mag x \<le> f64_mag (x + y)"
  proof (cases "is_infinite x \<or> is_infinite y")
    case True
    then show ?thesis using x y nn f64_pos_mag [OF x] by (auto simp: plus_f64_def f64_add_def is_infinite_def)
  next
    case False
    then have fin: "is_finite x" "is_finite y" using nn f64_class by blast+
    let ?u = "f64_units x + f64_units y"
    have u: "f64_units x \<le> ?u" "0 \<le> f64_units x" "0 \<le> ?u"
      using mag_units_nonneg f64_mag_bounds by (simp_all add: f64_pos_units x y)
    have sum: "x + y = (if ?u = 0 then 0 else f64_round_to False ?u 1)"
      using False nn u(3) by (simp add: plus_f64_def f64_add_def Let_def zero_f64_def)
    show ?thesis
    proof (cases "?u = 0")
      case True
      then have "f64_units x = 0" using u by linarith
      then show ?thesis using True by (simp add: sum f64_units_eq_0)
    next
      case nz: False
      have "f64_mag x = round_mag (f64_units x) 1"
        using fin(1) by (simp add: f64_pos_units x is_finite_def round_mag_units f64_mag_bounds)
      also have "\<dots> \<le> round_mag ?u 1" using u(1) by (intro round_mag_mono) simp_all
      finally show ?thesis using nz u(3) by (simp add: sum f64_round_pos)
    qed
  qed
  then show "f64_pos (x + y)" "x \<le> x + y" using x by (simp_all add: f64_pos_le)
qed

lemma f64_pos_max: "f64_pos x \<Longrightarrow> f64_pos y \<Longrightarrow> f64_pos (f64_max x y) \<and> x \<le> f64_max x y \<and> y \<le> f64_max x y"
  by (auto simp: f64_max_def f64_pos_def f64_le_iff f64_less_iff)

lemma f64_zero_add_pos: "f64_pos x \<Longrightarrow> 0 + x = x"
  by (intro f64_eqI) (auto simp: f64_zero_plus f64_pos_def)

text \<open>Products with a small integer.\<close>

lemma f64_of_small_int:
  assumes "0 \<le> k" "k \<le> 2 ^ 52"
  shows "f64_pos (f64_of_int k)" "is_finite (f64_of_int k)"
proof -
  have "f64_mag (f64_of_int k) = round_mag (k * 2 ^ 1074) 1" using assms by (simp add: f64_of_int_def f64_round_pos)
  also have "\<dots> \<le> round_mag (2 ^ 52 * 2 ^ 1074) 1" using assms by (intro round_mag_mono mult_right_mono) simp_all
  also have "\<dots> < inf_mag" by (subst round_mag_pow2) (simp_all add: round_quot_def inf_mag_def)
  finally show "is_finite (f64_of_int k)" by (simp add: is_finite_def)
  show "f64_pos (f64_of_int k)" using assms by (simp add: f64_of_int_def f64_round_pos)
qed

lemma f64_pos_mult:
  assumes "f64_pos x" "f64_pos y" "is_finite x" "is_finite y"
  shows "f64_pos (x * y)"
proof -
  have "\<not> is_infinite x" "\<not> is_infinite y" "\<not> is_nan x" "\<not> is_nan y" using assms(3,4) by simp_all
  then show ?thesis using assms(1,2) by (simp add: times_f64_def f64_mul_def Let_def f64_pos_def [of x] f64_pos_def [of y] f64_round_pos)
qed

end
