(* ===== verification/Network.thy ===== *)
theory Network
  imports F64
begin

text \<open>
  The vocabulary shared by the engine's components: formulations, sensitivity operands and
  parameters, element keys (\<open>src/crates/tellegen/src/api.rs\<close>, \<open>sens/interface.rs\<close>), the
  uid checks of \<open>model/mod.rs\<close>, and the part of a PowerIO \<open>BalancedNetwork\<close> the program
  reads. PowerIO is a third-party crate: its rows are records of the columns that code under
  \<open>src/\<close> reads or writes, plus one opaque value for all the others.
\<close>

section \<open>Formulations, operands, parameters\<close>

datatype Problem = DcPf | DcOpf | AcPf | Socwr | Acopf

datatype Power = Active | Reactive
datatype End = From | To
datatype VoltageKind = Magnitude | Angle | Squared | ProductReal | ProductImag
datatype CostTerm = Quadratic | Linear
datatype GB = Conductance | Susceptance
datatype Bound = Min | Max
datatype TapKind = Ratio | PhaseShift

datatype Operand = Price Power | Dispatch Power | Flow Power End | Voltage VoltageKind

datatype Parameter = Demand Power | Cost CostTerm | LineLimit | SeriesAdmittance GB
  | ShuntAdmittance GB | VoltageBound Bound | GenBound Power Bound | Transformer TapKind
  | Switching | ConstraintLimit

datatype Axis = AxisBus | AxisBranch | AxisGenerator | AxisConstraint

fun operand_axis :: "Operand \<Rightarrow> Axis" where
  "operand_axis (Voltage ProductReal) = AxisBranch"
| "operand_axis (Voltage ProductImag) = AxisBranch"
| "operand_axis (Flow _ _) = AxisBranch"
| "operand_axis (Price _) = AxisBus"
| "operand_axis (Voltage _) = AxisBus"
| "operand_axis (Dispatch _) = AxisGenerator"

fun parameter_axis :: "Parameter \<Rightarrow> Axis" where
  "parameter_axis (Demand _) = AxisBus"
| "parameter_axis (ShuntAdmittance _) = AxisBus"
| "parameter_axis (VoltageBound _) = AxisBus"
| "parameter_axis (Cost _) = AxisGenerator"
| "parameter_axis (GenBound _ _) = AxisGenerator"
| "parameter_axis LineLimit = AxisBranch"
| "parameter_axis (SeriesAdmittance _) = AxisBranch"
| "parameter_axis (Transformer _) = AxisBranch"
| "parameter_axis Switching = AxisBranch"
| "parameter_axis ConstraintLimit = AxisConstraint"

datatype Mode = Forward | Adjoint | Auto

record sens_request =
  sr_operand :: Operand
  sr_parameter :: Parameter
  sr_indices :: "nat list option"
  sr_mode :: Mode

datatype ElementId = BusElement nat | BranchElement nat | GeneratorElement nat | ConstraintElement nat

section \<open>Element keys\<close>

datatype ElementKey = Id int | Uid string

definition show_key :: "ElementKey \<Rightarrow> string" where
  "show_key k = (case k of Id i \<Rightarrow> show_int i | Uid u \<Rightarrow> [CHR 0x22] @ u @ [CHR 0x22])"

fun key_le :: "ElementKey \<Rightarrow> ElementKey \<Rightarrow> bool" where
  "key_le (Id i) (Id j) \<longleftrightarrow> i \<le> j"
| "key_le (Id _) (Uid _) \<longleftrightarrow> True"
| "key_le (Uid _) (Id _) \<longleftrightarrow> False"
| "key_le (Uid u) (Uid v) \<longleftrightarrow> u \<le> v"

instantiation ElementKey :: linorder
begin

definition less_eq_ElementKey :: "ElementKey \<Rightarrow> ElementKey \<Rightarrow> bool" where
  "j \<le> k \<longleftrightarrow> key_le j k"

definition less_ElementKey :: "ElementKey \<Rightarrow> ElementKey \<Rightarrow> bool" where
  "j < k \<longleftrightarrow> key_le j k \<and> \<not> key_le k j"

instance
proof
  fix x y z :: ElementKey
  show "x < y \<longleftrightarrow> x \<le> y \<and> \<not> y \<le> x"
    by (simp add: less_eq_ElementKey_def less_ElementKey_def)
  show "x \<le> x" by (cases x) (simp_all add: less_eq_ElementKey_def)
  show "x \<le> y \<Longrightarrow> y \<le> z \<Longrightarrow> x \<le> z"
    by (cases x; cases y; cases z) (auto simp: less_eq_ElementKey_def intro: order_trans)
  show "x \<le> y \<Longrightarrow> y \<le> x \<Longrightarrow> x = y"
    by (cases x; cases y) (auto simp: less_eq_ElementKey_def)
  show "x \<le> y \<or> y \<le> x"
    by (cases x; cases y) (auto simp: less_eq_ElementKey_def)
qed

end

text \<open>\<open>usize::try_from\<close> on a signed 64-bit id: every non-negative value fits a 64-bit \<open>usize\<close>.\<close>

definition usize_try_from :: "int \<Rightarrow> nat option" where
  "usize_try_from i = (if i < 0 then None else Some (nat i))"

definition checked_sub1 :: "nat \<Rightarrow> nat option" where
  "checked_sub1 n = (if n = 0 then None else Some (n - 1))"

definition is_uid :: "ElementKey \<Rightarrow> bool" where
  "is_uid k = (case k of Id _ \<Rightarrow> False | Uid _ \<Rightarrow> True)"

text \<open>\<open>str::parse::<i64>\<close>: an optional sign and at least one ASCII digit, within 64 signed bits.\<close>

definition is_digit :: "char \<Rightarrow> bool" where
  "is_digit c \<longleftrightarrow> CHR ''0'' \<le> c \<and> c \<le> CHR ''9''"

definition digits_value :: "string \<Rightarrow> int" where
  "digits_value ds = foldl (\<lambda>n c. 10 * n + (of_char c - 48)) 0 ds"

definition strip_sign :: "string \<Rightarrow> string" where
  "strip_sign u = (case u of c # cs \<Rightarrow> if c = CHR ''+'' \<or> c = CHR ''-'' then cs else u | [] \<Rightarrow> u)"

definition parse_i64 :: "string \<Rightarrow> int option" where
  "parse_i64 u =
     (let ds = strip_sign u;
          v = (if u \<noteq> [] \<and> hd u = CHR ''-'' then - digits_value ds else digits_value ds)
      in if ds \<noteq> [] \<and> list_all is_digit ds \<and> - (2 ^ 63) \<le> v \<and> v < 2 ^ 63 then Some v else None)"

text \<open>The three visitor entries of the key's wire form.\<close>

datatype json_scalar = JI64 int | JU64 nat | JStr string

definition key_of_wire :: "json_scalar \<Rightarrow> (string, ElementKey) result" where
  "key_of_wire v =
     (case v of
        JI64 i \<Rightarrow> Inr (Id i)
      | JU64 n \<Rightarrow> if n < 2 ^ 63 then Inr (Id (int n))
                 else Inl (''element id '' @ show_nat n @ '' out of range'')
      | JStr s \<Rightarrow> Inr (case parse_i64 s of Some i \<Rightarrow> Id i | None \<Rightarrow> Uid s))"

section \<open>The network\<close>

datatype BusType = Isolated | Ref | OtherKind nat

record bus =
  bus_id :: nat
  bus_uid :: "string option"
  kind :: BusType
  bus_rest :: string

record load =
  load_bus :: nat
  load_p :: f64
  load_q :: f64
  load_in_service :: bool
  load_rest :: string

record branch =
  br_from :: nat
  br_to :: nat
  br_uid :: "string option"
  br_in_service :: bool
  br_r :: f64
  br_x :: f64
  rate_a :: f64
  br_rest :: string

record generator =
  gen_bus :: nat
  gen_uid :: "string option"
  gen_pmax :: f64
  gen_in_service :: bool
  gen_rest :: string

record transformer3w =
  windings :: "nat list"
  t3_in_service :: bool
  t3_rest :: string

record network =
  buses :: "bus list"
  loads :: "load list"
  branches :: "branch list"
  generators :: "generator list"
  transformers_3w :: "transformer3w list"
  net_base_mva :: f64
  is_normalized :: bool
  net_rest :: string

section \<open>Solve responses\<close>

text \<open>The blocks of a \<open>SolveResponse\<close> that other components read; the rest is opaque.\<close>

record bus_scalar =
  bs_bus :: nat
  bs_uid :: "string option"
  bs_value :: f64

record bus_injection =
  bi_bus :: nat
  bi_uid :: "string option"
  bi_p :: f64
  bi_q :: f64

record branch_scalar =
  brs_branch :: nat
  brs_value :: f64

record branch_flow =
  bf_branch :: nat
  bf_uid :: "string option"
  pf :: f64
  loading :: f64
  qf :: "f64 option"
  pt :: "f64 option"
  qt :: "f64 option"

record gen_dispatch =
  gd_gen :: nat
  gd_bus :: "nat option"
  pg :: f64
  qg :: "f64 option"

record limit_round_report =
  enforced :: nat
  violated :: nat
  added :: nat
  max_loading :: f64
  lim_variables :: nat
  lim_rows :: nat
  ipm_iterations :: nat

record constraint_result =
  cr_id :: string
  cr_value :: f64
  cr_lower :: "f64 option"
  cr_upper :: "f64 option"
  shadow_price :: "f64 option"
  binding :: bool

record solve_diagnostic =
  diag_code :: string
  diag_message :: string
  diag_buses :: "nat list"

record solve_response =
  resp_formulation :: Problem
  resp_objective :: "f64 option"
  lmp :: "bus_scalar list option"
  lmp_q :: "bus_scalar list option"
  vm :: "bus_scalar list option"
  va :: "bus_scalar list option"
  resp_w :: "bus_scalar list option"
  wr :: "branch_scalar list option"
  wi :: "branch_scalar list option"
  injections :: "bus_injection list option"
  flows :: "branch_flow list option"
  dispatch :: "gen_dispatch list option"
  resp_constraints :: "constraint_result list option"
  resp_diagnostics :: "solve_diagnostic list"
  resp_limit_rounds :: "limit_round_report list option"
  resp_rest :: string

section \<open>Identity checks\<close>

definition numeric_uid :: "string \<Rightarrow> bool" where
  "numeric_uid u \<longleftrightarrow> strip_sign u \<noteq> [] \<and> list_all is_digit (strip_sign u)"

fun unique_uids_from :: "string \<Rightarrow> string list \<Rightarrow> (string option \<times> nat option) list \<Rightarrow> (string, unit) result" where
  "unique_uids_from family seen [] = Inr ()"
| "unique_uids_from family seen ((None, own) # rest) = unique_uids_from family seen rest"
| "unique_uids_from family seen ((Some uid, own) # rest) =
     (if numeric_uid uid \<and> \<not> (case own of None \<Rightarrow> False | Some i \<Rightarrow> uid = show_nat i)
      then Inl (family @ '' uid '' @ show_key (Uid uid) @ '' is ambiguous with a numeric element id'')
      else if uid \<in> set seen
      then Inl (''duplicate '' @ family @ '' uid '' @ show_key (Uid uid))
      else unique_uids_from family (uid # seen) rest)"

definition validate_unique_uids :: "string \<Rightarrow> (string option \<times> nat option) list \<Rightarrow> (string, unit) result" where
  "validate_unique_uids family uids = unique_uids_from family [] uids"

definition validate_canonical_identity :: "network \<Rightarrow> (string, unit) result" where
  "validate_canonical_identity net =
     and_then (validate_unique_uids ''bus'' (map (\<lambda>b. (bus_uid b, Some (bus_id b))) (buses net)))
       (\<lambda>_. validate_unique_uids ''branch'' (map (\<lambda>b. (br_uid b, None)) (branches net)))"

definition source_element_id :: "network \<Rightarrow> Axis \<Rightarrow> ElementKey \<Rightarrow> (string, nat) result" where
  "source_element_id net axis key =
     (case key of
        Id i \<Rightarrow> ok_or ''element id must be nonnegative'' (usize_try_from i)
      | Uid uid \<Rightarrow>
          ok_or (''unknown '' @ (case axis of AxisBus \<Rightarrow> ''Bus'' | AxisBranch \<Rightarrow> ''Branch''
                   | AxisGenerator \<Rightarrow> ''Generator'' | AxisConstraint \<Rightarrow> ''Constraint'') @ '' identity '' @ uid)
            (case axis of
               AxisBus \<Rightarrow> map_option bus_id (find (\<lambda>b. bus_uid b = Some uid) (buses net))
             | AxisBranch \<Rightarrow> map_option Suc (position (\<lambda>b. br_uid b = Some uid) (branches net))
             | AxisGenerator \<Rightarrow> map_option Suc (position (\<lambda>g. gen_uid g = Some uid) (generators net))
             | AxisConstraint \<Rightarrow> None))"

section \<open>Facts\<close>

fun present_uids :: "(string option \<times> 'a) list \<Rightarrow> string list" where
  "present_uids [] = []"
| "present_uids ((None, _) # xs) = present_uids xs"
| "present_uids ((Some u, _) # xs) = u # present_uids xs"

lemma unique_uids_from_Inr:
  "unique_uids_from family seen xs = Inr () \<longleftrightarrow>
     distinct (present_uids xs) \<and> set seen \<inter> set (present_uids xs) = {} \<and>
     (\<forall>u own. (Some u, own) \<in> set xs \<longrightarrow> numeric_uid u \<longrightarrow> (\<exists>i. own = Some i \<and> u = show_nat i))"
proof (induction family seen xs rule: unique_uids_from.induct)
  case (2 family seen own rest)
  then show ?case by auto
next
  case (3 family seen uid own rest)
  show ?case
  proof (cases "numeric_uid uid \<and> \<not> (case own of None \<Rightarrow> False | Some i \<Rightarrow> uid = show_nat i)")
    case True
    then show ?thesis by (auto split: option.splits)
  next
    case ok: False
    show ?thesis
    proof (cases "uid \<in> set seen")
      case True
      with ok show ?thesis by auto
    next
      case False
      with 3 ok show ?thesis by (auto split: option.splits)
    qed
  qed
qed simp

lemma validate_unique_uids_Inr:
  "validate_unique_uids family xs = Inr () \<longleftrightarrow>
     distinct (present_uids xs) \<and>
     (\<forall>u own. (Some u, own) \<in> set xs \<longrightarrow> numeric_uid u \<longrightarrow> (\<exists>i. own = Some i \<and> u = show_nat i))"
  by (simp add: validate_unique_uids_def unique_uids_from_Inr)

end
