(* ===== verification/Edits.thy ===== *)
theory Edits
  imports Network
begin

text \<open>
  Operating-point edits, from the wire to the model: the edit log of a Study and its fold into
  delta maps, the difference of two edit states, the materialization of edits on a network
  (\<open>study.rs\<close>), the canonical validation of edit keys, the resolution of keys to dense indices,
  and the aggregation of aliased keys onto the demand and rating vectors (\<open>api.rs\<close>).
\<close>

section \<open>Edits\<close>

datatype NetworkEdit = AddLoad ElementKey f64 | AdjustBranchRating ElementKey f64

fun element_key :: "NetworkEdit \<Rightarrow> ElementKey" where
  "element_key (AddLoad bus _) = bus"
| "element_key (AdjustBranchRating branch _) = branch"

fun magnitude_mw :: "NetworkEdit \<Rightarrow> f64" where
  "magnitude_mw (AddLoad _ p_mw) = p_mw"
| "magnitude_mw (AdjustBranchRating _ delta_mw) = delta_mw"

fun edit_parameter :: "NetworkEdit \<Rightarrow> Parameter" where
  "edit_parameter (AddLoad _ _) = Demand Active"
| "edit_parameter (AdjustBranchRating _ _) = LineLimit"

record edits =
  deltas :: "(ElementKey, f64) hmap"
  rates :: "(ElementKey, f64) hmap"

definition add_to :: "ElementKey \<Rightarrow> f64 \<Rightarrow> (ElementKey, f64) hmap \<Rightarrow> (ElementKey, f64) hmap" where
  "add_to k mw m = hm_modify k 0 (\<lambda>v. v + mw) m"

fun fold_step :: "edits \<Rightarrow> NetworkEdit \<Rightarrow> edits" where
  "fold_step e (AddLoad bus p_mw) = e\<lparr>deltas := add_to bus p_mw (deltas e)\<rparr>"
| "fold_step e (AdjustBranchRating branch delta_mw) = e\<lparr>rates := add_to branch delta_mw (rates e)\<rparr>"

definition fold_edits :: "NetworkEdit list \<Rightarrow> edits" where
  "fold_edits log = foldl fold_step \<lparr>deltas = [], rates = []\<rparr> log"

definition diff_maps :: "(ElementKey, f64) hmap \<Rightarrow> (ElementKey, f64) hmap \<Rightarrow> (ElementKey, f64) btree" where
  "diff_maps current target =
     bt_retain (\<lambda>_ mw. \<not> f64_eq mw 0)
       (fold (\<lambda>(key, mw). bt_modify key 0 (\<lambda>v. v - mw)) current (bt_collect target))"

definition replacement_step :: "NetworkEdit list \<Rightarrow> NetworkEdit list \<Rightarrow> NetworkEdit list" where
  "replacement_step current target =
     (let c = fold_edits current; t = fold_edits target
      in map (\<lambda>(bus, p_mw). AddLoad bus p_mw) (diff_maps (deltas c) (deltas t)) @
         map (\<lambda>(branch, delta_mw). AdjustBranchRating branch delta_mw) (diff_maps (rates c) (rates t)))"

section \<open>Canonical validation\<close>

definition sorted_deltas :: "(ElementKey, f64) hmap \<Rightarrow> (ElementKey \<times> f64) list" where
  "sorted_deltas ds = sort_key fst ds"

definition keyed :: "(ElementKey, f64) hmap \<Rightarrow> bool \<times> bool" where
  "keyed ds = fold (\<lambda>(key, _) (ids, uids). if is_uid key then (ids, True) else (True, uids)) ds (False, False)"

definition bus_lookup :: "bus list \<Rightarrow> (nat \<times> bus) list" where
  "bus_lookup bs = map (\<lambda>b. (bus_id b, b)) bs"

definition uid_lookup :: "('a \<Rightarrow> string option) \<Rightarrow> 'a list \<Rightarrow> (string \<times> 'a) list" where
  "uid_lookup uid xs = List.map_filter (\<lambda>x. map_option (\<lambda>u. (u, x)) (uid x)) xs"

definition check_demand_key ::
  "(nat \<times> bus) list \<Rightarrow> (string \<times> bus) list \<Rightarrow> ElementKey \<times> f64 \<Rightarrow> (string, unit) result" where
  "check_demand_key bus_by_id bus_by_uid = (\<lambda>(bus, mw).
     and_then (err_if (\<not> is_finite mw) (''demand delta for bus '' @ show_key bus @ '' must be finite''))
       (\<lambda>_. and_then
         (case bus of
            Id i \<Rightarrow> if i \<le> 0 then Inl ''demand delta bus must be positive''
                   else Inr (Option.bind (usize_try_from i) (map_of bus_by_id))
          | Uid uid \<Rightarrow> Inr (map_of bus_by_uid uid))
         (\<lambda>target. and_then (ok_or (''unknown demand delta bus '' @ show_key bus) target)
           (\<lambda>t. err_if (kind t = Isolated) (''demand delta bus '' @ show_key bus @ '' is not editable'')))))"

definition endpoint_is_editable :: "(nat \<times> bus) list \<Rightarrow> nat \<Rightarrow> bool" where
  "endpoint_is_editable bus_by_id i =
     (case map_of bus_by_id i of None \<Rightarrow> False | Some b \<Rightarrow> kind b \<noteq> Isolated)"

definition branch_is_editable :: "(nat \<times> bus) list \<Rightarrow> branch \<Rightarrow> bool" where
  "branch_is_editable bus_by_id t \<longleftrightarrow>
     \<not> (\<not> br_in_service t \<or> br_from t = br_to t
        \<or> f64_eq (br_r t * br_r t + br_x t * br_x t) 0
        \<or> \<not> endpoint_is_editable bus_by_id (br_from t)
        \<or> \<not> endpoint_is_editable bus_by_id (br_to t))"

definition nth_opt :: "'a list \<Rightarrow> nat \<Rightarrow> 'a option" where
  "nth_opt xs i = (if i < length xs then Some (xs ! i) else None)"

definition check_rating_key ::
  "branch list \<Rightarrow> (nat \<times> bus) list \<Rightarrow> (string \<times> branch) list \<Rightarrow> ElementKey \<times> f64 \<Rightarrow> (string, unit) result" where
  "check_rating_key brs bus_by_id branch_by_uid = (\<lambda>(branch, mw).
     and_then (err_if (\<not> is_finite mw) (''rating delta for branch '' @ show_key branch @ '' must be finite''))
       (\<lambda>_. and_then
         (case branch of
            Id i \<Rightarrow> if i \<le> 0 then Inl ''rating delta branch must be positive''
                   else Inr (Option.bind (Option.bind (usize_try_from i) checked_sub1) (nth_opt brs))
          | Uid uid \<Rightarrow> Inr (map_of branch_by_uid uid))
         (\<lambda>target. and_then (ok_or (''unknown rating delta branch '' @ show_key branch) target)
           (\<lambda>t. err_if (\<not> branch_is_editable bus_by_id t)
                  (''rating delta branch '' @ show_key branch @ '' is not editable'')))))"

definition validate_canonical_edits :: "network \<Rightarrow> edits \<Rightarrow> (string, unit) result" where
  "validate_canonical_edits net e =
     and_then (validate_canonical_identity net) (\<lambda>_.
       if deltas e = [] \<and> rates e = [] then Inr ()
       else
         let (bus_ids, bus_uids) = keyed (deltas e);
             (_, branch_uids) = keyed (rates e);
             bus_by_id = (if bus_ids \<or> rates e \<noteq> [] then bus_lookup (buses net) else []);
             bus_by_uid = (if bus_uids then uid_lookup bus_uid (buses net) else []);
             branch_by_uid = (if branch_uids then uid_lookup br_uid (branches net) else [])
         in and_then (try_each (check_demand_key bus_by_id bus_by_uid) (sorted_deltas (deltas e)))
              (\<lambda>_. try_each (check_rating_key (branches net) bus_by_id branch_by_uid)
                     (sorted_deltas (rates e))))"

definition validate_network_edits :: "network \<Rightarrow> NetworkEdit list \<Rightarrow> (string, unit) result" where
  "validate_network_edits net es = validate_canonical_edits net (fold_edits es)"

section \<open>Materialization\<close>

definition as_i64 :: "nat \<Rightarrow> int" where
  "as_i64 n = (int n + 2 ^ 63) mod 2 ^ 64 - 2 ^ 63"

definition bus_id_for_key :: "network \<Rightarrow> ElementKey \<Rightarrow> (string, int) result" where
  "bus_id_for_key net key =
     (case key of
        Id i \<Rightarrow> Inr i
      | Uid uid \<Rightarrow>
          ok_or (''demand edit names bus uid '' @ show_key key @ '', which is not in the network'')
            (map_option (\<lambda>b. as_i64 (bus_id b)) (find (\<lambda>b. bus_uid b = Some uid) (buses net))))"

definition branch_id_for_key :: "network \<Rightarrow> ElementKey \<Rightarrow> (string, int) result" where
  "branch_id_for_key net key =
     (case key of
        Id i \<Rightarrow> Inr i
      | Uid uid \<Rightarrow>
          ok_or (''rating edit names branch uid '' @ show_key key @ '', which is not in the network'')
            (map_option (\<lambda>i. as_i64 (i + 1)) (position (\<lambda>b. br_uid b = Some uid) (branches net))))"

definition load_at :: "nat \<Rightarrow> load \<Rightarrow> bool" where
  "load_at i l \<longleftrightarrow> load_in_service l \<and> load_bus l = i"

definition bus_demand :: "network \<Rightarrow> nat \<Rightarrow> f64" where
  "bus_demand net i = f64_sum (map load_p (filter (load_at i) (loads net)))"

definition apply_add_load ::
  "(nat \<Rightarrow> f64 \<Rightarrow> f64 \<Rightarrow> load) \<Rightarrow> network \<Rightarrow> ElementKey \<Rightarrow> f64 \<Rightarrow> (string, network) result" where
  "apply_add_load load_new net bus p_mw =
     and_then (bus_id_for_key net bus) (\<lambda>bus_i.
     and_then (ok_or (''demand edit bus id '' @ show_int bus_i @ '' out of range'') (usize_try_from bus_i)) (\<lambda>i.
     and_then (err_if (\<not> (\<exists>b \<in> set (buses net). bus_id b = i))
        (''demand edit names bus '' @ show_key bus @ '', which is not in the network'')) (\<lambda>_.
     and_then (err_if (bus_demand net i + p_mw < - f64_1e_9)
        (''demand delta for bus '' @ show_key bus @ '' would make demand negative'')) (\<lambda>_.
     Inr (case update_first (load_at i) (\<lambda>l. l\<lparr>load_p := load_p l + p_mw\<rparr>) (loads net) of
            Some ls \<Rightarrow> net\<lparr>loads := ls\<rparr>
          | None \<Rightarrow> net\<lparr>loads := loads net @ [load_new i p_mw 0]\<rparr>)))))"

definition apply_adjust_rating ::
  "network \<Rightarrow> ElementKey \<Rightarrow> f64 \<Rightarrow> (string, network) result" where
  "apply_adjust_rating net branch delta_mw =
     and_then (branch_id_for_key net branch) (\<lambda>pos.
     and_then (ok_or (''rating edit branch '' @ show_key branch @ '' out of range'')
        (Option.bind (usize_try_from pos) checked_sub1)) (\<lambda>row.
     and_then (ok_or (''rating edit names branch '' @ show_key branch @ '', which is not in the network'')
        (nth_opt (branches net) row)) (\<lambda>edited.
     and_then (err_if (rate_a edited \<le> 0)
        (''rating edit on branch '' @ show_key branch @ '' adjusts a limit the source does not state (`rate_a` is unlimited); export cannot represent it'')) (\<lambda>_.
     and_then (err_if (rate_a edited + delta_mw \<le> f64_1e_9)
        (''rating delta for branch '' @ show_key branch @ '' would make the line limit non-positive'')) (\<lambda>_.
     Inr (net\<lparr>branches := (branches net)[row := edited\<lparr>rate_a := rate_a edited + delta_mw\<rparr>]\<rparr>))))))"

fun apply_network_edit ::
  "(nat \<Rightarrow> f64 \<Rightarrow> f64 \<Rightarrow> load) \<Rightarrow> network \<Rightarrow> NetworkEdit \<Rightarrow> (string, network) result" where
  "apply_network_edit load_new net (AddLoad bus p_mw) = apply_add_load load_new net bus p_mw"
| "apply_network_edit load_new net (AdjustBranchRating branch delta_mw) = apply_adjust_rating net branch delta_mw"

definition apply_network_edits ::
  "(nat \<Rightarrow> f64 \<Rightarrow> f64 \<Rightarrow> load) \<Rightarrow> network \<Rightarrow> NetworkEdit list \<Rightarrow> (string, network) result" where
  "apply_network_edits load_new net es = try_fold (apply_network_edit load_new) net es"

section \<open>Dense resolution and aggregation\<close>

record response_axis =
  axis_ids :: "nat list"
  axis_uids :: "string option list"

definition uid_index_map :: "string option list \<Rightarrow> string \<Rightarrow> nat option" where
  "uid_index_map uids u = last_index_map uids (Some u)"

definition key_index :: "nat list \<Rightarrow> string option list \<Rightarrow> bool \<Rightarrow> ElementKey \<Rightarrow> nat option" where
  "key_index ids uids needs_uids key =
     (case key of
        Id i \<Rightarrow> Option.bind (usize_try_from i) (last_index_map ids)
      | Uid u \<Rightarrow> if needs_uids then uid_index_map uids u else None)"

definition key_index_new :: "nat list \<Rightarrow> string option list \<Rightarrow> (ElementKey, f64) hmap \<Rightarrow> ElementKey \<Rightarrow> nat option" where
  "key_index_new ids uids ks = key_index ids uids (\<exists>(k, _) \<in> set ks. is_uid k)"

definition aggregate_step ::
  "string \<Rightarrow> string \<Rightarrow> (ElementKey \<Rightarrow> nat option) \<Rightarrow> (nat, ElementKey \<times> f64) btree \<Rightarrow> ElementKey \<times> f64
     \<Rightarrow> (string, (nat, ElementKey \<times> f64) btree) result" where
  "aggregate_step what elem idx agg = (\<lambda>(key, mw).
     and_then (err_if (case key of Id i \<Rightarrow> i \<le> 0 | Uid _ \<Rightarrow> False)
        (what @ '' delta '' @ elem @ '' must be positive'')) (\<lambda>_.
     and_then (err_if (\<not> is_finite mw)
        (what @ '' delta for '' @ elem @ '' '' @ show_key key @ '' must be finite'')) (\<lambda>_.
     and_then (ok_or (''unknown '' @ what @ '' delta '' @ elem @ '' '' @ show_key key) (idx key)) (\<lambda>dense.
     let entry = (case map_of agg dense of None \<Rightarrow> (key, 0) | Some en \<Rightarrow> en);
         entry' = (fst entry, snd entry + mw)
     in and_then (err_if (\<not> is_finite (snd entry'))
          (''aggregate '' @ what @ '' delta for '' @ elem @ '' '' @ show_key key @ '' must be finite''))
          (\<lambda>_. Inr (bt_insert dense entry' agg))))))"

definition aggregate_deltas ::
  "string \<Rightarrow> string \<Rightarrow> (ElementKey \<Rightarrow> nat option) \<Rightarrow> (ElementKey, f64) hmap
     \<Rightarrow> (string, (nat, ElementKey \<times> f64) btree) result" where
  "aggregate_deltas what elem idx ds = try_fold (aggregate_step what elem idx) [] (sorted_deltas ds)"

definition aggregate_demand_deltas where
  "aggregate_demand_deltas idx ds = aggregate_deltas ''demand'' ''bus'' idx ds"

definition aggregate_rating_deltas where
  "aggregate_rating_deltas idx ds = aggregate_deltas ''rating'' ''branch'' idx ds"

definition apply_demand_vector ::
  "f64 \<Rightarrow> nat list \<Rightarrow> string option list \<Rightarrow> f64 list \<Rightarrow> (ElementKey, f64) hmap \<Rightarrow> (string, f64 list) result" where
  "apply_demand_vector base bus_ids bus_uids demand ds =
     and_then (aggregate_demand_deltas (key_index_new bus_ids bus_uids ds) ds)
       (try_fold (\<lambda>dem (i, (bus, mw)).
          and_then (err_if (dem ! i * base + mw < - f64_1e_9)
             (''demand delta for bus '' @ show_key bus @ '' would make demand negative''))
            (\<lambda>_. Inr (dem[i := dem ! i + mw / base]))) demand)"

definition apply_rating_vector ::
  "f64 \<Rightarrow> nat list \<Rightarrow> string option list \<Rightarrow> f64 list \<Rightarrow> (ElementKey, f64) hmap \<Rightarrow> (string, f64 list) result" where
  "apply_rating_vector base branch_ids branch_uids fmax rs =
     and_then (aggregate_rating_deltas (key_index_new branch_ids branch_uids rs) rs)
       (try_fold (\<lambda>fm (i, (branch, mw)).
          and_then (err_if (fm ! i * base + mw \<le> f64_1e_9)
             (''rating delta for branch '' @ show_key branch @ '' would make the line limit non-positive''))
            (\<lambda>_. Inr (fm[i := fm ! i + mw / base]))) fmax)"

definition response_bus_axis :: "solve_response \<Rightarrow> response_axis" where
  "response_bus_axis resp =
     (case (case lmp resp of Some s \<Rightarrow> Some s | None \<Rightarrow>
             (case vm resp of Some s \<Rightarrow> Some s | None \<Rightarrow>
               (case va resp of Some s \<Rightarrow> Some s | None \<Rightarrow> resp_w resp))) of
        Some s \<Rightarrow> \<lparr>axis_ids = map bs_bus s, axis_uids = map bs_uid s\<rparr>
      | None \<Rightarrow>
          (case injections resp of
             Some ns \<Rightarrow> \<lparr>axis_ids = map bi_bus ns, axis_uids = map bi_uid ns\<rparr>
           | None \<Rightarrow> \<lparr>axis_ids = [], axis_uids = []\<rparr>))"

definition response_branch_axis :: "solve_response \<Rightarrow> response_axis" where
  "response_branch_axis resp =
     (case flows resp of
        Some fl \<Rightarrow> \<lparr>axis_ids = map bf_branch fl, axis_uids = map bf_uid fl\<rparr>
      | None \<Rightarrow> \<lparr>axis_ids = [], axis_uids = []\<rparr>)"

definition dense_step :: "(ElementKey \<Rightarrow> nat option) \<Rightarrow> ElementKey \<times> f64 \<Rightarrow> (nat, f64) btree \<Rightarrow> (nat, f64) btree" where
  "dense_step idx = (\<lambda>(key, mw) acc.
     case idx key of None \<Rightarrow> acc | Some i \<Rightarrow> bt_modify i 0 (\<lambda>v. v + mw) acc)"

definition dense_cols :: "response_axis \<Rightarrow> (ElementKey, f64) hmap \<Rightarrow> nat list \<times> f64 list" where
  "dense_cols axis mag =
     (let acc = fold (dense_step (key_index_new (axis_ids axis) (axis_uids axis) mag)) mag []
      in (map fst acc, map snd acc))"

section \<open>The fold of an edit log\<close>

fun demand_steps :: "ElementKey \<Rightarrow> NetworkEdit list \<Rightarrow> f64 list" where
  "demand_steps k [] = []"
| "demand_steps k (AddLoad b p # es) = (if b = k then p # demand_steps k es else demand_steps k es)"
| "demand_steps k (AdjustBranchRating _ _ # es) = demand_steps k es"

fun rating_steps :: "ElementKey \<Rightarrow> NetworkEdit list \<Rightarrow> f64 list" where
  "rating_steps k [] = []"
| "rating_steps k (AdjustBranchRating b p # es) = (if b = k then p # rating_steps k es else rating_steps k es)"
| "rating_steps k (AddLoad _ _ # es) = rating_steps k es"

definition running_total :: "f64 option \<Rightarrow> f64 list \<Rightarrow> f64 option" where
  "running_total v xs =
     (if xs = [] then v else Some (foldl (+) (case v of None \<Rightarrow> 0 | Some x \<Rightarrow> x) xs))"

lemma foldl_fold_step_deltas:
  "map_of (deltas (foldl fold_step e log)) k = running_total (map_of (deltas e) k) (demand_steps k log)"
proof (induction log arbitrary: e)
  case (Cons x log)
  then show ?case
    by (cases x) (auto simp: add_to_def map_of_hm_modify running_total_def split: option.splits)
qed (simp add: running_total_def)

lemma foldl_fold_step_rates:
  "map_of (rates (foldl fold_step e log)) k = running_total (map_of (rates e) k) (rating_steps k log)"
proof (induction log arbitrary: e)
  case (Cons x log)
  then show ?case
    by (cases x) (auto simp: add_to_def map_of_hm_modify running_total_def split: option.splits)
qed (simp add: running_total_def)

lemma foldl_fold_step_distinct:
  "distinct (map fst (deltas e)) \<Longrightarrow> distinct (map fst (rates e)) \<Longrightarrow>
     distinct (map fst (deltas (foldl fold_step e log))) \<and> distinct (map fst (rates (foldl fold_step e log)))"
proof (induction log arbitrary: e)
  case (Cons x log)
  then show ?case by (cases x) (auto simp: add_to_def hm_modify_distinct)
qed simp

lemma fold_edits_distinct:
  "distinct (map fst (deltas (fold_edits log)))" "distinct (map fst (rates (fold_edits log)))"
  using foldl_fold_step_distinct [of "\<lparr>deltas = [], rates = []\<rparr>" log] by (simp_all add: fold_edits_def)

lemma fold_edits_lookup:
  "map_of (deltas (fold_edits log)) k = running_total None (demand_steps k log)"
  "map_of (rates (fold_edits log)) k = running_total None (rating_steps k log)"
  by (simp_all add: fold_edits_def foldl_fold_step_deltas foldl_fold_step_rates)

lemma fold_edits_key:
  "k \<in> fst ` set (deltas (fold_edits log)) \<longleftrightarrow> (\<exists>p. AddLoad k p \<in> set log)"
  "k \<in> fst ` set (rates (fold_edits log)) \<longleftrightarrow> (\<exists>p. AdjustBranchRating k p \<in> set log)"
proof -
  have steps: "demand_steps k log \<noteq> [] \<longleftrightarrow> (\<exists>p. AddLoad k p \<in> set log)"
    "rating_steps k log \<noteq> [] \<longleftrightarrow> (\<exists>p. AdjustBranchRating k p \<in> set log)"
    by (induction k log rule: demand_steps.induct) auto
  show "k \<in> fst ` set (deltas (fold_edits log)) \<longleftrightarrow> (\<exists>p. AddLoad k p \<in> set log)"
    using fold_edits_lookup(1) [of log k] map_of_eq_None_iff [of "deltas (fold_edits log)" k]
    by (auto simp: running_total_def steps(1) [symmetric] split: if_splits)
  show "k \<in> fst ` set (rates (fold_edits log)) \<longleftrightarrow> (\<exists>p. AdjustBranchRating k p \<in> set log)"
    using fold_edits_lookup(2) [of log k] map_of_eq_None_iff [of "rates (fold_edits log)" k]
    by (auto simp: running_total_def steps(2) [symmetric] split: if_splits)
qed

section \<open>The step between two edit states\<close>

lemma bt_collect_aux:
  "bt_ok m \<Longrightarrow> bt_ok (fold (\<lambda>(k, v). bt_insert k v) xs m) \<and>
     (distinct (map fst xs) \<longrightarrow> map_of (fold (\<lambda>(k, v). bt_insert k v) xs m) j =
        (case map_of xs j of None \<Rightarrow> map_of m j | Some v \<Rightarrow> Some v))"
proof (induction xs arbitrary: m)
  case (Cons x xs)
  obtain k v where x: "x = (k, v)" by (cases x)
  have ok: "bt_ok (bt_insert k v m)" using Cons.prems by (rule bt_ok_insert)
  from Cons.IH [OF ok] show ?case
    by (auto simp: x map_of_bt_insert map_of_eq_None_iff [symmetric] split: option.splits)
qed simp

lemma bt_collect_lookup:
  "distinct (map fst xs) \<Longrightarrow> map_of (bt_collect xs) j = map_of xs j" "bt_ok (bt_collect xs)"
  using bt_collect_aux [of "[]" xs] by (auto simp: bt_collect_def split: option.splits)

lemma diff_fold_lookup:
  "distinct (map fst xs) \<Longrightarrow> bt_ok m \<Longrightarrow>
     bt_ok (fold (\<lambda>(key, mw). bt_modify key 0 (\<lambda>v. v - mw)) xs m) \<and>
     map_of (fold (\<lambda>(key, mw). bt_modify key 0 (\<lambda>v. v - mw)) xs m) k =
       (case map_of xs k of
          None \<Rightarrow> map_of m k
        | Some c \<Rightarrow> Some ((case map_of m k of None \<Rightarrow> 0 | Some t \<Rightarrow> t) - c))"
proof (induction xs arbitrary: m)
  case (Cons x xs)
  obtain j v where x: "x = (j, v)" by (cases x)
  have none: "map_of xs j = None" using Cons.prems(1) by (simp add: x map_of_eq_None_iff)
  have ok: "bt_ok (bt_modify j 0 (\<lambda>w. w - v) m)" using Cons.prems(2) by (rule bt_ok_modify)
  from Cons.IH [OF _ ok] Cons.prems(1) none show ?case
    by (auto simp: x map_of_bt_modify split: option.splits)
qed simp

lemma map_of_filter_distinct:
  "distinct (map fst m) \<Longrightarrow> map_of (filter (\<lambda>(k, v). p k v) m) k =
     (case map_of m k of None \<Rightarrow> None | Some v \<Rightarrow> if p k v then Some v else None)"
proof (induction m)
  case (Cons x m)
  then show ?case
    by (cases x) (auto simp: map_of_eq_None_iff [symmetric] split: option.splits)
qed simp

definition step_value :: "f64 option \<Rightarrow> f64 option \<Rightarrow> f64 option" where
  "step_value c t =
     (case (case c of None \<Rightarrow> t | Some x \<Rightarrow> Some ((case t of None \<Rightarrow> 0 | Some y \<Rightarrow> y) - x)) of
        None \<Rightarrow> None | Some d \<Rightarrow> if f64_eq d 0 then None else Some d)"

lemma diff_maps_lookup:
  assumes "distinct (map fst c)" "distinct (map fst t)"
  shows "bt_ok (diff_maps c t)" "map_of (diff_maps c t) k = step_value (map_of c k) (map_of t k)"
proof -
  let ?f = "fold (\<lambda>(key, mw). bt_modify key 0 (\<lambda>v. v - mw)) c (bt_collect t)"
  have f: "bt_ok ?f" "map_of ?f k = (case map_of c k of None \<Rightarrow> map_of t k
        | Some x \<Rightarrow> Some ((case map_of t k of None \<Rightarrow> 0 | Some y \<Rightarrow> y) - x))"
    using diff_fold_lookup [OF assms(1) bt_collect_lookup(2), of t k]
    by (simp_all add: bt_collect_lookup(1) [OF assms(2)] split: option.splits)
  show "bt_ok (diff_maps c t)" using f(1) by (simp add: diff_maps_def bt_retain_def bt_ok_filter)
  show "map_of (diff_maps c t) k = step_value (map_of c k) (map_of t k)"
    using f(2) by (auto simp: diff_maps_def bt_retain_def map_of_filter_distinct [OF bt_ok_distinct [OF f(1)]]
      step_value_def split: option.splits)
qed

lemma replacement_step_mem:
  "AddLoad k v \<in> set (replacement_step current target) \<longleftrightarrow>
     step_value (running_total None (demand_steps k current)) (running_total None (demand_steps k target)) = Some v"
  "AdjustBranchRating k v \<in> set (replacement_step current target) \<longleftrightarrow>
     step_value (running_total None (rating_steps k current)) (running_total None (rating_steps k target)) = Some v"
proof -
  note d = diff_maps_lookup [OF fold_edits_distinct(1) fold_edits_distinct(1), of current target]
  note r = diff_maps_lookup [OF fold_edits_distinct(2) fold_edits_distinct(2), of current target]
  have "AddLoad k v \<in> set (replacement_step current target) \<longleftrightarrow>
      (k, v) \<in> set (diff_maps (deltas (fold_edits current)) (deltas (fold_edits target)))"
    by (force simp: replacement_step_def Let_def)
  then show "AddLoad k v \<in> set (replacement_step current target) \<longleftrightarrow>
     step_value (running_total None (demand_steps k current)) (running_total None (demand_steps k target)) = Some v"
    by (simp add: bt_ok_map_of_set [OF d(1)] d(2) fold_edits_lookup)
  have "AdjustBranchRating k v \<in> set (replacement_step current target) \<longleftrightarrow>
      (k, v) \<in> set (diff_maps (rates (fold_edits current)) (rates (fold_edits target)))"
    by (force simp: replacement_step_def Let_def)
  then show "AdjustBranchRating k v \<in> set (replacement_step current target) \<longleftrightarrow>
     step_value (running_total None (rating_steps k current)) (running_total None (rating_steps k target)) = Some v"
    by (simp add: bt_ok_map_of_set [OF r(1)] r(2) fold_edits_lookup)
qed

section \<open>Validation by lookup tables and by scan\<close>

text \<open>The reference: every key resolved by scanning the network's rows.\<close>

definition demand_target_scan :: "network \<Rightarrow> ElementKey \<Rightarrow> bus option" where
  "demand_target_scan net key =
     (case key of
        Id i \<Rightarrow> if i < 0 then None else find (\<lambda>b. bus_id b = nat i) (buses net)
      | Uid u \<Rightarrow> find (\<lambda>b. bus_uid b = Some u) (buses net))"

definition rating_target_scan :: "network \<Rightarrow> ElementKey \<Rightarrow> branch option" where
  "rating_target_scan net key =
     (case key of
        Id i \<Rightarrow> if i \<le> 0 then None else nth_opt (branches net) (nat i - 1)
      | Uid u \<Rightarrow> find (\<lambda>b. br_uid b = Some u) (branches net))"

definition bus_editable_scan :: "network \<Rightarrow> nat \<Rightarrow> bool" where
  "bus_editable_scan net i =
     (case find (\<lambda>b. bus_id b = i) (buses net) of None \<Rightarrow> False | Some b \<Rightarrow> kind b \<noteq> Isolated)"

definition branch_editable_scan :: "network \<Rightarrow> branch \<Rightarrow> bool" where
  "branch_editable_scan net t \<longleftrightarrow>
     br_in_service t \<and> br_from t \<noteq> br_to t \<and> \<not> f64_eq (br_r t * br_r t + br_x t * br_x t) 0 \<and>
     bus_editable_scan net (br_from t) \<and> bus_editable_scan net (br_to t)"

definition positive_key :: "ElementKey \<Rightarrow> bool" where
  "positive_key k = (case k of Id i \<Rightarrow> 0 < i | Uid _ \<Rightarrow> True)"

definition demand_edit_ok :: "network \<Rightarrow> ElementKey \<Rightarrow> f64 \<Rightarrow> bool" where
  "demand_edit_ok net k mw \<longleftrightarrow>
     is_finite mw \<and> positive_key k \<and> (\<exists>b. demand_target_scan net k = Some b \<and> kind b \<noteq> Isolated)"

definition rating_edit_ok :: "network \<Rightarrow> ElementKey \<Rightarrow> f64 \<Rightarrow> bool" where
  "rating_edit_ok net k mw \<longleftrightarrow>
     is_finite mw \<and> positive_key k \<and> (\<exists>b. rating_target_scan net k = Some b \<and> branch_editable_scan net b)"

lemma map_of_map_find: "map_of (map (\<lambda>x. (f x, x)) xs) k = find (\<lambda>x. f x = k) xs"
  by (induction xs) auto

lemma bus_lookup_find: "map_of (bus_lookup bs) i = find (\<lambda>b. bus_id b = i) bs"
  by (simp add: bus_lookup_def map_of_map_find)

lemma uid_lookup_find: "map_of (uid_lookup uid xs) u = find (\<lambda>x. uid x = Some u) xs"
  by (induction xs) (auto simp: uid_lookup_def List.map_filter_simps split: option.splits)

lemma keyed_fold:
  "fold (\<lambda>(key, _) (ids, uids). if is_uid key then (ids, True) else (True, uids)) ds (a, b) =
     (a \<or> (\<exists>(k, _) \<in> set ds. \<not> is_uid k), b \<or> (\<exists>(k, _) \<in> set ds. is_uid k))"
  by (induction ds arbitrary: a b) auto

lemma keyed_eq:
  "keyed ds = ((\<exists>(k, _) \<in> set ds. \<not> is_uid k), (\<exists>(k, _) \<in> set ds. is_uid k))"
  by (simp add: keyed_def keyed_fold)

lemma set_sorted_deltas [simp]: "set (sorted_deltas ds) = set ds"
  by (simp add: sorted_deltas_def)

lemma check_demand_key_Inr:
  assumes "is_uid k \<Longrightarrow> by_uid = uid_lookup bus_uid (buses net)"
    and "\<not> is_uid k \<Longrightarrow> by_id = bus_lookup (buses net)"
  shows "check_demand_key by_id by_uid (k, mw) = Inr () \<longleftrightarrow> demand_edit_ok net k mw"
proof (cases k)
  case (Id i)
  with assms(2) show ?thesis
    by (auto simp: check_demand_key_def demand_edit_ok_def demand_target_scan_def positive_key_def is_uid_def
        bus_lookup_find usize_try_from_def result_simps split: if_splits)
next
  case (Uid u)
  with assms(1) show ?thesis
    by (auto simp: check_demand_key_def demand_edit_ok_def demand_target_scan_def positive_key_def is_uid_def
        uid_lookup_find result_simps)
qed

lemma endpoint_is_editable_scan:
  "endpoint_is_editable (bus_lookup (buses net)) i = bus_editable_scan net i"
  by (simp add: endpoint_is_editable_def bus_editable_scan_def bus_lookup_find)

lemma check_rating_key_Inr:
  assumes "is_uid k \<Longrightarrow> by_uid = uid_lookup br_uid (branches net)"
    and "by_id = bus_lookup (buses net)"
  shows "check_rating_key (branches net) by_id by_uid (k, mw) = Inr () \<longleftrightarrow> rating_edit_ok net k mw"
proof -
  have ed: "branch_is_editable by_id t = branch_editable_scan net t" for t
    by (auto simp: branch_is_editable_def branch_editable_scan_def assms(2) endpoint_is_editable_scan)
  show ?thesis
  proof (cases k)
    case (Id i)
    then show ?thesis
      by (auto simp: check_rating_key_def rating_edit_ok_def rating_target_scan_def positive_key_def ed
          usize_try_from_def checked_sub1_def result_simps split: if_splits)
  next
    case (Uid u)
    with assms(1) show ?thesis
      by (auto simp: check_rating_key_def rating_edit_ok_def rating_target_scan_def positive_key_def ed is_uid_def
          uid_lookup_find result_simps)
  qed
qed

lemma validate_canonical_edits_Inr:
  "validate_canonical_edits net e = Inr () \<longleftrightarrow>
     validate_canonical_identity net = Inr () \<and>
     (\<forall>(k, mw) \<in> set (deltas e). demand_edit_ok net k mw) \<and>
     (\<forall>(k, mw) \<in> set (rates e). rating_edit_ok net k mw)"
proof (cases "deltas e = [] \<and> rates e = []")
  case True
  then show ?thesis by (auto simp: validate_canonical_edits_def result_simps)
next
  case False
  define by_id where "by_id =
    (if fst (keyed (deltas e)) \<or> rates e \<noteq> [] then bus_lookup (buses net) else [])"
  define by_uid where "by_uid = (if snd (keyed (deltas e)) then uid_lookup bus_uid (buses net) else [])"
  define br_by_uid where "br_by_uid = (if snd (keyed (rates e)) then uid_lookup br_uid (branches net) else [])"
  have d: "check_demand_key by_id by_uid (k, mw) = Inr () \<longleftrightarrow> demand_edit_ok net k mw"
    if "(k, mw) \<in> set (deltas e)" for k mw
    using that by (intro check_demand_key_Inr) (auto simp: by_id_def by_uid_def keyed_eq)
  have r: "check_rating_key (branches net) by_id br_by_uid (k, mw) = Inr () \<longleftrightarrow> rating_edit_ok net k mw"
    if "(k, mw) \<in> set (rates e)" for k mw
    using that by (intro check_rating_key_Inr) (auto simp: by_id_def br_by_uid_def keyed_eq)
  have "validate_canonical_edits net e =
    and_then (validate_canonical_identity net) (\<lambda>_.
      and_then (try_each (check_demand_key by_id by_uid) (sorted_deltas (deltas e)))
        (\<lambda>_. try_each (check_rating_key (branches net) by_id br_by_uid) (sorted_deltas (rates e))))"
    by (simp only: validate_canonical_edits_def if_not_P [OF False] by_id_def by_uid_def br_by_uid_def
        case_prod_beta Let_def)
  then show ?thesis by (auto simp: result_simps d r)
qed

section \<open>Materialized edits\<close>

lemma apply_add_load_Inr:
  assumes "apply_add_load load_new net bus p = Inr net'"
  obtains bus_i i where "bus_id_for_key net bus = Inr bus_i" "usize_try_from bus_i = Some i"
    "\<exists>b \<in> set (buses net). bus_id b = i" "\<not> bus_demand net i + p < - f64_1e_9"
    "net' = net\<lparr>loads := (case position (load_at i) (loads net) of
        Some j \<Rightarrow> (loads net)[j := (loads net ! j)\<lparr>load_p := load_p (loads net ! j) + p\<rparr>]
      | None \<Rightarrow> loads net @ [load_new i p 0])\<rparr>"
proof -
  have pos: "update_first q f xs = (case position q xs of None \<Rightarrow> None | Some j \<Rightarrow> Some (xs[j := f (xs ! j)]))"
    for q f and xs :: "load list"
    by (induction xs) (auto split: option.splits)
  from assms obtain bus_i i where "bus_id_for_key net bus = Inr bus_i" "usize_try_from bus_i = Some i"
    "\<exists>b \<in> set (buses net). bus_id b = i" "\<not> bus_demand net i + p < - f64_1e_9"
    "net' = (case update_first (load_at i) (\<lambda>l. l\<lparr>load_p := load_p l + p\<rparr>) (loads net) of
            Some ls \<Rightarrow> net\<lparr>loads := ls\<rparr>
          | None \<Rightarrow> net\<lparr>loads := loads net @ [load_new i p 0]\<rparr>)"
    by (auto simp only: apply_add_load_def result_simps not_not)
  then show ?thesis by (cases "position (load_at i) (loads net)") (auto intro!: that simp: pos)
qed

lemma apply_adjust_rating_Inr:
  assumes "apply_adjust_rating net branch d = Inr net'"
  obtains row where "row < length (branches net)" "\<not> rate_a (branches net ! row) \<le> 0"
    "\<not> rate_a (branches net ! row) + d \<le> f64_1e_9"
    "net' = net\<lparr>branches := (branches net)[row := (branches net ! row)
        \<lparr>rate_a := rate_a (branches net ! row) + d\<rparr>]\<rparr>"
  using assms by (auto simp: apply_adjust_rating_def result_simps nth_opt_def split: if_splits intro: that)

text \<open>What one edit, and so a batch, leaves alone: only loads and ratings move.\<close>

definition same_but_edits :: "network \<Rightarrow> network \<Rightarrow> bool" where
  "same_but_edits net net' \<longleftrightarrow>
     net'\<lparr>loads := [], branches := []\<rparr> = net\<lparr>loads := [], branches := []\<rparr> \<and>
     length (loads net) \<le> length (loads net') \<and>
     (\<forall>j < length (loads net). (loads net' ! j)\<lparr>load_p := 0\<rparr> = (loads net ! j)\<lparr>load_p := 0\<rparr>) \<and>
     length (branches net') = length (branches net) \<and>
     (\<forall>j < length (branches net).
        (branches net' ! j)\<lparr>rate_a := 0\<rparr> = (branches net ! j)\<lparr>rate_a := 0\<rparr> \<and>
        (branches net' ! j = branches net ! j \<or> \<not> rate_a (branches net' ! j) \<le> f64_1e_9))"

lemma same_but_edits_refl: "same_but_edits net net"
  by (simp add: same_but_edits_def)

lemma same_but_edits_trans: "same_but_edits a b \<Longrightarrow> same_but_edits b c \<Longrightarrow> same_but_edits a c"
  unfolding same_but_edits_def by (intro conjI allI impI) (auto, metis)

lemma apply_network_edit_same:
  assumes "apply_network_edit load_new net e = Inr net'"
  shows "same_but_edits net net'"
proof (cases e)
  case (AddLoad bus p)
  with assms have "apply_add_load load_new net bus p = Inr net'" by simp
  then obtain i where "net' = net\<lparr>loads := (case position (load_at i) (loads net) of
        Some j \<Rightarrow> (loads net)[j := (loads net ! j)\<lparr>load_p := load_p (loads net ! j) + p\<rparr>]
      | None \<Rightarrow> loads net @ [load_new i p 0])\<rparr>" by (rule apply_add_load_Inr)
  then show ?thesis
    by (auto simp: same_but_edits_def nth_append nth_list_update
        dest!: position_Some_iff [THEN iffD1] split: option.splits)
next
  case (AdjustBranchRating branch d)
  with assms have "apply_adjust_rating net branch d = Inr net'" by simp
  then show ?thesis
    by (rule apply_adjust_rating_Inr) (auto simp: same_but_edits_def nth_list_update)
qed

lemma apply_network_edits_same:
  assumes "apply_network_edits load_new net es = Inr net'"
  shows "same_but_edits net net'"
  using assms unfolding apply_network_edits_def
  by (rule try_fold_invariant [where I = "same_but_edits net"])
    (auto intro: same_but_edits_refl same_but_edits_trans apply_network_edit_same)

lemma apply_network_edits_append:
  "apply_network_edits load_new net (xs @ ys) =
     and_then (apply_network_edits load_new net xs) (\<lambda>n. apply_network_edits load_new n ys)"
  by (simp add: apply_network_edits_def try_fold_append)

section \<open>Dense indices\<close>

lemma key_index_Id: "key_index ids uids u (Id i) = Some d \<Longrightarrow> d < length ids \<and> 0 \<le> i \<and> ids ! d = nat i"
  by (auto simp: key_index_def usize_try_from_def dest: last_index_map_bound split: if_splits bind_splits)

lemma key_index_Uid: "key_index ids uids u (Uid s) = Some d \<Longrightarrow> d < length uids \<and> uids ! d = Some s"
  by (auto simp: key_index_def uid_index_map_def dest: last_index_map_bound split: if_splits)

lemma key_index_bound:
  "length uids = length ids \<Longrightarrow> key_index ids uids u k = Some d \<Longrightarrow> d < length ids"
  by (cases k) (auto dest: key_index_Id key_index_Uid)

text \<open>Two keys that name one dense element are its id form and its uid form.\<close>

lemma key_index_aliases:
  assumes "key_index ids uids u k = Some d"
  shows "k \<in> {Id (int (ids ! d)), Uid (the (uids ! d))}"
  using assms by (cases k) (auto dest!: key_index_Id key_index_Uid)

definition steps_at :: "(ElementKey \<Rightarrow> nat option) \<Rightarrow> nat \<Rightarrow> (ElementKey, f64) hmap \<Rightarrow> f64 list" where
  "steps_at idx d mag = map snd (filter (\<lambda>(k, _). idx k = Some d) mag)"

lemma dense_fold:
  "bt_ok acc \<Longrightarrow> bt_ok (fold (dense_step idx) mag acc) \<and>
     map_of (fold (dense_step idx) mag acc) d = running_total (map_of acc d) (steps_at idx d mag)"
proof (induction mag arbitrary: acc)
  case (Cons x mag)
  obtain k mw where x: "x = (k, mw)" by (cases x)
  show ?case
  proof (cases "idx k")
    case None
    with Cons show ?thesis by (simp add: x dense_step_def steps_at_def)
  next
    case (Some i)
    let ?acc = "bt_modify i 0 (\<lambda>v. v + mw) acc"
    have "bt_ok ?acc" using Cons.prems by (rule bt_ok_modify)
    with Cons.IH [of ?acc] Some show ?thesis
      by (auto simp: x dense_step_def steps_at_def map_of_bt_modify running_total_def split: option.splits)
  qed
qed (simp add: running_total_def steps_at_def)

lemma steps_at_short:
  assumes "distinct (map fst mag)" "idx = key_index ids uids u"
  shows "length (steps_at idx d mag) \<le> 2"
proof -
  let ?f = "filter (\<lambda>(k, _). idx k = Some d) mag"
  have "set (map fst ?f) \<subseteq> {Id (int (ids ! d)), Uid (the (uids ! d))}"
    using assms(2) key_index_aliases by fastforce
  then have "card (set (map fst ?f)) \<le> card {Id (int (ids ! d)), Uid (the (uids ! d))}"
    by (intro card_mono) simp_all
  moreover have "distinct (map fst ?f)" using assms(1) by (simp add: distinct_map_filter)
  then have "card (set (map fst ?f)) = length ?f" by (metis distinct_card length_map)
  ultimately show ?thesis by (simp add: steps_at_def)
qed

lemma running_total_perm:
  assumes "length xs \<le> 2" "mset xs = mset ys"
  shows "running_total None xs = running_total None ys"
proof -
  consider "xs = []" | a where "xs = [a]" | a b where "xs = [a, b]"
    using assms(1) by (auto simp: numeral_2_eq_2 le_Suc_eq length_Suc_conv)
  then show ?thesis
  proof cases
    case (3 a b)
    have "length ys = 2" using mset_eq_length [OF assms(2)] 3 by simp
    then obtain c d where "ys = [c, d]" by (auto simp: numeral_2_eq_2 length_Suc_conv)
    then have "ys = [a, b] \<or> ys = [b, a]"
      using assms(2) 3 by (auto simp: add_eq_conv_ex)
    then show ?thesis using 3 by (auto simp: running_total_def f64_plus_zero_left_comm)
  qed (use assms(2) in auto)
qed

lemma dense_cols_perm:
  assumes "distinct (map fst mag)" "mset mag = mset mag'"
  shows "dense_cols axis mag = dense_cols axis mag'"
proof -
  let ?k = "key_index_new (axis_ids axis) (axis_uids axis)"
  have idx: "?k mag = ?k mag'"
    using mset_eq_setD [OF assms(2)] by (simp add: key_index_new_def)
  let ?r = "\<lambda>m. fold (dense_step (?k mag)) m []"
  have "map_of (?r mag) d = map_of (?r mag') d" for d
  proof -
    have "mset (steps_at (?k mag) d mag) = mset (steps_at (?k mag) d mag')"
      using assms(2) by (simp add: steps_at_def mset_map mset_filter)
    moreover have "length (steps_at (?k mag) d mag) \<le> 2"
      using assms(1) by (rule steps_at_short) (simp add: key_index_new_def)
    ultimately show ?thesis using dense_fold [of "[]"] by (simp add: running_total_perm)
  qed
  then have "?r mag = ?r mag'"
    using dense_fold [of "[]"] by (intro bt_ok_extensional) (auto simp: fun_eq_iff)
  then show ?thesis by (simp add: dense_cols_def idx)
qed

section \<open>Aggregation\<close>

lemma aggregate_step_Inr:
  "aggregate_step what elem idx agg (k, mw) = Inr agg' \<longleftrightarrow>
     positive_key k \<and> is_finite mw \<and>
     (\<exists>d. idx k = Some d \<and>
        is_finite ((case map_of agg d of None \<Rightarrow> 0 | Some en \<Rightarrow> snd en) + mw) \<and>
        agg' = bt_insert d (case map_of agg d of None \<Rightarrow> (k, 0 + mw) | Some en \<Rightarrow> (fst en, snd en + mw)) agg)"
  by (cases k) (auto simp: aggregate_step_def positive_key_def Let_def result_simps split: option.splits)

lemma aggregate_fold:
  assumes "try_fold (aggregate_step what elem idx) agg ds = Inr agg'" "bt_ok agg"
  shows "bt_ok agg' \<and> map_option snd (map_of agg' d) = running_total (map_option snd (map_of agg d)) (steps_at idx d ds)"
  using assms
proof (induction ds arbitrary: agg)
  case (Cons x ds)
  obtain k mw where x: "x = (k, mw)" by (cases x)
  from Cons.prems(1) obtain m where m: "aggregate_step what elem idx agg (k, mw) = Inr m"
    "try_fold (aggregate_step what elem idx) m ds = Inr agg'"
    by (auto simp: x and_then_Inr)
  then obtain i where i: "idx k = Some i"
    "m = bt_insert i (case map_of agg i of None \<Rightarrow> (k, 0 + mw) | Some en \<Rightarrow> (fst en, snd en + mw)) agg"
    by (auto simp: aggregate_step_Inr)
  have "bt_ok m" using Cons.prems(2) by (simp add: i(2) bt_ok_insert)
  from Cons.IH [OF m(2) this] show ?case
    by (auto simp: x i map_of_bt_insert steps_at_def running_total_def split: option.splits)
qed (simp add: running_total_def steps_at_def)

lemma aggregate_fold_finite:
  assumes "try_fold (aggregate_step what elem idx) agg ds = Inr agg'"
    and "\<forall>(d, (k, v)) \<in> set agg. is_finite v \<and> d \<in> ran idx"
  shows "\<forall>(d, (k, v)) \<in> set agg'. is_finite v \<and> d \<in> ran idx"
proof (rule try_fold_invariant [where I = "\<lambda>a. \<forall>(d, (k, v)) \<in> set a. is_finite v \<and> d \<in> ran idx", OF assms])
  fix agg x agg'
  assume inv: "\<forall>(d, k, v) \<in> set agg. is_finite v \<and> d \<in> ran idx"
    and step: "aggregate_step what elem idx agg x = Inr agg'"
  obtain k mw where x: "x = (k, mw)" by (cases x)
  have ins: "y \<in> set (bt_insert a b m) \<Longrightarrow> y = (a, b) \<or> y \<in> set m" for y a b and m :: "(nat, ElementKey \<times> f64) btree"
    by (induction a b m rule: bt_insert.induct) (auto split: if_splits)
  from step show "\<forall>(d, k, v) \<in> set agg'. is_finite v \<and> d \<in> ran idx"
    using inv by (auto simp: x aggregate_step_Inr ran_def dest!: ins split: option.splits)
qed

lemma steps_at_perm: "mset ds = mset ds' \<Longrightarrow> mset (steps_at idx d ds) = mset (steps_at idx d ds')"
  by (simp add: steps_at_def mset_map mset_filter)

text \<open>The loop that moves a per-unit vector by aggregated deltas, one entry per dense index.\<close>

lemma vector_fold:
  assumes "try_fold (\<lambda>v (i, (b, mw)). and_then (err_if (bad (v ! i) mw) (msg b)) (\<lambda>_. Inr (v[i := upd (v ! i) mw]))) v agg = Inr v'"
    and "distinct (map fst agg)" and "\<forall>(i, e) \<in> set agg. i < length v"
  shows "length v' = length v \<and> (\<forall>i < length v. case map_of agg i of
       None \<Rightarrow> v' ! i = v ! i
     | Some (b, mw) \<Rightarrow> \<not> bad (v ! i) mw \<and> v' ! i = upd (v ! i) mw)"
  using assms
proof (induction agg arbitrary: v)
  case (Cons x agg)
  obtain j b mw where x: "x = (j, (b, mw))" by (metis surj_pair)
  let ?v = "v[j := upd (v ! j) mw]"
  have ok: "\<not> bad (v ! j) mw" and rest: "try_fold (\<lambda>v (i, (b, mw)). and_then (err_if (bad (v ! i) mw) (msg b))
      (\<lambda>_. Inr (v[i := upd (v ! i) mw]))) ?v agg = Inr v'"
    using Cons.prems(1) by (auto simp: x result_simps)
  have j: "j < length v" "map_of agg j = None"
    using Cons.prems(2,3) by (auto simp: x map_of_eq_None_iff)
  have "length v' = length ?v \<and> (\<forall>i < length ?v. case map_of agg i of
       None \<Rightarrow> v' ! i = ?v ! i
     | Some (b, mw) \<Rightarrow> \<not> bad (?v ! i) mw \<and> v' ! i = upd (?v ! i) mw)"
    using Cons.prems(2,3) by (intro Cons.IH [OF rest]) (auto simp: x)
  then have IH: "length v' = length v" and
    each: "i < length v \<Longrightarrow> case map_of agg i of
       None \<Rightarrow> v' ! i = ?v ! i
     | Some (b, mw) \<Rightarrow> \<not> bad (?v ! i) mw \<and> v' ! i = upd (?v ! i) mw" for i
    by simp_all
  show ?case
  proof (intro conjI allI impI)
    fix i assume i: "i < length v"
    show "case map_of (x # agg) i of None \<Rightarrow> v' ! i = v ! i
      | Some (b, mw) \<Rightarrow> \<not> bad (v ! i) mw \<and> v' ! i = upd (v ! i) mw"
      using each [OF i] ok j by (cases "j = i") (auto simp: x split: option.splits)
  qed (rule IH)
qed simp

lemma aggregate_deltas_facts:
  assumes "aggregate_deltas what elem (key_index_new ids uids ds) ds = Inr agg" "length uids = length ids"
  shows "bt_ok agg" "\<forall>(d, (k, v)) \<in> set agg. is_finite v \<and> d < length ids"
    "map_option snd (map_of agg d) = running_total None (steps_at (key_index_new ids uids ds) d (sorted_deltas ds))"
proof -
  let ?i = "key_index_new ids uids ds"
  have f: "try_fold (aggregate_step what elem ?i) [] (sorted_deltas ds) = Inr agg"
    using assms(1) by (simp add: aggregate_deltas_def)
  show "bt_ok agg" "map_option snd (map_of agg d) = running_total None (steps_at ?i d (sorted_deltas ds))"
    using aggregate_fold [OF f] by simp_all
  have "\<forall>(d, (k, v)) \<in> set agg. is_finite v \<and> d \<in> ran ?i"
    using aggregate_fold_finite [OF f] by simp
  moreover have "d \<in> ran ?i \<Longrightarrow> d < length ids" for d
    using assms(2) by (auto simp: ran_def key_index_new_def intro: key_index_bound)
  ultimately show "\<forall>(d, (k, v)) \<in> set agg. is_finite v \<and> d < length ids" by fast
qed

lemma aggregate_total_finite:
  assumes "aggregate_deltas what elem (key_index_new ids uids ds) ds = Inr agg" "length uids = length ids"
    and "map_of agg i = Some (k, mw)"
  shows "is_finite mw \<and> running_total None (steps_at (key_index_new ids uids ds) i (sorted_deltas ds)) = Some mw"
proof
  show "is_finite mw"
    using aggregate_deltas_facts(2) [OF assms(1,2)] map_of_SomeD [OF assms(3)] by fast
  show "running_total None (steps_at (key_index_new ids uids ds) i (sorted_deltas ds)) = Some mw"
    using aggregate_deltas_facts(3) [OF assms(1,2), of i] assms(3) by simp
qed

lemma vector_apply:
  assumes agg: "aggregate_deltas what elem (key_index_new ids uids ds) ds = Inr agg"
    and "length uids = length ids" "length v = length ids"
    and fold: "try_fold (\<lambda>v (i, (b, mw)). and_then (err_if (bad (v ! i) mw) (msg b))
       (\<lambda>_. Inr (v[i := upd (v ! i) mw]))) v agg = Inr v'"
  shows "length v' = length v \<and> (\<forall>i < length v.
     case running_total None (steps_at (key_index_new ids uids ds) i (sorted_deltas ds)) of
       None \<Rightarrow> v' ! i = v ! i
     | Some mw \<Rightarrow> is_finite mw \<and> \<not> bad (v ! i) mw \<and> v' ! i = upd (v ! i) mw)"
proof -
  note facts = aggregate_deltas_facts [OF agg assms(2)]
  have all: "length v' = length v \<and> (\<forall>i < length v. case map_of agg i of
       None \<Rightarrow> v' ! i = v ! i | Some (b, mw) \<Rightarrow> \<not> bad (v ! i) mw \<and> v' ! i = upd (v ! i) mw)"
    using facts(1,2) assms(3) by (intro vector_fold [OF fold] bt_ok_distinct) auto
  show ?thesis
  proof (intro conjI allI impI)
    fix i assume i: "i < length v"
    show "case running_total None (steps_at (key_index_new ids uids ds) i (sorted_deltas ds)) of
       None \<Rightarrow> v' ! i = v ! i
     | Some mw \<Rightarrow> is_finite mw \<and> \<not> bad (v ! i) mw \<and> v' ! i = upd (v ! i) mw"
    proof (cases "map_of agg i")
      case None
      with all i facts(3) [of i, symmetric] show ?thesis by (auto split: option.splits)
    next
      case (Some e)
      obtain b mw where e: "map_of agg i = Some (b, mw)" using Some by (cases e) simp
      from all i e have "\<not> bad (v ! i) mw \<and> v' ! i = upd (v ! i) mw" by auto
      with aggregate_total_finite [OF agg assms(2) e] show ?thesis by simp
    qed
  qed (use all in simp)
qed

section \<open>Properties\<close>

text \<open>The fold of an edit log adds, per key and in log order starting from zero, exactly the
  steps the log states for that key and kind of edit; keys the log never names have no entry, and
  no key has two.\<close>

theorem fold_edits_accumulates:
  "map_of (deltas (fold_edits log)) k =
     (if demand_steps k log = [] then None else Some (foldl (+) 0 (demand_steps k log))) \<and>
   map_of (rates (fold_edits log)) k =
     (if rating_steps k log = [] then None else Some (foldl (+) 0 (rating_steps k log))) \<and>
   distinct (map fst (deltas (fold_edits log))) \<and> distinct (map fst (rates (fold_edits log)))"
  by (simp add: fold_edits_lookup running_total_def fold_edits_distinct)

text \<open>the step from one edit state to another holds, for every bus and branch key, exactly the
  difference of the two accumulated values where it is not zero, and nothing else: an absent target
  counts as zero, an absent current value leaves the target value as it is.\<close>

theorem replacement_step_is_difference:
  "(AddLoad k v \<in> set (replacement_step current target) \<longleftrightarrow>
      step_value (map_of (deltas (fold_edits current)) k) (map_of (deltas (fold_edits target)) k) = Some v) \<and>
   (AdjustBranchRating k v \<in> set (replacement_step current target) \<longleftrightarrow>
      step_value (map_of (rates (fold_edits current)) k) (map_of (rates (fold_edits target)) k) = Some v)"
  by (simp add: replacement_step_mem fold_edits_lookup)

text \<open>C18: the table-driven validation of edit keys accepts exactly the edit sets that a scan of the
  network's rows accepts: canonical identities, finite magnitudes, positive numeric keys, existing
  targets, no isolated bus, and only in-service branches with distinct editable ends and a nonzero
  impedance.\<close>

theorem validate_canonical_edits_scan:
  "validate_canonical_edits net e = Inr () \<longleftrightarrow>
     validate_canonical_identity net = Inr () \<and>
     (\<forall>k mw. (k, mw) \<in> set (deltas e) \<longrightarrow> demand_edit_ok net k mw) \<and>
     (\<forall>k mw. (k, mw) \<in> set (rates e) \<longrightarrow> rating_edit_ok net k mw)"
  by (auto simp: validate_canonical_edits_Inr)

definition witness_bus :: bus where
  "witness_bus = \<lparr>bus_id = 1, bus_uid = Some ''buses:0'', kind = Ref, bus_rest = []\<rparr>"

definition witness_net :: network where
  "witness_net = \<lparr>buses = [witness_bus], loads = [], branches = [], generators = [], transformers_3w = [],
     net_base_mva = 1, is_normalized = False, net_rest = []\<rparr>"

definition witness_load :: "nat \<Rightarrow> f64 \<Rightarrow> f64 \<Rightarrow> load" where
  "witness_load i p q = \<lparr>load_bus = i, load_p = p, load_q = q, load_in_service = True, load_rest = []\<rparr>"

lemma is_ok_obtain: "is_ok r \<Longrightarrow> \<exists>x. r = Inr x"
  by (auto simp: is_ok_def split: sum.splits)

theorem validate_canonical_edits_scan_witness:
  "validate_canonical_edits witness_net \<lparr>deltas = [(Id 1, 1)], rates = []\<rparr> = Inr () \<and>
   demand_edit_ok witness_net (Id 1) 1"
proof -
  have "validate_canonical_edits witness_net \<lparr>deltas = [(Id 1, 1)], rates = []\<rparr> = Inr ()" by code_simp
  then show ?thesis
    using validate_canonical_edits_scan [of witness_net "\<lparr>deltas = [(Id 1, 1)], rates = []\<rparr>"] by simp
qed

text \<open>C27: materializing a batch of edits on a network changes nothing but load powers and branch
  ratings: rows keep their order and every other column, loads are only appended, and a branch
  whose rating moved never ends at or below the \<open>1e-9\<close> floor.\<close>

theorem apply_network_edits_frame:
  assumes "apply_network_edits load_new net es = Inr net'"
  shows "same_but_edits net net'"
  using assms by (rule apply_network_edits_same)

theorem apply_network_edits_frame_witness:
  "\<exists>net'. apply_network_edits witness_load witness_net [AddLoad (Id 1) 1] = Inr net' \<and>
     same_but_edits witness_net net'"
proof -
  have "is_ok (apply_network_edits witness_load witness_net [AddLoad (Id 1) 1])" by code_simp
  then obtain net' where "apply_network_edits witness_load witness_net [AddLoad (Id 1) 1] = Inr net'"
    using is_ok_obtain by blast
  with apply_network_edits_frame [OF this] show ?thesis by blast
qed

text \<open>An accepted demand edit lands on a bus of the network whose total in-service demand plus the
  step is not below \<open>-1e-9\<close>; the step is added to the first in-service load of that bus, or becomes
  a new load appended at the end when the bus has none. PowerIO's constructor is taken to fill in
  the bus, the active power and an in-service status.\<close>

theorem add_load_lands_on_bus:
  assumes new: "\<forall>i p q. load_bus (load_new i p q) = i \<and> load_p (load_new i p q) = p \<and> load_in_service (load_new i p q)"
    and ok: "apply_network_edit load_new net (AddLoad bus p) = Inr net'"
  shows "\<exists>i j. (\<exists>b \<in> set (buses net). bus_id b = i) \<and> \<not> bus_demand net i + p < - f64_1e_9 \<and>
     j < length (loads net') \<and> load_at i (loads net' ! j) \<and>
     (\<forall>l < j. \<not> load_at i (loads net' ! l)) \<and>
     load_p (loads net' ! j) = (if j < length (loads net) then load_p (loads net ! j) + p else p) \<and>
     (\<forall>l < length (loads net). l \<noteq> j \<longrightarrow> loads net' ! l = loads net ! l) \<and>
     length (loads net') = max (length (loads net)) (Suc j)"
proof -
  from ok have "apply_add_load load_new net bus p = Inr net'" by simp
  then obtain i where i: "\<exists>b \<in> set (buses net). bus_id b = i" "\<not> bus_demand net i + p < - f64_1e_9"
    and net': "net' = net\<lparr>loads := (case position (load_at i) (loads net) of
        Some j \<Rightarrow> (loads net)[j := (loads net ! j)\<lparr>load_p := load_p (loads net ! j) + p\<rparr>]
      | None \<Rightarrow> loads net @ [load_new i p 0])\<rparr>"
    by (rule apply_add_load_Inr)
  show ?thesis
  proof (cases "position (load_at i) (loads net)")
    case None
    then have "\<forall>l < length (loads net). \<not> load_at i (loads net ! l)"
      by (metis nth_mem update_first_None update_first_Some option.distinct(1) not_Some_eq)
    then show ?thesis using i new None
      by (intro exI [of _ i] exI [of _ "length (loads net)"])
        (auto simp: net' nth_append load_at_def)
  next
    case (Some j)
    then have j: "j < length (loads net)" "load_at i (loads net ! j)" "\<forall>l < j. \<not> load_at i (loads net ! l)"
      by (simp_all add: position_Some_iff)
    show ?thesis using i j Some
      by (intro exI [of _ i] exI [of _ j]) (auto simp: net' load_at_def)
  qed
qed

theorem add_load_lands_on_bus_witness:
  "\<exists>net' i j. apply_network_edit witness_load witness_net (AddLoad (Uid ''buses:0'') 1) = Inr net' \<and>
     load_at i (loads net' ! j)"
proof -
  have "is_ok (apply_network_edit witness_load witness_net (AddLoad (Uid ''buses:0'') 1))" by code_simp
  then obtain net' where net': "apply_network_edit witness_load witness_net (AddLoad (Uid ''buses:0'') 1) = Inr net'"
    using is_ok_obtain by blast
  have "\<forall>i p q. load_bus (witness_load i p q) = i \<and> load_p (witness_load i p q) = p \<and> load_in_service (witness_load i p q)"
    by (simp add: witness_load_def)
  from add_load_lands_on_bus [OF this net'] net' show ?thesis by blast
qed

text \<open>the dense columns of a preview do not depend on the iteration order of the hash map of
  edited keys, although float addition is not associative: at most the id form and the uid form of
  one element meet, and two addends commute.\<close>

theorem dense_cols_order_independent:
  assumes "distinct (map fst mag)" and "mset mag = mset mag'"
  shows "dense_cols axis mag = dense_cols axis mag'"
  using assms by (rule dense_cols_perm)

theorem dense_cols_order_independent_witness:
  "dense_cols \<lparr>axis_ids = [7], axis_uids = [Some ''b'']\<rparr> [(Id 7, 1), (Uid ''b'', f64_dec 1 1)] =
   dense_cols \<lparr>axis_ids = [7], axis_uids = [Some ''b'']\<rparr> [(Uid ''b'', f64_dec 1 1), (Id 7, 1)]"
  by (rule dense_cols_order_independent) simp_all

text \<open>Demand deltas enter the per-unit demand vector once per bus, after every alias of the bus was
  combined in key order: the combined step is finite, it does not push the bus below \<open>-1e-9\<close> MW, and
  buses no delta names keep their demand. The update never leaves the vector.\<close>

theorem apply_demand_vector_aggregates:
  assumes "apply_demand_vector base bus_ids bus_uids demand ds = Inr demand'"
    and "length bus_uids = length bus_ids" and "length demand = length bus_ids"
  shows "length demand' = length demand \<and> (\<forall>i < length demand.
     case running_total None (steps_at (key_index_new bus_ids bus_uids ds) i (sorted_deltas ds)) of
       None \<Rightarrow> demand' ! i = demand ! i
     | Some mw \<Rightarrow> is_finite mw \<and> \<not> demand ! i * base + mw < - f64_1e_9 \<and>
                 demand' ! i = demand ! i + mw / base)"
proof -
  from assms(1) obtain agg where "aggregate_deltas ''demand'' ''bus'' (key_index_new bus_ids bus_uids ds) ds = Inr agg"
    "try_fold (\<lambda>dem (i, (bus, mw)). and_then (err_if (dem ! i * base + mw < - f64_1e_9)
       (''demand delta for bus '' @ show_key bus @ '' would make demand negative''))
       (\<lambda>_. Inr (dem[i := dem ! i + mw / base]))) demand agg = Inr demand'"
    by (auto simp only: apply_demand_vector_def aggregate_demand_deltas_def and_then_Inr)
  from vector_apply [OF this(1) assms(2,3) this(2)] show ?thesis .
qed

theorem apply_demand_vector_aggregates_witness:
  "apply_demand_vector 1 [7] [None] [1] [] = Inr [1] \<and> length [1 :: f64] = length [7 :: nat]"
proof -
  have ok: "apply_demand_vector 1 [7] [None] [1] [] = Inr [1]" by code_simp
  from apply_demand_vector_aggregates [OF ok] ok show ?thesis by simp
qed

text \<open>Rating deltas enter the per-unit limit vector once per branch, after aliases were combined:
  the combined step is finite, the moved limit stays above the \<open>1e-9\<close> MW floor, and other branches
  keep their limit.\<close>

theorem apply_rating_vector_aggregates:
  assumes "apply_rating_vector base branch_ids branch_uids fmax rs = Inr fmax'"
    and "length branch_uids = length branch_ids" and "length fmax = length branch_ids"
  shows "length fmax' = length fmax \<and> (\<forall>i < length fmax.
     case running_total None (steps_at (key_index_new branch_ids branch_uids rs) i (sorted_deltas rs)) of
       None \<Rightarrow> fmax' ! i = fmax ! i
     | Some mw \<Rightarrow> is_finite mw \<and> \<not> fmax ! i * base + mw \<le> f64_1e_9 \<and>
                 fmax' ! i = fmax ! i + mw / base)"
proof -
  from assms(1) obtain agg where "aggregate_deltas ''rating'' ''branch'' (key_index_new branch_ids branch_uids rs) rs = Inr agg"
    "try_fold (\<lambda>fm (i, (branch, mw)). and_then (err_if (fm ! i * base + mw \<le> f64_1e_9)
       (''rating delta for branch '' @ show_key branch @ '' would make the line limit non-positive''))
       (\<lambda>_. Inr (fm[i := fm ! i + mw / base]))) fmax agg = Inr fmax'"
    by (auto simp only: apply_rating_vector_def aggregate_rating_deltas_def and_then_Inr)
  from vector_apply [OF this(1) assms(2,3) this(2)] show ?thesis .
qed

theorem apply_rating_vector_aggregates_witness:
  "apply_rating_vector 1 [7] [None] [1] [] = Inr [1] \<and> length [1 :: f64] = length [7 :: nat]"
proof -
  have ok: "apply_rating_vector 1 [7] [None] [1] [] = Inr [1]" by code_simp
  from apply_rating_vector_aggregates [OF ok] ok show ?thesis by simp
qed

end
