(* ===== verification/Islands.thy ===== *)
theory Islands
  imports Network
begin

text \<open>
  Island energization (\<open>src/crates/tellegen/src/model/islands.rs\<close>): the union-find over bus rows
  with path halving, the islands of a network, which of them an in-service generator supplies, the
  reference designated in each supplied island, and the adjusted network. The disjoint-set
  interface that the island search relies on is the locale \<open>disjoint_sets\<close>, interpreted on the
  parent array of the code.
\<close>

section \<open>The parent array\<close>

text \<open>An index panic and a search without end are both \<open>None\<close>.\<close>

partial_function (option) find_root :: "nat list \<Rightarrow> nat \<Rightarrow> (nat list \<times> nat) option" where
  "find_root parent node =
     (if length parent \<le> node then None
      else if parent ! node = node then Some (parent, node)
      else if length parent \<le> parent ! node then None
      else let parent' = parent[node := parent ! (parent ! node)]
           in find_root parent' (parent' ! node))"

declare find_root.simps [code]

definition join :: "nat list \<Rightarrow> nat \<times> nat \<Rightarrow> nat list option" where
  "join parent = (\<lambda>(a, b).
     Option.bind (find_root parent a) (\<lambda>(parent, ra).
     Option.bind (find_root parent b) (\<lambda>(parent, rb).
     Some (if ra \<noteq> rb then parent[rb := ra] else parent))))"

section \<open>Islands of a network\<close>

datatype ReferencePolicy = Stated | GeneratorHosted

record energized =
  en_network :: "network option"
  en_diagnostics :: "solve_diagnostic list"

record islands =
  row_of :: "nat \<Rightarrow> nat option"
  island_of_row :: "nat option list"
  members :: "nat list list"

definition active_row :: "network \<Rightarrow> nat \<Rightarrow> nat option" where
  "active_row net i =
     (case last_index_map (map bus_id (buses net)) i of
        None \<Rightarrow> None
      | Some row \<Rightarrow> if kind (buses net ! row) \<noteq> Isolated then Some row else None)"

definition branch_edges :: "network \<Rightarrow> (nat \<times> nat) list" where
  "branch_edges net = List.map_filter
     (\<lambda>b. case (active_row net (br_from b), active_row net (br_to b)) of
            (Some f, Some t) \<Rightarrow> Some (f, t) | _ \<Rightarrow> None)
     (filter br_in_service (branches net))"

fun windows2 :: "'a list \<Rightarrow> ('a \<times> 'a) list" where
  "windows2 (x # y # xs) = (x, y) # windows2 (y # xs)"
| "windows2 _ = []"

definition transformer_edges :: "network \<Rightarrow> (nat \<times> nat) list" where
  "transformer_edges net = concat (map (\<lambda>t. windows2 (List.map_filter (active_row net) (windings t)))
     (filter t3_in_service (transformers_3w net)))"

text \<open>One pass over the rows: each row not skipped looks up its root in the store.\<close>

definition scan_row ::
  "('s \<Rightarrow> nat \<Rightarrow> ('s \<times> nat) option) \<Rightarrow> (nat \<Rightarrow> bool) \<Rightarrow> ('a \<Rightarrow> nat \<Rightarrow> nat \<Rightarrow> 'a) \<Rightarrow> 's \<times> 'a \<Rightarrow> nat \<Rightarrow> ('s \<times> 'a) option" where
  "scan_row find_s skip put = (\<lambda>(s, acc) row.
     if skip row then Some (s, acc)
     else Option.bind (find_s s row) (\<lambda>(s', root). Some (s', put acc row root)))"

record island_acc =
  ia_of_root :: "(nat, nat) hmap"
  ia_of_row :: "nat option list"
  ia_members :: "nat list list"

definition island_put :: "island_acc \<Rightarrow> nat \<Rightarrow> nat \<Rightarrow> island_acc" where
  "island_put acc row root =
     (let (island, of_root, mem) =
            (case map_of (ia_of_root acc) root of
               Some i \<Rightarrow> (i, ia_of_root acc, ia_members acc)
             | None \<Rightarrow> (length (ia_members acc), ia_of_root acc @ [(root, length (ia_members acc))], ia_members acc @ [[]]))
      in \<lparr>ia_of_root = of_root, ia_of_row = (ia_of_row acc)[row := Some island],
          ia_members = mem[island := mem ! island @ [row]]\<rparr>)"

definition isolated_row :: "network \<Rightarrow> nat \<Rightarrow> bool" where
  "isolated_row net row \<longleftrightarrow> kind (buses net ! row) = Isolated"

definition islands_of :: "network \<Rightarrow> islands option" where
  "islands_of net =
     (let n = length (buses net)
      in Option.bind (fold_opt join [0..<n] (branch_edges net @ transformer_edges net)) (\<lambda>parent.
         Option.bind (fold_opt (scan_row find_root (isolated_row net) island_put)
             (parent, \<lparr>ia_of_root = [], ia_of_row = replicate n None, ia_members = []\<rparr>) [0..<n]) (\<lambda>(_, acc).
         Some \<lparr>row_of = last_index_map (map bus_id (buses net)), island_of_row = ia_of_row acc,
               members = ia_members acc\<rparr>)))"

definition island_of :: "islands \<Rightarrow> nat \<Rightarrow> nat option" where
  "island_of comps b = Option.bind (row_of comps b) (\<lambda>row. island_of_row comps ! row)"

definition supplied :: "islands \<Rightarrow> network \<Rightarrow> bool list" where
  "supplied comps net =
     fold (\<lambda>g fed. case island_of comps (gen_bus g) of None \<Rightarrow> fed | Some i \<Rightarrow> fed[i := True])
       (filter gen_in_service (generators net)) (replicate (length (members comps)) False)"

section \<open>Energization\<close>

definition generator_buses :: "network \<Rightarrow> nat set" where
  "generator_buses net = set (map gen_bus (filter gen_in_service (generators net)))"

definition reference_counts :: "network \<Rightarrow> ReferencePolicy \<Rightarrow> bus \<Rightarrow> bool" where
  "reference_counts net policy b =
     (case policy of Stated \<Rightarrow> True | GeneratorHosted \<Rightarrow> bus_id b \<in> generator_buses net)"

definition referenced :: "network \<Rightarrow> islands \<Rightarrow> ReferencePolicy \<Rightarrow> bool list" where
  "referenced net comps policy =
     fold (\<lambda>row ref.
        if kind (buses net ! row) = Ref \<and> reference_counts net policy (buses net ! row)
        then (case island_of_row comps ! row of None \<Rightarrow> ref | Some i \<Rightarrow> ref[i := True]) else ref)
       [0..<length (buses net)] (replicate (length (members comps)) False)"

definition largest_step ::
  "islands \<Rightarrow> generator \<Rightarrow> (f64 \<times> nat) option list \<Rightarrow> (f64 \<times> nat) option list" where
  "largest_step comps g largest =
     (case row_of comps (gen_bus g) of
        None \<Rightarrow> largest
      | Some row \<Rightarrow>
          (case island_of_row comps ! row of
             None \<Rightarrow> largest
           | Some i \<Rightarrow>
               let pmax = (if is_nan (gen_pmax g) then f64_INFINITY True else gen_pmax g)
               in if (case largest ! i of None \<Rightarrow> True | Some (best, _) \<Rightarrow> best < pmax)
                  then largest[i := Some (pmax, row)] else largest))"

definition designate_references :: "network \<Rightarrow> islands \<Rightarrow> bool list \<Rightarrow> ReferencePolicy \<Rightarrow> nat list" where
  "designate_references net comps fed policy =
     (let ref = referenced net comps policy;
          largest = fold (largest_step comps) (filter gen_in_service (generators net))
                      (replicate (length (members comps)) None)
      in List.map_filter (\<lambda>i. map_option snd (largest ! i))
           (filter (\<lambda>i. fed ! i \<and> \<not> ref ! i) [0..<length (members comps)]))"

definition island_load :: "network \<Rightarrow> islands \<Rightarrow> f64 list" where
  "island_load net comps =
     (let mw = (if is_normalized net then net_base_mva net else 1)
      in fold (\<lambda>l load_mw. case island_of comps (load_bus l) of None \<Rightarrow> load_mw
                 | Some i \<Rightarrow> load_mw[i := load_mw ! i + load_p l * mw])
           (filter load_in_service (loads net)) (replicate (length (members comps)) 0))"

definition deenergized_diagnostic :: "(f64 \<Rightarrow> string) \<Rightarrow> network \<Rightarrow> f64 list \<Rightarrow> nat \<times> nat list \<Rightarrow> solve_diagnostic" where
  "deenergized_diagnostic fmt1 net load_mw = (\<lambda>(i, rows).
     let ids = map (\<lambda>row. bus_id (buses net ! row)) rows
     in \<lparr>diag_code = ''island_deenergized'',
         diag_message = ''an island of '' @ show_nat (length ids) @
           '' bus(es) has no in-service generator and was left out of the solve; its '' @
           fmt1 (load_mw ! i) @ '' MW of load is unserved'',
         diag_buses = ids\<rparr>)"

definition designated_diagnostic :: "network \<Rightarrow> ReferencePolicy \<Rightarrow> nat \<Rightarrow> solve_diagnostic" where
  "designated_diagnostic net policy row =
     (let bus = bus_id (buses net ! row)
      in \<lparr>diag_code = ''island_reference_designated'',
          diag_message = ''an island '' @
            (case policy of Stated \<Rightarrow> ''states no reference bus''
             | GeneratorHosted \<Rightarrow> ''has no reference bus hosting an in-service generator'') @
            ''; bus '' @ show_nat bus @ '' hosts its largest generator and became its reference'',
          diag_buses = [bus]\<rparr>)"

definition adjust :: "network \<Rightarrow> nat list \<Rightarrow> nat list \<Rightarrow> network" where
  "adjust net isolate designate =
     (let set_kind = (\<lambda>k row bs. bs[row := (bs ! row)\<lparr>kind := k\<rparr>]);
          bs = fold (set_kind Ref) designate (fold (set_kind Isolated) isolate (buses net));
          isolated = set (map (\<lambda>row. bus_id (buses net ! row)) isolate)
      in net\<lparr>buses := bs,
             transformers_3w := map (\<lambda>t. if \<exists>w \<in> set (windings t). w \<in> isolated
                                        then t\<lparr>t3_in_service := False\<rparr> else t) (transformers_3w net)\<rparr>)"

definition energize :: "(f64 \<Rightarrow> string) \<Rightarrow> network \<Rightarrow> ReferencePolicy \<Rightarrow> energized option" where
  "energize fmt1 net policy =
     Option.bind (islands_of net) (\<lambda>comps.
       let fed = supplied comps net;
           load_mw = island_load net comps;
           out = filter (\<lambda>(i, rows). \<not> fed ! i) (zip [0..<length (members comps)] (members comps));
           isolate = concat (map snd out);
           designate = designate_references net comps fed policy;
           diags = map (deenergized_diagnostic fmt1 net load_mw) out @ map (designated_diagnostic net policy) designate
       in Some (if isolate = [] \<and> designate = []
                then \<lparr>en_network = None, en_diagnostics = diags\<rparr>
                else \<lparr>en_network = Some (adjust net isolate designate), en_diagnostics = diags\<rparr>))"

definition energized_network :: "energized \<Rightarrow> network \<Rightarrow> network" where
  "energized_network e original = (case en_network e of None \<Rightarrow> original | Some net \<Rightarrow> net)"

section \<open>Islands of a prepared model\<close>

record label_acc =
  la_label :: "(nat, nat) hmap"
  la_out :: "nat list"

definition label_put :: "label_acc \<Rightarrow> nat \<Rightarrow> nat \<Rightarrow> label_acc" where
  "label_put acc bus root =
     (let next = length (la_label acc);
          label = (if map_of (la_label acc) root = None then la_label acc @ [(root, next)] else la_label acc)
      in \<lparr>la_label = label, la_out = la_out acc @ [the (map_of label root)]\<rparr>)"

definition dense_islands :: "nat \<Rightarrow> nat list \<Rightarrow> nat list \<Rightarrow> nat list option" where
  "dense_islands n br_fr br_t =
     Option.bind (fold_opt join [0..<n] (zip br_fr br_t)) (\<lambda>parent.
     map_option (\<lambda>(_, acc). la_out acc)
       (fold_opt (scan_row find_root (\<lambda>_. False) label_put) (parent, \<lparr>la_label = [], la_out = []\<rparr>) [0..<n]))"

section \<open>Representatives in a forest\<close>

inductive rep :: "nat list \<Rightarrow> nat \<Rightarrow> nat \<Rightarrow> bool" for p where
  rep_root: "x < length p \<Longrightarrow> p ! x = x \<Longrightarrow> rep p x x"
| rep_step: "x < length p \<Longrightarrow> p ! x \<noteq> x \<Longrightarrow> rep p (p ! x) r \<Longrightarrow> rep p x r"

inductive_simps rep_simps: "rep p x r"

lemma rep_at: "p ! x = x \<Longrightarrow> rep p x r \<longleftrightarrow> x < length p \<and> r = x"
  by (subst rep_simps) auto

lemma rep_below: "p ! x \<noteq> x \<Longrightarrow> rep p x r \<longleftrightarrow> x < length p \<and> rep p (p ! x) r"
  by (subst rep_simps) auto

lemma rep_twice: "rep p (p ! x) r \<Longrightarrow> rep p (p ! (p ! x)) r"
  by (cases "p ! (p ! x) = p ! x") (simp_all add: rep_below)

definition forest_by :: "(nat \<Rightarrow> nat) \<Rightarrow> nat list \<Rightarrow> bool" where
  "forest_by rk p \<longleftrightarrow> (\<forall>x < length p. p ! x < length p \<and> (p ! x \<noteq> x \<longrightarrow> rk (p ! x) < rk x))"

lemma forest_byD:
  assumes "forest_by rk p" "x < length p"
  shows "p ! x < length p" "p ! x \<noteq> x \<Longrightarrow> rk (p ! x) < rk x"
  using assms by (simp_all add: forest_by_def)

definition forest :: "nat list \<Rightarrow> bool" where
  "forest p \<longleftrightarrow> (\<exists>rk. forest_by rk p)"

definition rep_of :: "nat list \<Rightarrow> nat \<Rightarrow> nat" where
  "rep_of p x = (THE r. rep p x r)"

lemma rep_unique: "rep p x r \<Longrightarrow> rep p x s \<Longrightarrow> r = s"
proof (induction arbitrary: s rule: rep.induct)
  case (rep_root x)
  then show ?case by (simp add: rep_at)
next
  case (rep_step x r)
  then show ?case by (simp add: rep_below)
qed

lemma rep_is_root: "rep p x r \<Longrightarrow> r < length p \<and> p ! r = r"
  by (induction rule: rep.induct) auto

lemma rep_total: "forest_by rk p \<Longrightarrow> x < length p \<Longrightarrow> \<exists>r. rep p x r"
proof (induction "rk x" arbitrary: x rule: less_induct)
  case less
  show ?case
  proof (cases "p ! x = x")
    case False
    with less.prems have "rk (p ! x) < rk x" "p ! x < length p" by (auto simp: forest_by_def)
    with less.hyps less.prems(1) obtain r where "rep p (p ! x) r" by blast
    from rep_step [OF less.prems(2) False this] show ?thesis ..
  qed (use less.prems in \<open>blast intro: rep_root\<close>)
qed

lemma rep_of_eq: "rep p x r \<Longrightarrow> rep_of p x = r"
  unfolding rep_of_def by (rule the_equality) (auto intro: rep_unique)

lemma rep_of_rep: "forest p \<Longrightarrow> x < length p \<Longrightarrow> rep p x (rep_of p x)"
  unfolding forest_def by (metis rep_total rep_of_eq)

lemma halve_forest:
  assumes "forest_by rk p" "x < length p"
  shows "forest_by rk (p[x := p ! (p ! x)])"
proof -
  have "rk (p ! (p ! x)) < rk x" if "p ! (p ! x) \<noteq> x"
  proof (cases "p ! x = x")
    case False
    with assms have "rk (p ! x) < rk x" "p ! x < length p" by (auto simp: forest_by_def)
    moreover from this assms(1) have "rk (p ! (p ! x)) \<le> rk (p ! x)"
      by (cases "p ! (p ! x) = p ! x") (auto simp: forest_by_def less_imp_le)
    ultimately show ?thesis by linarith
  qed (use that in simp)
  with assms show ?thesis by (auto simp: forest_by_def nth_list_update)
qed

lemma halve_rep:
  assumes "forest_by rk p" "x < length p" "rep p y r"
  shows "rep (p[x := p ! (p ! x)]) y r"
  using assms(3)
proof (induction "rk y" arbitrary: y rule: less_induct)
  case less
  let ?p = "p[x := p ! (p ! x)]"
  have down: "z < length p \<Longrightarrow> p ! z \<noteq> z \<Longrightarrow> rk (p ! z) < rk z \<and> p ! z < length p" for z
    using assms(1) by (auto simp: forest_by_def)
  from less.prems show ?case
  proof (cases rule: rep.cases)
    case rep_root
    then have "?p ! y = y" by (cases "y = x") simp_all
    with rep_root rep_at [OF this] show ?thesis by simp
  next
    case rep_step
    with down have up: "rk (p ! y) < rk y" by blast
    have IH: "rep ?p (p ! y) r" by (rule less.hyps [OF up rep_step(3)])
    show ?thesis
    proof (cases "y = x \<and> p ! (p ! y) \<noteq> p ! y")
      case False
      then have "?p ! y = p ! y" using rep_step(1) by (cases "y = x") auto
      with IH rep_step(1,2) have "?p ! y \<noteq> y" "rep ?p (?p ! y) r" "y < length ?p" by simp_all
      then show ?thesis by (blast intro: rep.rep_step)
    next
      case True
      from rep_step(3) True have r2: "rep p (p ! (p ! y)) r" by (simp add: rep_twice)
      from down [of "p ! y"] True up down [OF rep_step(1,2)] have "rk (p ! (p ! y)) < rk y" by auto
      then have "rep ?p (p ! (p ! y)) r" "p ! (p ! y) \<noteq> y" using less.hyps r2 by auto
      with True rep_step(1) have "?p ! y \<noteq> y" "rep ?p (?p ! y) r" "y < length ?p" by simp_all
      then show ?thesis by (blast intro: rep.rep_step)
    qed
  qed
qed

text \<open>The search returns the representative, keeps the forest and every representative.\<close>

lemma find_root_rep:
  assumes "forest_by rk p" "rep p x r"
  shows "\<exists>p'. find_root p x = Some (p', r) \<and> forest_by rk p' \<and> length p' = length p \<and>
     (\<forall>y s. rep p y s \<longrightarrow> rep p' y s)"
  using assms
proof (induction "rk x" arbitrary: p x rule: less_induct)
  case less
  from less.prems(2) show ?case
  proof (cases rule: rep.cases)
    case rep_root
    then show ?thesis using less.prems(1) by (subst find_root.simps) auto
  next
    case rep_step
    let ?p = "p[x := p ! (p ! x)]"
    have px: "p ! x < length p" "rk (p ! x) < rk x" using less.prems(1) rep_step by (auto simp: forest_by_def)
    have fp: "forest_by rk ?p" using less.prems(1) rep_step(1) by (rule halve_forest)
    have keep: "rep p y s \<Longrightarrow> rep ?p y s" for y s
      by (rule halve_rep [OF less.prems(1) rep_step(1)])
    have "rk (p ! (p ! x)) \<le> rk (p ! x)"
      using less.prems(1) px(1) by (cases "p ! (p ! x) = p ! x") (auto simp: forest_by_def less_imp_le)
    with px(2) have lt: "rk (?p ! x) < rk x" using rep_step(1) by simp
    have "rep p (p ! (p ! x)) r" using rep_step(3) by (rule rep_twice)
    then have "rep ?p (?p ! x) r" using keep rep_step(1) by simp
    from less.hyps [OF lt fp this] obtain p' where
      "find_root ?p (?p ! x) = Some (p', r)" "forest_by rk p'" "length p' = length ?p" "\<forall>y s. rep ?p y s \<longrightarrow> rep p' y s"
      by blast
    with keep rep_step(1,2) px(1) show ?thesis
      by (intro exI [of _ p'], subst find_root.simps) (auto simp: Let_def)
  qed
qed

lemma find_root_ok:
  assumes "forest p" "x < length p"
  shows "\<exists>p'. find_root p x = Some (p', rep_of p x) \<and> forest p' \<and> length p' = length p \<and>
     (\<forall>y < length p. rep_of p' y = rep_of p y)"
proof -
  from assms(1) obtain rk where rk: "forest_by rk p" by (auto simp: forest_def)
  from find_root_rep [OF rk rep_of_rep [OF assms]] obtain p' where p':
    "find_root p x = Some (p', rep_of p x)" "forest_by rk p'" "length p' = length p" "\<forall>y s. rep p y s \<longrightarrow> rep p' y s"
    by blast
  from p'(4) have "\<forall>y < length p. rep_of p' y = rep_of p y"
    using rep_of_rep [OF assms(1)] by (auto intro: rep_of_eq)
  with p' show ?thesis by (auto simp: forest_def)
qed

lemma link_forest:
  assumes "forest p" "p ! a = a" "p ! b = b" "a \<noteq> b" "a < length p" "b < length p"
  shows "forest (p[b := a])"
proof -
  from assms(1) obtain rk where rk: "forest_by rk p" by (auto simp: forest_def)
  define rk' where "rk' x = (if rep p x b then rk x + rk a + 1 else rk x)" for x
  have "rk' ((p[b := a]) ! x) < rk' x" if x: "x < length p" and neq: "(p[b := a]) ! x \<noteq> x" for x
  proof (cases "x = b")
    case True
    have "\<not> rep p a b" using assms(4) rep_at [OF assms(2)] by simp
    moreover have "rep p b b" by (rule rep_root [OF assms(6,3)])
    ultimately show ?thesis using x unfolding True by (simp add: rk'_def)
  next
    case False
    with neq have "p ! x \<noteq> x" by simp
    moreover from forest_byD(2) [OF rk x this] have "rk (p ! x) < rk x" .
    moreover have "rep p (p ! x) b \<longleftrightarrow> rep p x b" using rep_below [OF \<open>p ! x \<noteq> x\<close>] x by blast
    ultimately show ?thesis using False by (simp add: rk'_def)
  qed
  moreover have "(p[b := a]) ! x < length p" if "x < length p" for x
    using forest_byD(1) [OF rk that] assms(5,6) by (cases "x = b") simp_all
  ultimately have "forest_by rk' (p[b := a])" by (simp add: forest_by_def)
  then show ?thesis by (auto simp: forest_def)
qed

lemma link_rep:
  assumes "rep p x r" "p ! a = a" "p ! b = b" "a \<noteq> b" "a < length p" "b < length p"
  shows "rep (p[b := a]) x (if r = b then a else r)"
  using assms(1)
proof (induction rule: rep.induct)
  case (rep_root x)
  show ?case
  proof (cases "x = b")
    case True
    have "rep (p[b := a]) a a" using assms(2,4,5) by (intro rep.rep_root) simp_all
    moreover have "(p[b := a]) ! b = a" "b < length (p[b := a])" using assms(6) by simp_all
    ultimately have "rep (p[b := a]) b a" using assms(4) by (metis rep.rep_step)
    then show ?thesis unfolding True by simp
  next
    case False
    then have "(p[b := a]) ! x = x" using rep_root(2) by simp
    moreover have "x < length (p[b := a])" using rep_root(1) by simp
    ultimately have "rep (p[b := a]) x x" by (rule rep.rep_root [rotated])
    then show ?thesis unfolding if_not_P [OF False] .
  qed
next
  case (rep_step x r)
  have "x \<noteq> b" using assms(3) rep_step(2) by blast
  then have eq: "(p[b := a]) ! x = p ! x" by simp
  show ?case
  proof (rule rep.rep_step)
    show "x < length (p[b := a])" using rep_step(1) by simp
    show "(p[b := a]) ! x \<noteq> x" unfolding eq by (rule rep_step(2))
    show "rep (p[b := a]) ((p[b := a]) ! x) (if r = b then a else r)" unfolding eq by (rule rep_step.IH)
  qed
qed

lemma link_rep_of:
  assumes "forest p" "p ! a = a" "p ! b = b" "a \<noteq> b" "a < length p" "b < length p" "x < length p"
  shows "rep_of (p[b := a]) x = (if rep_of p x = b then a else rep_of p x)"
  using link_rep [OF rep_of_rep [OF assms(1,7)] assms(2-6)] by (rule rep_of_eq)

lemma join_ok:
  assumes "forest p" "a < length p" "b < length p"
  shows "\<exists>p'. join p (a, b) = Some p' \<and> forest p' \<and> length p' = length p \<and>
     (\<forall>x < length p. \<forall>y < length p. rep_of p' x = rep_of p' y \<longleftrightarrow>
        rep_of p x = rep_of p y \<or> (rep_of p x = rep_of p a \<and> rep_of p y = rep_of p b) \<or>
        (rep_of p x = rep_of p b \<and> rep_of p y = rep_of p a))"
proof -
  from find_root_ok [OF assms(1,2)] obtain p1 where p1: "find_root p a = Some (p1, rep_of p a)" "forest p1"
    "length p1 = length p" "\<forall>y < length p. rep_of p1 y = rep_of p y" by blast
  from find_root_ok [OF p1(2), of b] assms(3) p1(3,4) obtain p2 where p2: "find_root p1 b = Some (p2, rep_of p b)" "forest p2"
    "length p2 = length p" "\<forall>y < length p. rep_of p2 y = rep_of p y" by auto
  let ?a = "rep_of p a" and ?b = "rep_of p b"
  have roots: "?a < length p2" "p2 ! ?a = ?a" "?b < length p2" "p2 ! ?b = ?b"
    using rep_is_root [OF rep_of_rep [OF p2(2), of a]] rep_is_root [OF rep_of_rep [OF p2(2), of b]] assms(2,3) p2(3,4) by auto
  show ?thesis
  proof (cases "?a = ?b")
    case True
    then show ?thesis using p1 p2 by (auto simp: join_def)
  next
    case False
    have "rep_of (p2[?b := ?a]) x = (if rep_of p x = ?b then ?a else rep_of p x)" if "x < length p" for x
      using link_rep_of [OF p2(2) roots(2,4) False roots(1,3), of x] that p2(3,4) by simp
    moreover have "forest (p2[?b := ?a])" by (rule link_forest [OF p2(2) roots(2,4) False roots(1,3)])
    ultimately show ?thesis using False p1 p2 by (intro exI [of _ "p2[?b := ?a]"]) (auto simp: join_def)
  qed
qed

lemma forest_initial: "forest [0..<n]" "x < n \<Longrightarrow> rep_of [0..<n] x = x"
  by (auto simp: forest_def forest_by_def intro!: rep_of_eq rep_root)

section \<open>Disjoint sets as an interface\<close>

definition conn :: "(nat \<times> nat) list \<Rightarrow> (nat \<times> nat) set" where
  "conn es = (set es \<union> (set es)\<inverse>)\<^sup>*"

lemma conn_sym: "(x, y) \<in> conn es \<Longrightarrow> (y, x) \<in> conn es"
proof -
  have "(conn es)\<inverse> = conn es"
    unfolding conn_def rtrancl_converse [symmetric] by (simp add: converse_Un Un_commute)
  then show "(x, y) \<in> conn es \<Longrightarrow> (y, x) \<in> conn es" by auto
qed

lemma conn_trans: "(x, y) \<in> conn es \<Longrightarrow> (y, z) \<in> conn es \<Longrightarrow> (x, z) \<in> conn es"
  unfolding conn_def by (rule rtrancl_trans)

lemma conn_Nil: "(x, y) \<in> conn [] \<longleftrightarrow> x = y"
  by (auto simp: conn_def)

lemma conn_snoc:
  "(x, y) \<in> conn (es @ [(a, b)]) \<longleftrightarrow>
     (x, y) \<in> conn es \<or> ((x, a) \<in> conn es \<and> (y, b) \<in> conn es) \<or> ((x, b) \<in> conn es \<and> (y, a) \<in> conn es)"
proof -
  let ?R = "set es \<union> (set es)\<inverse>"
  have "set (es @ [(a, b)]) \<union> (set (es @ [(a, b)]))\<inverse> = insert (a, b) (insert (b, a) ?R)" by auto
  then have *: "conn (es @ [(a, b)]) = (insert (a, b) (insert (b, a) ?R))\<^sup>*" by (simp add: conn_def)
  have **: "(u, v) \<in> (insert (b, a) ?R)\<^sup>* \<longleftrightarrow> (u, v) \<in> conn es \<or> ((u, b) \<in> conn es \<and> (a, v) \<in> conn es)" for u v
    by (simp add: rtrancl_insert [of _ _ ?R] conn_def)
  have refl: "(u, u) \<in> conn es" for u by (simp add: conn_def)
  show ?thesis
    unfolding * rtrancl_insert [of a b "insert (b, a) ?R"] using ** refl
    by (auto intro: conn_sym conn_trans)
qed

locale disjoint_sets =
  fixes find_s :: "'s \<Rightarrow> nat \<Rightarrow> ('s \<times> nat) option"
    and join_s :: "'s \<Rightarrow> nat \<times> nat \<Rightarrow> 's option"
    and size_s :: "'s \<Rightarrow> nat"
    and invar_s :: "'s \<Rightarrow> bool"
    and rep_s :: "'s \<Rightarrow> nat \<Rightarrow> nat"
  assumes find_returns: "invar_s s \<Longrightarrow> x < size_s s \<Longrightarrow>
      \<exists>s'. find_s s x = Some (s', rep_s s x) \<and> invar_s s' \<and> size_s s' = size_s s \<and>
           (\<forall>y < size_s s. rep_s s' y = rep_s s y)"
    and join_merges: "invar_s s \<Longrightarrow> a < size_s s \<Longrightarrow> b < size_s s \<Longrightarrow>
      \<exists>s'. join_s s (a, b) = Some s' \<and> invar_s s' \<and> size_s s' = size_s s \<and>
        (\<forall>x < size_s s. \<forall>y < size_s s. rep_s s' x = rep_s s' y \<longleftrightarrow>
           rep_s s x = rep_s s y \<or> (rep_s s x = rep_s s a \<and> rep_s s y = rep_s s b) \<or>
           (rep_s s x = rep_s s b \<and> rep_s s y = rep_s s a))"
begin

text \<open>Joining the edges of a graph one after the other computes its connected components.\<close>

lemma joins_components:
  assumes "invar_s s" "\<forall>x < size_s s. \<forall>y < size_s s. rep_s s x = rep_s s y \<longleftrightarrow> x = y"
    and "\<forall>(a, b) \<in> set es. a < size_s s \<and> b < size_s s"
  shows "\<exists>s'. fold_opt join_s s es = Some s' \<and> invar_s s' \<and> size_s s' = size_s s \<and>
     (\<forall>x < size_s s. \<forall>y < size_s s. rep_s s' x = rep_s s' y \<longleftrightarrow> (x, y) \<in> conn es)"
  using assms(3)
proof (induction es rule: rev_induct)
  case Nil
  then show ?case using assms(1,2) by (simp add: conn_Nil)
next
  case (snoc e es)
  obtain a b where e: "e = (a, b)" by (cases e)
  from snoc obtain s1 where s1: "fold_opt join_s s es = Some s1" "invar_s s1" "size_s s1 = size_s s"
    "\<forall>x < size_s s. \<forall>y < size_s s. rep_s s1 x = rep_s s1 y \<longleftrightarrow> (x, y) \<in> conn es" by auto
  from snoc.prems have ab: "a < size_s s" "b < size_s s" by (auto simp: e)
  with join_merges [OF s1(2), of a b] s1(3) obtain s2 where s2: "join_s s1 (a, b) = Some s2" "invar_s s2"
    "size_s s2 = size_s s" "\<forall>x < size_s s. \<forall>y < size_s s. rep_s s2 x = rep_s s2 y \<longleftrightarrow>
           rep_s s1 x = rep_s s1 y \<or> (rep_s s1 x = rep_s s1 a \<and> rep_s s1 y = rep_s s1 b) \<or>
           (rep_s s1 x = rep_s s1 b \<and> rep_s s1 y = rep_s s1 a)" by auto
  have "rep_s s2 x = rep_s s2 y \<longleftrightarrow> (x, y) \<in> conn (es @ [e])" if "x < size_s s" "y < size_s s" for x y
    using s2(4) s1(4) that ab by (simp add: e conn_snoc)
  with s1 s2 show ?case by (simp add: e fold_opt_append)
qed

text \<open>A pass over rows sees the representatives the store had when the pass started.\<close>

lemma scan_representatives:
  assumes "invar_s s" "\<forall>x \<in> set rows. x < size_s s"
  shows "\<exists>s'. fold_opt (scan_row find_s skip put) (s, acc) rows =
     Some (s', fold (\<lambda>row acc. put acc row (rep_s s row)) (filter (\<lambda>row. \<not> skip row) rows) acc)"
  using assms
proof (induction rows arbitrary: s acc)
  case (Cons row rows)
  show ?case
  proof (cases "skip row")
    case True
    with Cons.IH [of s acc] Cons.prems show ?thesis by (simp add: scan_row_def)
  next
    case False
    from find_returns [OF Cons.prems(1), of row] Cons.prems(2) obtain s' where s':
      "find_s s row = Some (s', rep_s s row)" "invar_s s'" "size_s s' = size_s s"
      "\<forall>y < size_s s. rep_s s' y = rep_s s y" by auto
    have "fold (\<lambda>row acc. put acc row (rep_s s' row)) (filter (\<lambda>row. \<not> skip row) rows) a =
        fold (\<lambda>row acc. put acc row (rep_s s row)) (filter (\<lambda>row. \<not> skip row) rows) a" for a
      using Cons.prems(2) s'(4) by (intro fold_cong) auto
    with Cons.IH [of s' "put acc row (rep_s s row)"] Cons.prems(2) s' False show ?thesis
      by (simp add: scan_row_def)
  qed
qed simp

end

interpretation uf: disjoint_sets find_root join length forest rep_of
  by unfold_locales (rule find_root_ok join_ok; assumption)+

text \<open>Labels handed out in order of first appearance.\<close>

lemma label_put_fold:
  assumes "acc = fold (\<lambda>x acc. label_put acc x (f x)) xs \<lparr>la_label = [], la_out = []\<rparr>"
  shows "map snd (la_label acc) = [0..<length (la_label acc)]" (is ?order)
    and "distinct (map fst (la_label acc))" (is ?dist)
    and "fst ` set (la_label acc) = f ` set xs" (is ?keys)
    and "la_out acc = map (\<lambda>x. the (map_of (la_label acc) (f x))) xs" (is ?out)
    and "set (la_out acc) = {..<length (la_label acc)}" (is ?labels)
    and "\<forall>i < length (la_out acc). la_out acc ! i \<le> card (set (take i (la_out acc)))" (is ?first)
proof -
  have "?order \<and> ?dist \<and> ?keys \<and> ?out \<and> ?labels \<and> ?first"
    using assms
  proof (induction xs arbitrary: acc rule: rev_induct)
    case Nil
    then show ?case by simp
  next
    case (snoc x xs)
    define a where "a = fold (\<lambda>x acc. label_put acc x (f x)) xs \<lparr>la_label = [], la_out = []\<rparr>"
    have order: "map snd (la_label a) = [0..<length (la_label a)]" and dist: "distinct (map fst (la_label a))"
      and keys: "fst ` set (la_label a) = f ` set xs"
      and out: "la_out a = map (\<lambda>x. the (map_of (la_label a) (f x))) xs"
      and labels: "set (la_out a) = {..<length (la_label a)}"
      and first: "\<forall>i < length (la_out a). la_out a ! i \<le> card (set (take i (la_out a)))"
      using snoc.IH [OF a_def] by blast+
    have acc: "acc = label_put a x (f x)" using snoc.prems by (simp add: a_def)
    have grow: "\<forall>i < length (la_out a @ [l]). (la_out a @ [l]) ! i \<le> card (set (take i (la_out a @ [l])))"
      if "l \<le> length (la_label a)" for l
      using first that labels by (auto simp: nth_append less_Suc_eq)
    show ?case
    proof (cases "map_of (la_label a) (f x)")
      case None
      then have new: "f x \<notin> f ` set xs" using keys by (simp add: map_of_eq_None_iff)
      have lab: "la_label acc = la_label a @ [(f x, length (la_label a))]" "la_out acc = la_out a @ [length (la_label a)]"
        using None by (simp_all add: acc label_put_def Let_def map_add_def)
      have same: "the (map_of (la_label acc) (f y)) = the (map_of (la_label a) (f y))" if "y \<in> set xs" for y
      proof -
        have "f y \<noteq> f x" using that new by (metis imageI)
        then show ?thesis by (simp add: lab map_add_def split: option.splits)
      qed
      have "la_out acc = map (\<lambda>x. the (map_of (la_label acc) (f x))) (xs @ [x])"
        using out None same by (simp add: lab map_add_def)
      moreover have "fst ` set (la_label acc) = f ` set (xs @ [x])" using keys by (simp add: lab)
      moreover have "distinct (map fst (la_label acc))" using dist new keys by (simp add: lab)
      moreover have "map snd (la_label acc) = [0..<length (la_label acc)]" using order by (simp add: lab)
      moreover have "set (la_out acc) = {..<length (la_label acc)}" using labels by (simp add: lab lessThan_Suc)
      ultimately show ?thesis using grow [of "length (la_label a)"] by (simp only: lab) simp
    next
      case (Some i)
      have lab: "la_label acc = la_label a" "la_out acc = la_out a @ [i]"
        using Some by (simp_all add: acc label_put_def Let_def)
      have mem: "f x \<in> f ` set xs" using keys map_of_SomeD [OF Some] by force
      have "i \<in> snd ` set (la_label a)" using map_of_SomeD [OF Some] by force
      then have "i \<in> set (map snd (la_label a))" by simp
      then have i: "i < length (la_label a)" unfolding order by simp
      have "la_out acc = map (\<lambda>x. the (map_of (la_label acc) (f x))) (xs @ [x])"
        using out Some by (simp add: lab)
      moreover have "fst ` set (la_label acc) = f ` set (xs @ [x])" using keys mem by (simp add: lab insert_absorb)
      moreover have "set (la_out acc) = {..<length (la_label acc)}" using labels i by (auto simp: lab)
      ultimately show ?thesis using grow [of i] i order dist by (simp only: lab) simp
    qed
  qed
  then show ?order ?dist ?keys ?out ?labels ?first by blast+
qed

lemma map_of_labels_inject:
  assumes "map snd m = [0..<length m]" "map_of m k = Some v" "map_of m k' = Some v"
  shows "k = k'"
proof -
  obtain i where i: "i < length m" "m ! i = (k, v)" using map_of_SomeD [OF assms(2)] by (metis in_set_conv_nth)
  obtain j where j: "j < length m" "m ! j = (k', v)" using map_of_SomeD [OF assms(3)] by (metis in_set_conv_nth)
  have "map snd m ! i = i" "map snd m ! j = j" using i(1) j(1) unfolding assms(1) by simp_all
  then show ?thesis using i j by simp
qed

lemma labels_separate:
  assumes "map snd m = [0..<length m]" "fst ` set m = f ` set xs" "x \<in> set xs" "y \<in> set xs"
  shows "map_of m (f x) = map_of m (f y) \<longleftrightarrow> f x = f y"
    and "\<exists>i < length m. map_of m (f x) = Some i"
proof -
  have some: "\<exists>i. map_of m (f z) = Some i" if "z \<in> set xs" for z
  proof -
    have "f z \<in> fst ` set m" using that unfolding assms(2) by blast
    then show ?thesis by (metis map_of_eq_None_iff option.exhaust)
  qed
  show "map_of m (f x) = map_of m (f y) \<longleftrightarrow> f x = f y"
    using some [OF assms(3)] map_of_labels_inject [OF assms(1)] by metis
  from some [OF assms(3)] obtain i where i: "map_of m (f x) = Some i" by blast
  then have "i \<in> set (map snd m)" using map_of_SomeD by force
  then have "i < length m" unfolding assms(1) by simp
  with i show "\<exists>i < length m. map_of m (f x) = Some i" by blast
qed

text \<open>What the island pass has recorded after \<open>rows\<close>, with \<open>f\<close> the root of a row.\<close>

definition island_inv :: "(nat \<Rightarrow> nat) \<Rightarrow> nat \<Rightarrow> nat list \<Rightarrow> island_acc \<Rightarrow> bool" where
  "island_inv f n rows acc \<longleftrightarrow>
     map snd (ia_of_root acc) = [0..<length (ia_members acc)] \<and>
     distinct (map fst (ia_of_root acc)) \<and> fst ` set (ia_of_root acc) = f ` set rows \<and>
     length (ia_of_row acc) = n \<and>
     (\<forall>r < n. ia_of_row acc ! r = (if r \<in> set rows then map_of (ia_of_root acc) (f r) else None)) \<and>
     (\<forall>i < length (ia_members acc). ia_members acc ! i = filter (\<lambda>r. ia_of_row acc ! r = Some i) rows)"

lemma island_inv_length: "island_inv f n rows a \<Longrightarrow> length (ia_of_root a) = length (ia_members a)"
  unfolding island_inv_def by (metis length_map length_upt diff_zero)

lemma island_inv_label:
  assumes "island_inv f n rows a" "r \<in> set rows" "r < n"
  shows "\<exists>i < length (ia_members a). ia_of_row a ! r = Some i"
  using assms labels_separate(2) [of "ia_of_root a" f rows r r] island_inv_length [OF assms(1)]
  by (simp add: island_inv_def)

lemma island_inv_new:
  assumes inv: "island_inv f n rows a" and x: "x \<notin> set rows" "x < n" "\<forall>r \<in> set rows. r < n"
    and None: "map_of (ia_of_root a) (f x) = None"
  shows "island_inv f n (rows @ [x]) (island_put a x (f x))"
proof -
  let ?k = "length (ia_members a)" and ?acc = "island_put a x (f x)"
  have new: "f x \<notin> f ` set rows" using None inv by (simp add: map_of_eq_None_iff island_inv_def)
  have lab: "ia_of_root ?acc = ia_of_root a @ [(f x, ?k)]" "ia_of_row ?acc = (ia_of_row a)[x := Some ?k]"
    "ia_members ?acc = ia_members a @ [[x]]"
    using None by (simp_all add: island_put_def Let_def)
  have len: "length (ia_of_row a) = n" using inv by (simp add: island_inv_def)
  have other: "r \<noteq> x \<Longrightarrow> ia_of_row ?acc ! r = ia_of_row a ! r" for r by (simp add: lab)
  have same: "map_of (ia_of_root ?acc) (f y) = map_of (ia_of_root a) (f y)" if "y \<in> set rows" for y
  proof -
    have "f y \<noteq> f x" using that new by (metis imageI)
    then show ?thesis by (simp add: lab map_add_def split: option.splits)
  qed
  have "ia_of_row ?acc ! r = (if r \<in> set (rows @ [x]) then map_of (ia_of_root ?acc) (f r) else None)" if "r < n" for r
    using that None len inv same other by (cases "r = x") (simp_all add: lab map_add_def island_inv_def)
  moreover have "ia_members ?acc ! i = filter (\<lambda>r. ia_of_row ?acc ! r = Some i) (rows @ [x])"
    if "i < length (ia_members ?acc)" for i
  proof -
    have "filter (\<lambda>r. ia_of_row ?acc ! r = Some i) rows = filter (\<lambda>r. ia_of_row a ! r = Some i) rows"
      using x(1) other by (intro filter_cong refl) metis
    moreover have "filter (\<lambda>r. ia_of_row a ! r = Some ?k) rows = []"
      using island_inv_label [OF inv] x(3) by (fastforce simp: filter_empty_conv)
    ultimately show ?thesis using that inv x(2) len
      by (cases "i = ?k") (simp_all add: lab nth_append island_inv_def)
  qed
  moreover have "fst ` set (ia_of_root ?acc) = f ` set (rows @ [x])" "distinct (map fst (ia_of_root ?acc))"
    "map snd (ia_of_root ?acc) = [0..<length (ia_members ?acc)]"
    using inv new by (simp_all add: lab island_inv_def)
  ultimately show ?thesis using len by (simp add: island_inv_def lab)
qed

lemma island_inv_old:
  assumes inv: "island_inv f n rows a" and x: "x \<notin> set rows" "x < n"
    and Some: "map_of (ia_of_root a) (f x) = Some k"
  shows "island_inv f n (rows @ [x]) (island_put a x (f x))"
proof -
  let ?acc = "island_put a x (f x)"
  have order: "map snd (ia_of_root a) = [0..<length (ia_members a)]" using inv by (simp add: island_inv_def)
  have "k \<in> set (map snd (ia_of_root a))" using map_of_SomeD [OF Some] by force
  then have k: "k < length (ia_members a)" unfolding order by simp
  have keys: "fst ` set (ia_of_root a) = f ` set rows" using inv by (simp add: island_inv_def)
  have "f x \<in> fst ` set (ia_of_root a)" using map_of_SomeD [OF Some] by force
  then have fx: "f x \<in> f ` set rows" unfolding keys .
  have lab: "ia_of_root ?acc = ia_of_root a" "ia_of_row ?acc = (ia_of_row a)[x := Some k]"
    "ia_members ?acc = (ia_members a)[k := ia_members a ! k @ [x]]"
    using Some by (simp_all add: island_put_def Let_def)
  have len: "length (ia_of_row a) = n" using inv by (simp add: island_inv_def)
  have other: "r \<noteq> x \<Longrightarrow> ia_of_row ?acc ! r = ia_of_row a ! r" for r by (simp add: lab)
  have "ia_of_row ?acc ! r = (if r \<in> set (rows @ [x]) then map_of (ia_of_root ?acc) (f r) else None)" if "r < n" for r
    using that Some len inv other by (cases "r = x") (simp_all add: lab island_inv_def)
  moreover have "ia_members ?acc ! i = filter (\<lambda>r. ia_of_row ?acc ! r = Some i) (rows @ [x])"
    if "i < length (ia_members ?acc)" for i
  proof -
    have "filter (\<lambda>r. ia_of_row ?acc ! r = Some i) rows = filter (\<lambda>r. ia_of_row a ! r = Some i) rows"
      using x(1) other by (intro filter_cong refl) metis
    moreover have "ia_members a ! i = filter (\<lambda>r. ia_of_row a ! r = Some i) rows"
      using inv that by (simp add: lab island_inv_def)
    ultimately show ?thesis using that x(2) len k by (cases "i = k") (simp_all add: lab)
  qed
  moreover have "fst ` set (ia_of_root ?acc) = f ` set (rows @ [x])"
    using inv fx by (simp add: lab island_inv_def insert_absorb)
  ultimately show ?thesis using len inv by (simp add: island_inv_def lab)
qed

lemma island_put_fold:
  assumes "distinct rows" "\<forall>r \<in> set rows. r < n"
  shows "island_inv f n rows (fold (\<lambda>x acc. island_put acc x (f x)) rows
     \<lparr>ia_of_root = [], ia_of_row = replicate n None, ia_members = []\<rparr>)"
  using assms
proof (induction rows rule: rev_induct)
  case Nil
  then show ?case by (simp add: island_inv_def)
next
  case (snoc x rows)
  let ?a = "fold (\<lambda>x acc. island_put acc x (f x)) rows \<lparr>ia_of_root = [], ia_of_row = replicate n None, ia_members = []\<rparr>"
  have "island_inv f n rows ?a" "x \<notin> set rows" "x < n" "\<forall>r \<in> set rows. r < n" using snoc by simp_all
  then have "island_inv f n (rows @ [x]) (island_put ?a x (f x))"
    by (cases "map_of (ia_of_root ?a) (f x)") (rule island_inv_new island_inv_old; assumption)+
  then show ?case by simp
qed

lemma dense_islands_labels:
  assumes "\<forall>(a, b) \<in> set (zip fr to'). a < n \<and> b < n"
  shows "\<exists>labels. dense_islands n fr to' = Some labels \<and> length labels = n \<and>
     (\<forall>x < n. \<forall>y < n. labels ! x = labels ! y \<longleftrightarrow> (x, y) \<in> conn (zip fr to')) \<and>
     (\<forall>i < n. labels ! i \<le> card (set (take i labels)))"
proof -
  from uf.joins_components [of "[0..<n]" "zip fr to'"] assms obtain p where p:
    "fold_opt join [0..<n] (zip fr to') = Some p" "forest p" "length p = n"
    "\<forall>x < n. \<forall>y < n. rep_of p x = rep_of p y \<longleftrightarrow> (x, y) \<in> conn (zip fr to')"
    by (auto simp: forest_initial)
  define acc where "acc = fold (\<lambda>x acc. label_put acc x (rep_of p x)) [0..<n] \<lparr>la_label = [], la_out = []\<rparr>"
  note f = label_put_fold [OF acc_def]
  from uf.scan_representatives [of p "[0..<n]" "\<lambda>_. False" label_put "\<lparr>la_label = [], la_out = []\<rparr>"] p(2,3)
  have run: "dense_islands n fr to' = Some (la_out acc)"
    by (auto simp: dense_islands_def p(1) acc_def)
  have len: "length (la_out acc) = n" using arg_cong [OF f(4), of length] by simp
  have eq: "la_out acc ! x = la_out acc ! y \<longleftrightarrow> rep_of p x = rep_of p y" if "x < n" "y < n" for x y
  proof -
    have xy: "x \<in> set [0..<n]" "y \<in> set [0..<n]" using that by auto
    have at: "la_out acc ! z = the (map_of (la_label acc) (rep_of p z))" if "z < n" for z
      using that by (subst f(4)) simp
    from labels_separate [OF f(1,3) xy] labels_separate(2) [OF f(1,3) xy(2,1)] show ?thesis
      by (auto simp: at that)
  qed
  have "\<forall>x < n. \<forall>y < n. la_out acc ! x = la_out acc ! y \<longleftrightarrow> (x, y) \<in> conn (zip fr to')"
    using eq p(4) by blast
  then show ?thesis using run len f(6) by auto
qed


section \<open>The islands of a network\<close>

abbreviation edges :: "network \<Rightarrow> (nat \<times> nat) list" where
  "edges net \<equiv> branch_edges net @ transformer_edges net"

abbreviation active :: "network \<Rightarrow> nat \<Rightarrow> bool" where
  "active net r \<equiv> r < length (buses net) \<and> \<not> isolated_row net r"

lemma active_row_active: "active_row net i = Some r \<Longrightarrow> active net r \<and> bus_id (buses net ! r) = i"
  by (auto simp: active_row_def isolated_row_def split: option.splits if_splits dest!: last_index_map_bound)

lemma windows2_set: "(x, y) \<in> set (windows2 xs) \<Longrightarrow> x \<in> set xs \<and> y \<in> set xs"
  by (induction xs rule: windows2.induct) auto

lemma map_filter_set: "set (List.map_filter g xs) = {y. \<exists>x \<in> set xs. g x = Some y}"
  by (force simp: List.map_filter_def)

lemma branch_edges_set:
  "(x, y) \<in> set (branch_edges net) \<longleftrightarrow>
     (\<exists>b \<in> set (branches net). br_in_service b \<and> active_row net (br_from b) = Some x \<and> active_row net (br_to b) = Some y)"
  by (auto simp: branch_edges_def map_filter_set split: option.splits)

lemma transformer_edges_set:
  "(x, y) \<in> set (transformer_edges net) \<longleftrightarrow>
     (\<exists>t \<in> set (transformers_3w net). t3_in_service t \<and> (x, y) \<in> set (windows2 (List.map_filter (active_row net) (windings t))))"
  by (auto simp: transformer_edges_def)

lemma edges_active: "(x, y) \<in> set (edges net) \<Longrightarrow> active net x \<and> active net y"
proof -
  assume "(x, y) \<in> set (edges net)"
  then consider "(x, y) \<in> set (branch_edges net)" | "(x, y) \<in> set (transformer_edges net)" by auto
  then show ?thesis
  proof cases
    case 1
    then show ?thesis using active_row_active by (auto simp: branch_edges_set)
  next
    case 2
    then show ?thesis using active_row_active
      by (fastforce simp: transformer_edges_set map_filter_set dest!: windows2_set)
  qed
qed

definition islands_ok :: "network \<Rightarrow> islands \<Rightarrow> bool" where
  "islands_ok net comps \<longleftrightarrow>
     row_of comps = last_index_map (map bus_id (buses net)) \<and>
     length (island_of_row comps) = length (buses net) \<and>
     (\<forall>r < length (buses net). case island_of_row comps ! r of
         None \<Rightarrow> isolated_row net r | Some i \<Rightarrow> \<not> isolated_row net r \<and> i < length (members comps)) \<and>
     (\<forall>x y. active net x \<longrightarrow> active net y \<longrightarrow>
         island_of_row comps ! x = island_of_row comps ! y \<longleftrightarrow> (x, y) \<in> conn (edges net)) \<and>
     (\<forall>i < length (members comps). members comps ! i \<noteq> [] \<and>
         members comps ! i = filter (\<lambda>r. island_of_row comps ! r = Some i) [0..<length (buses net)])"

lemma islands_of_ok: "\<exists>comps. islands_of net = Some comps \<and> islands_ok net comps"
proof -
  let ?n = "length (buses net)"
  let ?rows = "filter (\<lambda>r. \<not> isolated_row net r) [0..<?n]"
  have bound: "\<forall>(a, b) \<in> set (edges net). a < length [0..<?n] \<and> b < length [0..<?n]" using edges_active by fastforce
  have inits: "forest [0..<?n]" "\<forall>x < length [0..<?n]. \<forall>y < length [0..<?n]. rep_of [0..<?n] x = rep_of [0..<?n] y \<longleftrightarrow> x = y"
    by (simp_all add: forest_initial)
  from uf.joins_components [OF inits bound] obtain p where p:
    "fold_opt join [0..<?n] (edges net) = Some p" "forest p" "length p = ?n"
    "\<forall>x < ?n. \<forall>y < ?n. rep_of p x = rep_of p y \<longleftrightarrow> (x, y) \<in> conn (edges net)"
    unfolding length_upt diff_zero by blast
  define acc where "acc = fold (\<lambda>x acc. island_put acc x (rep_of p x)) ?rows
     \<lparr>ia_of_root = [], ia_of_row = replicate ?n None, ia_members = []\<rparr>"
  define comps where "comps = \<lparr>row_of = last_index_map (map bus_id (buses net)), island_of_row = ia_of_row acc,
               members = ia_members acc\<rparr>"
  have run: "islands_of net = Some comps"
  proof -
    have "\<forall>x \<in> set [0..<?n]. x < length p" using p(3) by simp
    from uf.scan_representatives [OF p(2) this, of "isolated_row net" island_put
        "\<lparr>ia_of_root = [], ia_of_row = replicate ?n None, ia_members = []\<rparr>"]
    show ?thesis by (auto simp: islands_of_def p(1) acc_def comps_def Let_def)
  qed
  have inv: "island_inv (rep_of p) ?n ?rows acc" unfolding acc_def by (rule island_put_fold) auto
  note olen = island_inv_length [OF inv]
  have row: "r < ?n \<Longrightarrow> ia_of_row acc ! r = (if isolated_row net r then None else map_of (ia_of_root acc) (rep_of p r))" for r
    using inv by (simp add: island_inv_def)
  have none: "case ia_of_row acc ! r of None \<Rightarrow> isolated_row net r | Some i \<Rightarrow> \<not> isolated_row net r \<and> i < length (ia_members acc)"
    if "r < ?n" for r
    using island_inv_label [OF inv, of r] that row [OF that] by auto
  have same: "ia_of_row acc ! x = ia_of_row acc ! y \<longleftrightarrow> (x, y) \<in> conn (edges net)" if "active net x" "active net y" for x y
    using labels_separate(1) [of "ia_of_root acc" "rep_of p" ?rows x y] inv that p(4) olen
    by (simp add: row island_inv_def)
  have mem: "ia_members acc ! i = filter (\<lambda>r. ia_of_row acc ! r = Some i) [0..<?n]" if "i < length (ia_members acc)" for i
  proof -
    have "ia_members acc ! i = filter (\<lambda>r. ia_of_row acc ! r = Some i) ?rows" using inv that by (simp add: island_inv_def)
    also have "\<dots> = filter (\<lambda>r. ia_of_row acc ! r = Some i) [0..<?n]"
      by (simp only: filter_filter, rule filter_cong) (use row in auto)
    finally show ?thesis .
  qed
  have nonempty: "ia_members acc ! i \<noteq> []" if i: "i < length (ia_members acc)" for i
  proof -
    have "i \<in> set (map snd (ia_of_root acc))" using inv i by (simp add: island_inv_def)
    then obtain k where k: "(k, i) \<in> set (ia_of_root acc)" by auto
    have keys: "fst ` set (ia_of_root acc) = rep_of p ` set ?rows" and dist: "distinct (map fst (ia_of_root acc))"
      using inv by (simp_all add: island_inv_def)
    have "k \<in> rep_of p ` set ?rows" using k unfolding keys [symmetric] by force
    then obtain r where r: "r < ?n" "\<not> isolated_row net r" "k = rep_of p r" by auto
    with k dist row [OF r(1)] have "ia_of_row acc ! r = Some i" by simp
    then show ?thesis using mem [OF i] r(1) by (auto simp: filter_empty_conv)
  qed
  have sel: "row_of comps = last_index_map (map bus_id (buses net))" "island_of_row comps = ia_of_row acc"
    "members comps = ia_members acc" by (simp_all add: comps_def)
  have len: "length (ia_of_row acc) = ?n" using inv by (simp add: island_inv_def)
  have "islands_ok net comps" unfolding islands_ok_def sel using none same mem nonempty len by blast
  with run show ?thesis by blast
qed

text \<open>The reference notion: two rows linked by an in-service branch or three-winding transformer.\<close>

definition linked :: "network \<Rightarrow> nat \<Rightarrow> nat \<Rightarrow> bool" where
  "linked net x y \<longleftrightarrow>
     (\<exists>b \<in> set (branches net). br_in_service b \<and> active_row net (br_from b) = Some x \<and> active_row net (br_to b) = Some y) \<or>
     (\<exists>t \<in> set (transformers_3w net). t3_in_service t \<and>
        (\<exists>u \<in> set (windings t). active_row net u = Some x) \<and> (\<exists>u \<in> set (windings t). active_row net u = Some y))"

definition same_island :: "network \<Rightarrow> nat \<Rightarrow> nat \<Rightarrow> bool" where
  "same_island net = (\<lambda>x y. linked net x y \<or> linked net y x)\<^sup>*\<^sup>*"

lemma conn_edge: "(x, y) \<in> set es \<Longrightarrow> (x, y) \<in> conn es"
  unfolding conn_def by (rule r_into_rtrancl) blast

lemma conn_refl: "(x, x) \<in> conn es"
  by (simp add: conn_def)

lemma conn_mono: "set es \<subseteq> set fs \<Longrightarrow> (x, y) \<in> conn es \<Longrightarrow> (x, y) \<in> conn fs"
  unfolding conn_def by (rule rtrancl_mono [THEN subsetD]) auto

lemma windows2_conn: "x \<in> set xs \<Longrightarrow> y \<in> set xs \<Longrightarrow> (x, y) \<in> conn (windows2 xs)"
proof (induction xs arbitrary: x y rule: windows2.induct)
  case (1 a b xs)
  have mono: "(u, v) \<in> conn (windows2 (b # xs)) \<Longrightarrow> (u, v) \<in> conn (windows2 (a # b # xs))" for u v
    by (erule conn_mono [rotated]) auto
  have ab: "(a, b) \<in> conn (windows2 (a # b # xs))" by (rule conn_edge) simp
  have to_b: "(u, b) \<in> conn (windows2 (a # b # xs))" if "u \<in> set (a # b # xs)" for u
  proof (cases "u = a")
    case False
    with that have "u \<in> set (b # xs)" by simp
    then have "(u, b) \<in> conn (windows2 (b # xs))" by (rule "1.IH") simp
    then show ?thesis by (rule mono)
  qed (use ab in simp)
  show ?case using to_b [OF "1.prems"(1)] conn_sym [OF to_b [OF "1.prems"(2)]] by (rule conn_trans)
qed (auto simp: conn_refl)

lemma transformer_conn:
  assumes "t \<in> set (transformers_3w net)" "t3_in_service t" "u \<in> set (windings t)" "active_row net u = Some x"
    "v \<in> set (windings t)" "active_row net v = Some y"
  shows "(x, y) \<in> conn (edges net)"
proof -
  let ?rows = "List.map_filter (active_row net) (windings t)"
  have "x \<in> set ?rows" "y \<in> set ?rows" using assms by (auto simp: map_filter_set)
  then have "(x, y) \<in> conn (windows2 ?rows)" by (rule windows2_conn)
  moreover have "set (windows2 ?rows) \<subseteq> set (edges net)" using assms(1,2) by (auto simp: transformer_edges_def)
  ultimately show ?thesis by (rule conn_mono [rotated])
qed

lemma linked_conn: "linked net x y \<Longrightarrow> (x, y) \<in> conn (edges net)"
proof -
  assume "linked net x y"
  then consider "(x, y) \<in> set (branch_edges net)" | t u v where "t \<in> set (transformers_3w net)" "t3_in_service t"
    "u \<in> set (windings t)" "active_row net u = Some x" "v \<in> set (windings t)" "active_row net v = Some y"
    unfolding linked_def branch_edges_set by blast
  then show ?thesis
  proof cases
    case 1
    then show ?thesis by (intro conn_edge) simp
  qed (rule transformer_conn)
qed

lemma edge_linked: "(x, y) \<in> set (edges net) \<Longrightarrow> linked net x y"
  using windows2_set by (fastforce simp: linked_def branch_edges_set transformer_edges_set map_filter_set)

lemma same_island_conn: "same_island net x y \<longleftrightarrow> (x, y) \<in> conn (edges net)"
proof
  show "same_island net x y \<Longrightarrow> (x, y) \<in> conn (edges net)" unfolding same_island_def
  proof (induction rule: rtranclp_induct)
    case (step y z)
    then show ?case using linked_conn conn_sym conn_trans by blast
  qed (rule conn_refl)
  assume "(x, y) \<in> conn (edges net)"
  then show "same_island net x y" unfolding conn_def same_island_def
  proof (induction rule: rtrancl_induct)
    case (step y z)
    then have "linked net y z \<or> linked net z y" using edge_linked by blast
    with step.IH show ?case by (rule rtranclp.rtrancl_into_rtrancl)
  qed simp
qed

section \<open>Supply and references\<close>

lemma fold_mark:
  "length (fold (\<lambda>x v. case g x of None \<Rightarrow> v | Some i \<Rightarrow> v[i := True]) xs v) = length v \<and>
   (\<forall>j < length v. fold (\<lambda>x v. case g x of None \<Rightarrow> v | Some i \<Rightarrow> v[i := True]) xs v ! j \<longleftrightarrow>
      v ! j \<or> (\<exists>x \<in> set xs. g x = Some j))"
proof (induction xs arbitrary: v)
  case (Cons x xs)
  let ?v = "case g x of None \<Rightarrow> v | Some i \<Rightarrow> v[i := True]"
  have len: "length ?v = length v" by (simp split: option.splits)
  have "?v ! j \<longleftrightarrow> v ! j \<or> g x = Some j" if "j < length v" for j
  proof (cases "g x")
    case (Some k)
    then show ?thesis using that by (cases "k = j") simp_all
  qed simp
  with Cons.IH [of ?v] len show ?case by auto
qed simp

lemma supplied_iff:
  "length (supplied comps net) = length (members comps)"
  "i < length (members comps) \<Longrightarrow> supplied comps net ! i \<longleftrightarrow>
     (\<exists>g \<in> set (generators net). gen_in_service g \<and> island_of comps (gen_bus g) = Some i)"
  using fold_mark [of "\<lambda>g. island_of comps (gen_bus g)" "filter gen_in_service (generators net)"
      "replicate (length (members comps)) False"]
  by (auto simp: supplied_def)

lemma referenced_iff:
  assumes "i < length (members comps)"
  shows "referenced net comps policy ! i \<longleftrightarrow>
     (\<exists>r < length (buses net). kind (buses net ! r) = Ref \<and> reference_counts net policy (buses net ! r) \<and>
        island_of_row comps ! r = Some i)"
proof -
  let ?c = "\<lambda>row. kind (buses net ! row) = Ref \<and> reference_counts net policy (buses net ! row)"
  let ?g = "\<lambda>row. if ?c row then island_of_row comps ! row else None"
  have "(\<lambda>row ref. if ?c row then (case island_of_row comps ! row of None \<Rightarrow> ref | Some i \<Rightarrow> ref[i := True]) else ref) =
      (\<lambda>row ref. case ?g row of None \<Rightarrow> ref | Some i \<Rightarrow> ref[i := True])" by (intro ext) simp
  then have "referenced net comps policy = fold (\<lambda>row ref. case ?g row of None \<Rightarrow> ref | Some i \<Rightarrow> ref[i := True])
      [0..<length (buses net)] (replicate (length (members comps)) False)" by (simp only: referenced_def)
  then show ?thesis
    using assms fold_mark [of ?g "[0..<length (buses net)]" "replicate (length (members comps)) False"]
    by (auto split: if_splits)
qed

definition ranked_pmax :: "generator \<Rightarrow> f64" where
  "ranked_pmax g = (if is_nan (gen_pmax g) then f64_INFINITY True else gen_pmax g)"

lemma largest_fold:
  assumes "i < m"
  shows "length (fold (largest_step comps) gs (replicate m None)) = m \<and>
    (case fold (largest_step comps) gs (replicate m None) ! i of
      None \<Rightarrow> \<forall>g \<in> set gs. island_of comps (gen_bus g) \<noteq> Some i
    | Some (v, row) \<Rightarrow> island_of_row comps ! row = Some i \<and>
        (\<exists>g \<in> set gs. row_of comps (gen_bus g) = Some row \<and> v = ranked_pmax g) \<and>
        (\<forall>g \<in> set gs. island_of comps (gen_bus g) = Some i \<longrightarrow> \<not> v < ranked_pmax g))"
proof (induction gs rule: rev_induct)
  case Nil
  then show ?case using assms by simp
next
  case (snoc g gs)
  let ?L = "fold (largest_step comps) gs (replicate m None)"
  show ?case
  proof (cases "island_of comps (gen_bus g)")
    case None
    then have "largest_step comps g ?L = ?L"
      by (auto simp: largest_step_def island_of_def split: option.splits)
    with snoc None show ?thesis by (auto split: option.splits)
  next
    case (Some k)
    then obtain row where row: "row_of comps (gen_bus g) = Some row" "island_of_row comps ! row = Some k"
      by (auto simp: island_of_def split: bind_splits)
    have step: "largest_step comps g ?L =
       (if (case ?L ! k of None \<Rightarrow> True | Some (best, _) \<Rightarrow> best < ranked_pmax g)
        then ?L[k := Some (ranked_pmax g, row)] else ?L)"
      unfolding largest_step_def row option.case Let_def ranked_pmax_def [symmetric] by (rule refl)
    show ?thesis
    proof (cases "case ?L ! k of None \<Rightarrow> True | Some (best, _) \<Rightarrow> best < ranked_pmax g")
      case True
      then have "fold (largest_step comps) (gs @ [g]) (replicate m None) = ?L[k := Some (ranked_pmax g, row)]"
        by (simp add: step)
      with snoc row Some assms True show ?thesis
        by (cases "k = i") (auto simp: f64_less_irrefl dest: f64_less_trans split: option.splits)
    next
      case False
      then have "fold (largest_step comps) (gs @ [g]) (replicate m None) = ?L" by (simp add: step)
      with snoc Some False show ?thesis by (auto split: option.splits)
    qed
  qed
qed

lemma designate_set:
  assumes ok: "islands_ok net comps"
  shows "r \<in> set (designate_references net comps (supplied comps net) policy) \<Longrightarrow>
      \<exists>i < length (members comps). supplied comps net ! i \<and> \<not> referenced net comps policy ! i \<and>
        island_of_row comps ! r = Some i \<and>
        (\<exists>g \<in> set (generators net). gen_in_service g \<and> row_of comps (gen_bus g) = Some r)"
    and "i < length (members comps) \<Longrightarrow> supplied comps net ! i \<Longrightarrow> \<not> referenced net comps policy ! i \<Longrightarrow>
      \<exists>r \<in> set (designate_references net comps (supplied comps net) policy). island_of_row comps ! r = Some i"
proof -
  let ?gs = "filter gen_in_service (generators net)"
  let ?L = "fold (largest_step comps) ?gs (replicate (length (members comps)) None)"
  have set: "set (designate_references net comps (supplied comps net) policy) =
      {r. \<exists>i < length (members comps). supplied comps net ! i \<and> \<not> referenced net comps policy ! i \<and> (\<exists>v. ?L ! i = Some (v, r))}"
    by (force simp: designate_references_def map_filter_set Let_def)
  show "\<exists>i < length (members comps). supplied comps net ! i \<and> \<not> referenced net comps policy ! i \<and>
        island_of_row comps ! r = Some i \<and>
        (\<exists>g \<in> set (generators net). gen_in_service g \<and> row_of comps (gen_bus g) = Some r)"
    if "r \<in> set (designate_references net comps (supplied comps net) policy)"
  proof -
    from that [unfolded set] obtain i v where i: "i < length (members comps)" "supplied comps net ! i"
      "\<not> referenced net comps policy ! i" "?L ! i = Some (v, r)" by blast
    with largest_fold [OF i(1), of comps ?gs] show ?thesis by auto
  qed
  show "\<exists>r \<in> set (designate_references net comps (supplied comps net) policy). island_of_row comps ! r = Some i"
    if i: "i < length (members comps)" "supplied comps net ! i" "\<not> referenced net comps policy ! i"
  proof -
    from i(2) supplied_iff(2) [OF i(1)] obtain g where g: "g \<in> set ?gs" "island_of comps (gen_bus g) = Some i" by auto
    with largest_fold [OF i(1), of comps ?gs] obtain v r where r: "?L ! i = Some (v, r)" "island_of_row comps ! r = Some i"
      by (auto split: option.splits)
    with i show ?thesis unfolding set by blast
  qed
qed

section \<open>The adjusted network\<close>

lemma fold_set_kind:
  "length (fold (\<lambda>row bs. bs[row := (bs ! row)\<lparr>kind := k\<rparr>]) rows bs) = length bs \<and>
   (\<forall>r < length bs. fold (\<lambda>row bs. bs[row := (bs ! row)\<lparr>kind := k\<rparr>]) rows bs ! r =
      (if r \<in> set rows then (bs ! r)\<lparr>kind := k\<rparr> else bs ! r))"
proof (induction rows arbitrary: bs)
  case (Cons row rows)
  let ?bs = "bs[row := (bs ! row)\<lparr>kind := k\<rparr>]"
  show ?case
  proof (intro conjI allI impI)
    fix r assume r: "r < length bs"
    have IH: "fold (\<lambda>row bs. bs[row := (bs ! row)\<lparr>kind := k\<rparr>]) rows ?bs ! r =
        (if r \<in> set rows then (?bs ! r)\<lparr>kind := k\<rparr> else ?bs ! r)" using Cons.IH [of ?bs] r by simp
    show "fold (\<lambda>row bs. bs[row := (bs ! row)\<lparr>kind := k\<rparr>]) (row # rows) bs ! r =
        (if r \<in> set (row # rows) then (bs ! r)\<lparr>kind := k\<rparr> else bs ! r)"
      using IH r by (cases "r = row") simp_all
  qed (use Cons.IH [of ?bs] in simp)
qed simp

lemma adjust_buses:
  "length (buses (adjust net isolate designate)) = length (buses net)"
  "r < length (buses net) \<Longrightarrow> buses (adjust net isolate designate) ! r =
     (if r \<in> set designate then (buses net ! r)\<lparr>kind := Ref\<rparr>
      else if r \<in> set isolate then (buses net ! r)\<lparr>kind := Isolated\<rparr> else buses net ! r)"
proof -
  note f = fold_set_kind [of Isolated isolate "buses net"]
  note g = fold_set_kind [of Ref designate "fold (\<lambda>row bs. bs[row := (bs ! row)\<lparr>kind := Isolated\<rparr>]) isolate (buses net)"]
  show "length (buses (adjust net isolate designate)) = length (buses net)"
    using f g by (simp add: adjust_def Let_def)
  show "r < length (buses net) \<Longrightarrow> buses (adjust net isolate designate) ! r =
     (if r \<in> set designate then (buses net ! r)\<lparr>kind := Ref\<rparr>
      else if r \<in> set isolate then (buses net ! r)\<lparr>kind := Isolated\<rparr> else buses net ! r)"
    using f g by (simp add: adjust_def Let_def)
qed

lemma adjust_rest:
  "generators (adjust net isolate designate) = generators net" "branches (adjust net isolate designate) = branches net"
  "loads (adjust net isolate designate) = loads net"
  by (simp_all add: adjust_def Let_def)

lemma islands_ok_row:
  assumes "islands_ok net comps" "r < length (buses net)"
  shows "island_of_row comps ! r = None \<longleftrightarrow> isolated_row net r"
    and "island_of_row comps ! r = Some i \<Longrightarrow> i < length (members comps)"
proof -
  from assms have "case island_of_row comps ! r of None \<Rightarrow> isolated_row net r
     | Some i \<Rightarrow> \<not> isolated_row net r \<and> i < length (members comps)" by (simp add: islands_ok_def)
  then show "island_of_row comps ! r = None \<longleftrightarrow> isolated_row net r"
    "island_of_row comps ! r = Some i \<Longrightarrow> i < length (members comps)" by (auto split: option.splits)
qed

lemma islands_ok_members:
  assumes "islands_ok net comps" "i < length (members comps)"
  shows "set (members comps ! i) = {r. r < length (buses net) \<and> island_of_row comps ! r = Some i}"
proof -
  have "members comps ! i = filter (\<lambda>r. island_of_row comps ! r = Some i) [0..<length (buses net)]"
    using assms by (simp add: islands_ok_def)
  then show ?thesis by auto
qed

definition deenergized_rows :: "network \<Rightarrow> islands \<Rightarrow> nat list" where
  "deenergized_rows net comps = concat (map snd (filter (\<lambda>(i, rows). \<not> supplied comps net ! i)
     (zip [0..<length (members comps)] (members comps))))"

lemma deenergized_rows_set:
  assumes "islands_ok net comps"
  shows "r \<in> set (deenergized_rows net comps) \<longleftrightarrow>
     r < length (buses net) \<and> (\<exists>i. island_of_row comps ! r = Some i \<and> \<not> supplied comps net ! i)"
proof -
  have "r \<in> set (deenergized_rows net comps) \<longleftrightarrow>
      (\<exists>i < length (members comps). \<not> supplied comps net ! i \<and> r \<in> set (members comps ! i))"
    by (force simp: deenergized_rows_def set_zip)
  also have "\<dots> \<longleftrightarrow> r < length (buses net) \<and> (\<exists>i. island_of_row comps ! r = Some i \<and> \<not> supplied comps net ! i)"
    using islands_ok_members [OF assms] islands_ok_row(2) [OF assms] by blast
  finally show ?thesis .
qed

text \<open>The network handed on is always the adjusted one: with nothing to adjust the two are equal.\<close>

lemma adjust_nothing: "adjust net [] [] = net"
  by (simp add: adjust_def Let_def)

lemma energize_network:
  assumes "islands_of net = Some comps"
  shows "\<exists>e. energize fmt1 net policy = Some e \<and>
     energized_network e net = adjust net (deenergized_rows net comps) (designate_references net comps (supplied comps net) policy)"
proof (cases "deenergized_rows net comps = [] \<and> designate_references net comps (supplied comps net) policy = []")
  case True
  then show ?thesis
    unfolding energize_def assms bind.simps Let_def deenergized_rows_def [symmetric] energized_network_def
    by (simp add: adjust_nothing)
next
  case False
  show ?thesis
    unfolding energize_def assms bind.simps Let_def deenergized_rows_def [symmetric] energized_network_def if_not_P [OF False]
    by simp
qed

lemma islands_ok_same:
  assumes "islands_ok net comps" "active net x" "active net y"
  shows "island_of_row comps ! x = island_of_row comps ! y \<longleftrightarrow> same_island net x y"
  using assms unfolding islands_ok_def same_island_conn by blast

lemma island_of_active_row:
  assumes "islands_ok net comps"
  shows "island_of comps b = Some i \<longleftrightarrow> (\<exists>q. active_row net b = Some q \<and> island_of_row comps ! q = Some i)"
proof (cases "last_index_map (map bus_id (buses net)) b")
  case None
  then show ?thesis using assms by (simp add: island_of_def active_row_def islands_ok_def)
next
  case (Some q)
  then have q: "q < length (buses net)" by (auto dest: last_index_map_bound)
  have "row_of comps b = Some q" using assms Some by (simp add: islands_ok_def)
  then show ?thesis using Some islands_ok_row(1) [OF assms q]
    by (auto simp: island_of_def active_row_def isolated_row_def)
qed

lemma supplied_same_island:
  assumes "islands_ok net comps" "active net r" "island_of_row comps ! r = Some i"
  shows "supplied comps net ! i \<longleftrightarrow>
    (\<exists>g \<in> set (generators net). gen_in_service g \<and> (\<exists>q. active_row net (gen_bus g) = Some q \<and> same_island net r q))"
proof -
  have i: "i < length (members comps)" using islands_ok_row(2) [OF assms(1)] assms(2,3) by blast
  have eq: "island_of comps (gen_bus g) = Some i \<longleftrightarrow> (\<exists>q. active_row net (gen_bus g) = Some q \<and> same_island net r q)" for g
    unfolding island_of_active_row [OF assms(1)]
    using islands_ok_same [OF assms(1,2)] active_row_active assms(3) by metis
  show ?thesis unfolding supplied_iff(2) [OF i] eq ..
qed

abbreviation adjusted :: "network \<Rightarrow> islands \<Rightarrow> ReferencePolicy \<Rightarrow> network" where
  "adjusted net comps policy \<equiv>
     adjust net (deenergized_rows net comps) (designate_references net comps (supplied comps net) policy)"

lemma adjusted_isolated:
  assumes "islands_ok net comps" "r < length (buses net)"
  shows "isolated_row (adjusted net comps policy) r \<longleftrightarrow>
    isolated_row net r \<or> (\<exists>i. island_of_row comps ! r = Some i \<and> \<not> supplied comps net ! i)"
proof -
  let ?D = "designate_references net comps (supplied comps net) policy"
  have "r \<in> set ?D \<Longrightarrow> \<not> isolated_row net r \<and> (\<exists>i. island_of_row comps ! r = Some i \<and> supplied comps net ! i)"
    using designate_set(1) [OF assms(1)] islands_ok_row(1) [OF assms] by fastforce
  then show ?thesis
    using adjust_buses(2) [OF assms(2)] deenergized_rows_set [OF assms(1)] assms(2)
    by (auto simp: isolated_row_def)
qed

lemma adjusted_ids: "map bus_id (buses (adjust net isolate designate)) = map bus_id (buses net)"
  by (rule nth_equalityI) (simp_all add: adjust_buses)

lemma adjusted_active_row:
  assumes "islands_ok net comps"
  shows "active_row (adjusted net comps policy) b = Some q \<longleftrightarrow>
    active_row net b = Some q \<and> \<not> isolated_row (adjusted net comps policy) q"
proof (cases "last_index_map (map bus_id (buses net)) b")
  case (Some q')
  then have "q' < length (buses net)" by (auto dest: last_index_map_bound)
  from adjusted_isolated [OF assms this, of policy] Some show ?thesis
    by (auto simp: active_row_def adjusted_ids isolated_row_def)
qed (simp add: active_row_def adjusted_ids)

lemma adjusted_keeps_island:
  assumes "islands_ok net comps" "same_island net x y" "active net x" "active net y"
  shows "isolated_row (adjusted net comps policy) x \<longleftrightarrow> isolated_row (adjusted net comps policy) y"
  using adjusted_isolated [OF assms(1), of x policy] adjusted_isolated [OF assms(1), of y policy]
    islands_ok_same [OF assms(1,3,4)] assms(2-4) by simp

lemma same_island_linked: "linked net x y \<Longrightarrow> same_island net x y"
  unfolding same_island_def by (rule r_into_rtranclp) blast

lemma linked_active: "linked net x y \<Longrightarrow> active net x \<and> active net y"
  using active_row_active by (fastforce simp: linked_def)

lemma winding_not_isolated:
  assumes ok: "islands_ok net comps" and ids: "distinct (map bus_id (buses net))"
    and t: "t \<in> set (transformers_3w net)" "t3_in_service t"
    and u: "u \<in> set (windings t)" "active_row net u = Some x" "\<not> isolated_row (adjusted net comps policy) x"
    and w: "w \<in> set (windings t)"
  shows "w \<notin> set (map (\<lambda>row. bus_id (buses net ! row)) (deenergized_rows net comps))"
proof
  assume "w \<in> set (map (\<lambda>row. bus_id (buses net ! row)) (deenergized_rows net comps))"
  then obtain q i where q: "q < length (buses net)" "w = bus_id (buses net ! q)" "island_of_row comps ! q = Some i"
    "\<not> supplied comps net ! i" using deenergized_rows_set [OF ok] by auto
  have "last_index_map (map bus_id (buses net)) w = Some q"
    using last_index_map_distinct [OF ids, of q] q(1,2) by simp
  moreover have active: "\<not> isolated_row net q" using islands_ok_row(1) [OF ok q(1)] q(3) by simp
  ultimately have wq: "active_row net w = Some q" by (simp add: active_row_def isolated_row_def)
  then have "linked net x q" using t u w by (auto simp: linked_def)
  then have "isolated_row (adjusted net comps policy) q = isolated_row (adjusted net comps policy) x"
    using adjusted_keeps_island [OF ok same_island_linked] linked_active by blast
  with adjusted_isolated [OF ok q(1), of policy] q(3,4) u(3) show False by auto
qed

lemma adjusted_linked:
  assumes ok: "islands_ok net comps" and ids: "distinct (map bus_id (buses net))"
    and xy: "linked net x y" and x: "\<not> isolated_row (adjusted net comps policy) x"
  shows "linked (adjusted net comps policy) x y \<and> \<not> isolated_row (adjusted net comps policy) y"
proof
  let ?net = "adjusted net comps policy"
  show y: "\<not> isolated_row ?net y"
    using adjusted_keeps_island [OF ok same_island_linked [OF xy]] linked_active [OF xy] x by blast
  note row = adjusted_active_row [OF ok, of policy]
  from xy consider b where "b \<in> set (branches net)" "br_in_service b" "active_row net (br_from b) = Some x" "active_row net (br_to b) = Some y"
    | t u v where "t \<in> set (transformers_3w net)" "t3_in_service t" "u \<in> set (windings t)" "active_row net u = Some x"
      "v \<in> set (windings t)" "active_row net v = Some y"
    unfolding linked_def by blast
  then show "linked ?net x y"
  proof cases
    case (1 b)
    then show ?thesis using x y by (auto simp: linked_def row adjust_rest)
  next
    case (2 t u v)
    have "t \<in> set (transformers_3w ?net)"
      using winding_not_isolated [OF ok ids 2(1-4) x] 2(1) by (force simp: adjust_def Let_def)
    then show ?thesis using 2 x y by (auto simp: linked_def row)
  qed
qed

lemma linked_sym_step:
  assumes ok: "islands_ok net comps" and ids: "distinct (map bus_id (buses net))"
    and xy: "linked net x y \<or> linked net y x" and x: "\<not> isolated_row (adjusted net comps policy) x"
  shows "(linked (adjusted net comps policy) x y \<or> linked (adjusted net comps policy) y x) \<and>
     \<not> isolated_row (adjusted net comps policy) y"
  using xy
proof
  assume l: "linked net y x"
  have "\<not> isolated_row (adjusted net comps policy) y"
    using adjusted_keeps_island [OF ok same_island_linked [OF l]] linked_active [OF l] x by blast
  with adjusted_linked [OF ok ids l this] show ?thesis by blast
qed (use adjusted_linked [OF ok ids _ x] in blast)

text \<open>An island that stays in the solve stays connected.\<close>

lemma adjusted_same_island:
  assumes ok: "islands_ok net comps" and ids: "distinct (map bus_id (buses net))"
    and "same_island net x y" and x: "\<not> isolated_row (adjusted net comps policy) x"
  shows "same_island (adjusted net comps policy) x y \<and> \<not> isolated_row (adjusted net comps policy) y"
  using assms(3) unfolding same_island_def
proof (induction rule: rtranclp_induct)
  case (step y z)
  then show ?case using linked_sym_step [OF ok ids step.hyps(2)]
    by (blast intro: rtranclp.rtrancl_into_rtrancl)
qed (use x in blast)

lemma designated_row:
  assumes ok: "islands_ok net comps"
    and r: "r \<in> set (designate_references net comps (supplied comps net) policy)"
  shows "(\<exists>g \<in> set (generators net). gen_in_service g \<and> active_row net (gen_bus g) = Some r) \<and>
     (\<forall>q < length (buses net). same_island net r q \<longrightarrow> kind (buses net ! q) = Ref \<longrightarrow>
        \<not> reference_counts net policy (buses net ! q))"
proof -
  from designate_set(1) [OF ok r] obtain i g where i: "i < length (members comps)" "\<not> referenced net comps policy ! i"
    "island_of_row comps ! r = Some i" and g: "g \<in> set (generators net)" "gen_in_service g" "row_of comps (gen_bus g) = Some r"
    by blast
  have "island_of comps (gen_bus g) = Some i" using g(3) i(3) by (simp add: island_of_def)
  then obtain q where "active_row net (gen_bus g) = Some q" unfolding island_of_active_row [OF ok] by blast
  moreover have "q = r" using g(3) ok calculation
    by (auto simp: islands_ok_def active_row_def split: option.splits if_splits)
  ultimately have gr: "active_row net (gen_bus g) = Some r" by simp
  have act: "active net r" using active_row_active [OF gr] by simp
  have "\<not> reference_counts net policy (buses net ! q)"
    if q: "q < length (buses net)" "same_island net r q" "kind (buses net ! q) = Ref" for q
  proof -
    have "active net q" using q(1,3) by (simp add: isolated_row_def)
    with islands_ok_same [OF ok act this] q(2) i(3) have "island_of_row comps ! q = Some i" by simp
    with i(2) referenced_iff [OF i(1), of net policy] q show ?thesis by blast
  qed
  with g gr show ?thesis by blast
qed

lemma reference_in_island:
  assumes ok: "islands_ok net comps" and act: "active net r" and i: "island_of_row comps ! r = Some i"
    and fed: "supplied comps net ! i"
  shows "\<exists>q. active net q \<and> same_island net r q \<and> kind (buses (adjusted net comps policy) ! q) = Ref \<and>
     reference_counts (adjusted net comps policy) policy (buses (adjusted net comps policy) ! q)"
proof -
  let ?net = "adjusted net comps policy" and ?D = "designate_references net comps (supplied comps net) policy"
  have il: "i < length (members comps)" using islands_ok_row(2) [OF ok] act i by blast
  have counts: "reference_counts ?net policy (buses ?net ! q) = reference_counts net policy (buses net ! q)"
    if "q < length (buses net)" for q
    using adjust_buses(2) [OF that] by (simp add: reference_counts_def generator_buses_def adjust_rest split: ReferencePolicy.splits)
  show ?thesis
  proof (cases "referenced net comps policy ! i")
    case True
    then obtain q where q: "q < length (buses net)" "kind (buses net ! q) = Ref" "reference_counts net policy (buses net ! q)"
      "island_of_row comps ! q = Some i" unfolding referenced_iff [OF il] by blast
    then have aq: "active net q" by (simp add: isolated_row_def)
    have "q \<notin> set (deenergized_rows net comps)" using deenergized_rows_set [OF ok] q(4) fed by simp
    then have "kind (buses ?net ! q) = Ref" using adjust_buses(2) [OF q(1)] q(2) by simp
    moreover have "same_island net r q" using islands_ok_same [OF ok act aq] i q(4) by simp
    ultimately show ?thesis using aq counts [OF q(1)] q(3) by blast
  next
    case False
    from designate_set(2) [OF ok il fed False] obtain q where q: "q \<in> set ?D" "island_of_row comps ! q = Some i" by blast
    from designated_row [OF ok q(1)] obtain g where g: "g \<in> set (generators net)" "gen_in_service g" "active_row net (gen_bus g) = Some q" by blast
    have aq: "active net q" "bus_id (buses net ! q) = gen_bus g" using active_row_active [OF g(3)] by simp_all
    have "reference_counts net policy (buses net ! q)"
      using g(1,2) aq(2) by (auto simp: reference_counts_def generator_buses_def split: ReferencePolicy.splits)
    moreover have "kind (buses ?net ! q) = Ref" using adjust_buses(2) [of q net] aq(1) q(1) by simp
    moreover have "same_island net r q" using islands_ok_same [OF ok act aq(1)] i q(2) by simp
    ultimately show ?thesis using aq(1) counts by blast
  qed
qed

section \<open>Properties\<close>

text \<open>C29: the island search always returns, and its labels are exactly the connected components: an isolated
  bus has no island, two other buses share an island just when in-service branches and three-winding
  transformers connect them, every island is non-empty, and its members are its rows in row order.\<close>

theorem islands_of_components:
  "\<exists>comps. islands_of net = Some comps \<and>
     length (island_of_row comps) = length (buses net) \<and>
     (\<forall>r < length (buses net). island_of_row comps ! r = None \<longleftrightarrow> kind (buses net ! r) = Isolated) \<and>
     (\<forall>x < length (buses net). \<forall>y < length (buses net).
        kind (buses net ! x) \<noteq> Isolated \<longrightarrow> kind (buses net ! y) \<noteq> Isolated \<longrightarrow>
        (island_of_row comps ! x = island_of_row comps ! y \<longleftrightarrow> same_island net x y)) \<and>
     (\<forall>i < length (members comps). members comps ! i \<noteq> [] \<and>
        members comps ! i = filter (\<lambda>r. island_of_row comps ! r = Some i) [0..<length (buses net)])"
proof -
  obtain comps where run: "islands_of net = Some comps" and ok: "islands_ok net comps" using islands_of_ok by blast
  have "\<forall>r < length (buses net). island_of_row comps ! r = None \<longleftrightarrow> kind (buses net ! r) = Isolated"
    using islands_ok_row(1) [OF ok] by (simp add: isolated_row_def)
  moreover have "island_of_row comps ! x = island_of_row comps ! y \<longleftrightarrow> same_island net x y"
    if "x < length (buses net)" "y < length (buses net)" "kind (buses net ! x) \<noteq> Isolated" "kind (buses net ! y) \<noteq> Isolated" for x y
    using islands_ok_same [OF ok] that by (simp add: isolated_row_def)
  ultimately show ?thesis using run ok unfolding islands_ok_def by blast
qed

definition pair_net :: network where
  "pair_net = \<lparr>buses = [\<lparr>bus_id = 4, bus_uid = None, kind = OtherKind 1, bus_rest = []\<rparr>,
                      \<lparr>bus_id = 9, bus_uid = None, kind = OtherKind 1, bus_rest = []\<rparr>,
                      \<lparr>bus_id = 2, bus_uid = None, kind = Ref, bus_rest = []\<rparr>],
     loads = [], branches = [\<lparr>br_from = 9, br_to = 4, br_uid = None, br_in_service = True, br_r = 0, br_x = 1, rate_a = 1, br_rest = []\<rparr>],
     generators = [\<lparr>gen_bus = 9, gen_uid = None, gen_pmax = 1, gen_in_service = True, gen_rest = []\<rparr>],
     transformers_3w = [], net_base_mva = 1, is_normalized = False, net_rest = []\<rparr>"

theorem islands_of_components_witness:
  "map_option island_of_row (islands_of pair_net) = Some [Some 0, Some 0, Some 1] \<and>
   same_island pair_net 0 1 \<and> \<not> same_island pair_net 0 2"
proof -
  have run: "map_option island_of_row (islands_of pair_net) = Some [Some 0, Some 0, Some 1]" by code_simp
  have len: "length (buses pair_net) = 3" by (simp add: pair_net_def)
  have act: "kind (buses pair_net ! 0) \<noteq> Isolated" "kind (buses pair_net ! 1) \<noteq> Isolated" "kind (buses pair_net ! 2) \<noteq> Isolated"
    by (simp_all add: pair_net_def)
  from islands_of_components [of pair_net] obtain comps where c: "islands_of pair_net = Some comps"
    "\<forall>x < length (buses pair_net). \<forall>y < length (buses pair_net).
        kind (buses pair_net ! x) \<noteq> Isolated \<longrightarrow> kind (buses pair_net ! y) \<noteq> Isolated \<longrightarrow>
        (island_of_row comps ! x = island_of_row comps ! y \<longleftrightarrow> same_island pair_net x y)" by blast
  from c(1) run have "island_of_row comps = [Some 0, Some 0, Some 1]" by simp
  then show ?thesis using run act c(2) [rule_format, of 0 1] c(2) [rule_format, of 0 2] by (simp add: len)
qed

text \<open>Grouping the dense buses of a prepared model over its branches returns one label per bus; two
  buses get the same label exactly when branches connect them, and labels are numbered in order of
  each island's first bus.\<close>

theorem dense_islands_components:
  assumes "\<forall>(a, b) \<in> set (zip br_fr br_t). a < n \<and> b < n"
  shows "\<exists>labels. dense_islands n br_fr br_t = Some labels \<and> length labels = n \<and>
     (\<forall>x < n. \<forall>y < n. labels ! x = labels ! y \<longleftrightarrow> (x, y) \<in> conn (zip br_fr br_t)) \<and>
     (\<forall>i < n. labels ! i \<le> card (set (take i labels)))"
  using assms by (rule dense_islands_labels)

theorem dense_islands_components_witness:
  "dense_islands 5 [0, 3, 2] [1, 4, 4] = Some [0, 0, 1, 1, 1] \<and> (2, 3) \<in> conn (zip [0, 3, 2] [1, 4, 4])"
proof -
  have run: "dense_islands 5 [0, 3, 2] [1, 4, 4] = Some [0, 0, 1, 1, 1]" by code_simp
  have "\<forall>(a, b) \<in> set (zip [0, 3, 2 :: nat] [1, 4, 4 :: nat]). a < (5 :: nat) \<and> b < (5 :: nat)" by simp
  from dense_islands_components [OF this] run
  have "\<forall>x < 5. \<forall>y < 5. [0, 0, 1, 1, 1 :: nat] ! x = [0, 0, 1, 1, 1] ! y \<longleftrightarrow> (x, y) \<in> conn (zip [0, 3, 2] [1, 4, 4])"
    by (simp only: option.inject ex_simps) (elim exE conjE, simp)
  from this [rule_format, of 2 3] run show ?thesis by simp
qed



text \<open>C12: after energization every bus left in the solve lies in an island that an in-service generator
  supplies and that holds a reference bus counting under the policy. Bus ids are taken to be unique,
  as PowerIO validates.\<close>

theorem energize_islands_live:
  assumes ids: "distinct (map bus_id (buses net))"
    and e: "energize fmt1 net policy = Some e" and net': "net' = energized_network e net"
    and r: "r < length (buses net')" "kind (buses net' ! r) \<noteq> Isolated"
  shows "(\<exists>g \<in> set (generators net'). gen_in_service g \<and>
       (\<exists>q. active_row net' (gen_bus g) = Some q \<and> same_island net' r q)) \<and>
     (\<exists>q < length (buses net'). kind (buses net' ! q) = Ref \<and>
       reference_counts net' policy (buses net' ! q) \<and> same_island net' r q)"
proof -
  obtain comps where run: "islands_of net = Some comps" and ok: "islands_ok net comps" using islands_of_ok by blast
  have adj: "net' = adjusted net comps policy" using energize_network [OF run, of fmt1 policy] e net' by auto
  have r': "r < length (buses net)" "\<not> isolated_row net' r" using r by (simp_all add: adj adjust_buses(1) isolated_row_def)
  from adjusted_isolated [OF ok r'(1), of policy] r'(2) have "active net r" and
    "\<And>i. island_of_row comps ! r = Some i \<Longrightarrow> supplied comps net ! i" using r'(1) by (auto simp: adj)
  moreover from islands_ok_row(1) [OF ok r'(1)] obtain i where i: "island_of_row comps ! r = Some i"
    using calculation(1) by auto
  ultimately have act: "active net r" and fed: "supplied comps net ! i" by blast+
  have keep: "same_island net r q \<Longrightarrow> same_island net' r q \<and> \<not> isolated_row net' q" for q
    using adjusted_same_island [OF ok ids _ r'(2) [unfolded adj]] unfolding adj by blast
  from fed supplied_same_island [OF ok act i] obtain g q where "g \<in> set (generators net)" "gen_in_service g"
    "active_row net (gen_bus g) = Some q" "same_island net r q" by blast
  then have gen: "\<exists>g \<in> set (generators net'). gen_in_service g \<and>
       (\<exists>q. active_row net' (gen_bus g) = Some q \<and> same_island net' r q)"
    using keep adjusted_active_row [OF ok, of policy] by (auto simp: adj adjust_rest)
  from reference_in_island [OF ok act i fed, of policy] obtain q where q: "active net q" "same_island net r q"
    "kind (buses net' ! q) = Ref" "reference_counts net' policy (buses net' ! q)" unfolding adj by blast
  then have "q < length (buses net')" by (simp add: adj adjust_buses(1))
  with q keep gen show ?thesis by blast
qed

theorem energize_islands_live_witness:
  "\<exists>e q. energize (\<lambda>_. []) pair_net Stated = Some e \<and> same_island (energized_network e pair_net) 0 q \<and>
     kind (buses (energized_network e pair_net) ! q) = Ref"
proof -
  have run: "map_option (\<lambda>e. map kind (buses (energized_network e pair_net))) (energize (\<lambda>_. []) pair_net Stated) =
      Some [OtherKind 1, Ref, Isolated]" by code_simp
  then obtain e where e: "energize (\<lambda>_. []) pair_net Stated = Some e"
    "map kind (buses (energized_network e pair_net)) = [OtherKind 1, Ref, Isolated]" by auto
  have len: "length (buses (energized_network e pair_net)) = 3" using arg_cong [OF e(2), of length] by simp
  have "map kind (buses (energized_network e pair_net)) ! 0 = OtherKind 1" using e(2) by simp
  then have k: "kind (buses (energized_network e pair_net) ! 0) \<noteq> Isolated" using len by simp
  have ids: "distinct (map bus_id (buses pair_net))" by (simp add: pair_net_def)
  from energize_islands_live [OF ids e(1) refl, of 0] len k e(1) show ?thesis by auto
qed

end
