(* ===== verification/Graphs.thy ===== *)
theory Graphs
  imports Main
begin

text \<open>
  Adjacency lists over bus indices and what a search over them needs: the edges, the buses a start reaches, and the
  count of unvisited entries that makes a search end. Shared by \<open>Energized\<close> and \<open>Schematic\<close>.
\<close>

section \<open>Unvisited entries\<close>

definition unvisited :: "nat option list \<Rightarrow> nat" where
  "unvisited component = length (filter (\<lambda>c. c = None) component)"

lemma unvisited_update:
  assumes "i < length c" "c ! i = None"
  shows "Suc (unvisited (c[i := Some x])) = unvisited c"
proof -
  have "unvisited (take i c @ None # drop (Suc i) c) = Suc (unvisited (take i c @ Some x # drop (Suc i) c))"
    by (simp add: unvisited_def)
  moreover have "take i c @ None # drop (Suc i) c = c" using id_take_nth_drop [OF assms(1)] assms(2) by simp
  ultimately show ?thesis using assms(1) by (simp add: upd_conv_take_nth_drop)
qed

section \<open>Reachability over adjacency lists\<close>

definition edges :: "nat list list \<Rightarrow> (nat \<times> nat) set" where
  "edges adj = {(u, v). u < length adj \<and> v \<in> set (adj ! u)}"

definition proper :: "nat list list \<Rightarrow> bool" where
  "proper adj \<longleftrightarrow> sym (edges adj) \<and> edges adj \<subseteq> {..<length adj} \<times> {..<length adj}"

definition reach :: "nat list list \<Rightarrow> nat \<Rightarrow> nat set" where
  "reach adj s = {v. (s, v) \<in> (edges adj)\<^sup>*}"

lemma reach_self [simp]: "s \<in> reach adj s"
  by (simp add: reach_def)

lemma reach_step: "u \<in> reach adj s \<Longrightarrow> (u, v) \<in> edges adj \<Longrightarrow> v \<in> reach adj s"
  by (auto simp: reach_def)

lemma reach_least:
  assumes "s \<in> S" "\<And>u v. u \<in> S \<Longrightarrow> (u, v) \<in> edges adj \<Longrightarrow> v \<in> S"
  shows "reach adj s \<subseteq> S"
proof
  fix v assume "v \<in> reach adj s"
  then have "(s, v) \<in> (edges adj)\<^sup>*" by (simp add: reach_def)
  then show "v \<in> S" by induction (use assms in auto)
qed

lemma reach_sym: "proper adj \<Longrightarrow> v \<in> reach adj u \<longleftrightarrow> u \<in> reach adj v"
  by (auto simp: reach_def proper_def dest: sym_rtrancl symD)

lemma reach_eq: "proper adj \<Longrightarrow> v \<in> reach adj u \<Longrightarrow> reach adj v = reach adj u"
  using reach_sym [of adj v u] by (auto simp: reach_def)

lemma reach_bound: "proper adj \<Longrightarrow> s < length adj \<Longrightarrow> reach adj s \<subseteq> {..<length adj}"
  by (rule reach_least) (auto simp: proper_def)

end
