(* ===== verification/Energized.thy ===== *)
theory Energized
  imports Network Graphs
begin

text \<open>
  Islands of a multiconductor network (\<open>src/crates/tellegen/src/mc_pf/energized.rs\<close>): which islands of buses no
  voltage source reaches, the energized subset without them, and the record of the exclusion on a module. Names are
  compared without ASCII case; a bus index comes from the map of lower-case identities. The search keeps its component labels, its stack and its
  visited buses as the source does. PowerIO rows are records of the columns the program reads; modules, JSON and instances are fields
  of an \<open>mc_powerio\<close>.
\<close>

section \<open>The multiconductor network\<close>

text \<open>The columns of a PowerIO distribution network that the program reads; the rest of a row is opaque.\<close>

record mc_bus =
  mb_id :: string
  mb_rest :: string

record mc_line =
  ml_name :: string
  ml_from :: string
  ml_to :: string
  ml_rest :: string

record mc_switch =
  ms_name :: string
  ms_from :: string
  ms_to :: string
  ms_open :: bool
  ms_rest :: string

record mc_transformer =
  mt_name :: string
  mt_windings :: "string list"
  mt_rest :: string

record mc_unit =
  mu_name :: string
  mu_bus :: string
  mu_rest :: string

datatype LocationTarget = TBus | TLine | TSwitch | TTransformer | TLoad | TGenerator | TIbr | TShunt | TCapacitor | TSource | TOther string

record mc_location =
  loc_target :: LocationTarget
  loc_name :: string
  loc_rest :: string

record mc_network =
  mc_buses :: "mc_bus list"
  mc_lines :: "mc_line list"
  mc_switches :: "mc_switch list"
  mc_transformers :: "mc_transformer list"
  mc_loads :: "mc_unit list"
  mc_generators :: "mc_unit list"
  mc_ibrs :: "mc_unit list"
  mc_shunts :: "mc_unit list"
  mc_capacitors :: "mc_unit list"
  mc_sources :: "mc_unit list"
  mc_locations :: "mc_location list"
  mc_rest :: string

record excluded_equipment =
  xe_kind :: string
  xe_name :: string

record excluded_island =
  xi_buses :: "string list"
  xi_equipment :: "excluded_equipment list"

record network_scope =
  excluded_island_count :: nat
  excluded_bus_count :: nat
  excluded_equipment_count :: nat
  excluded_load_count :: nat

text \<open>\<open>to_ascii_lowercase\<close> on the bytes of a name.\<close>

definition lower :: "string \<Rightarrow> string" where
  "lower s = map (\<lambda>c. if 65 \<le> (of_char c :: nat) \<and> (of_char c :: nat) \<le> 90 then char_of ((of_char c :: nat) + 32) else c) s"

definition backquote :: "string \<Rightarrow> string" where
  "backquote s = ''`'' @ s @ ''`''"

section \<open>Scope of an exclusion\<close>

definition excluded_items :: "excluded_island list \<Rightarrow> (string \<times> string) list" where
  "excluded_items islands = remdups (concat (map (\<lambda>i. map (\<lambda>e. (xe_kind e, xe_name e)) (xi_equipment i)) islands))"

definition scope :: "excluded_island list \<Rightarrow> network_scope option" where
  "scope islands =
     (if islands = [] then None
      else Some \<lparr>excluded_island_count = length islands, excluded_bus_count = sum_list (map (\<lambda>i. length (xi_buses i)) islands),
        excluded_equipment_count = length (excluded_items islands),
        excluded_load_count = length (filter (\<lambda>(kind, _). kind = ''load'') (excluded_items islands))\<rparr>)"

section \<open>Unpowered islands\<close>

definition bus_indices :: "mc_network \<Rightarrow> (string, (string, nat) btree) result" where
  "bus_indices net =
     try_fold (\<lambda>m (i, b). if map_of m (lower (mb_id b)) \<noteq> None then Inl (''duplicate bus identity '' @ backquote (mb_id b))
                          else Inr (bt_insert (lower (mb_id b)) i m))
       [] (zip [0..<length (mc_buses net)] (mc_buses net))"

definition index_of :: "(string, nat) btree \<Rightarrow> string \<Rightarrow> (string, nat) result" where
  "index_of indices b = ok_or (''equipment references unknown bus '' @ backquote b) (map_of indices (lower b))"

definition connect :: "nat \<Rightarrow> nat list list \<Rightarrow> nat \<Rightarrow> nat list list" where
  "connect first adj other =
     (let adj1 = adj[first := adj ! first @ [other]] in adj1[other := adj1 ! other @ [first]])"

type_synonym mc_item = "string \<times> string \<times> string list \<times> bool"
type_synonym mc_topology = "nat list list \<times> (string \<times> string \<times> nat list) list"

definition add_item :: "(string, nat) btree \<Rightarrow> mc_topology \<Rightarrow> mc_item \<Rightarrow> (string, mc_topology) result" where
  "add_item indices = (\<lambda>(adj, equipment) (kind, name, bs, connected).
     and_then (try_map (index_of indices) bs) (\<lambda>nodes.
     Inr (if connected then (case nodes of [] \<Rightarrow> adj | first # rest \<Rightarrow> foldl (connect first) adj rest) else adj,
          equipment @ [(kind, name, nodes)])))"

text \<open>The calls of \<open>add\<close>, in order: lines, switches, transformers, then the tables of one-bus equipment.\<close>

definition mc_items :: "mc_network \<Rightarrow> mc_item list" where
  "mc_items net =
     map (\<lambda>e. (''line'', ml_name e, [ml_from e, ml_to e], True)) (mc_lines net) @
     map (\<lambda>e. (''switch'', ms_name e, [ms_from e, ms_to e], \<not> ms_open e)) (mc_switches net) @
     map (\<lambda>e. (''transformer'', mt_name e, mt_windings e, True)) (mc_transformers net) @
     concat (map (\<lambda>(table, kind). map (\<lambda>e. (kind, mu_name e, [mu_bus e], False)) table)
       [(mc_loads net, ''load''), (mc_generators net, ''generator''), (mc_ibrs net, ''ibr''), (mc_shunts net, ''shunt''),
        (mc_capacitors net, ''capacitor''), (mc_sources net, ''source'')])"

text \<open>The component of a bus is \<open>None\<close> for \<open>usize::MAX\<close>; the top of the stack is the head of its list.\<close>

definition visit :: "nat \<Rightarrow> nat option list \<times> nat list \<Rightarrow> nat \<Rightarrow> nat option list \<times> nat list" where
  "visit cid = (\<lambda>(component, stack) next.
     if next < length component \<and> component ! next = None then (component[next := Some cid], next # stack) else (component, stack))"

lemma visit_measure: "unvisited (fst (visit cid s m)) + length (snd (visit cid s m)) = unvisited (fst s) + length (snd s)"
  using unvisited_update [of m "fst s" cid] by (cases s) (auto simp: visit_def)

lemma visits_measure: "unvisited (fst (foldl (visit cid) s ns)) + length (snd (foldl (visit cid) s ns)) = unvisited (fst s) + length (snd s)"
  by (induction ns arbitrary: s) (simp_all add: visit_measure)

lemma visits_measure_eq:
  "(component', stack') = foldl (visit cid) (component, stack) ns \<Longrightarrow> unvisited component' + length stack' = unvisited component + length stack"
  using visits_measure [of cid "(component, stack)" ns] by (metis fst_conv snd_conv)

function walk_island ::
  "nat list list \<Rightarrow> (nat \<Rightarrow> bool) \<Rightarrow> nat \<Rightarrow> nat option list \<Rightarrow> nat list \<Rightarrow> nat list \<Rightarrow> bool
     \<Rightarrow> nat option list \<times> nat list \<times> bool" where
  "walk_island adj src cid component stack nodes powered =
     (case stack of [] \<Rightarrow> (component, nodes, powered)
      | node # stack \<Rightarrow>
          (case foldl (visit cid) (component, stack) (adj ! node) of (component, stack) \<Rightarrow>
             walk_island adj src cid component stack (nodes @ [node]) (powered \<or> src node)))"
  by pat_completeness auto
termination
  by (relation "measure (\<lambda>(_, _, _, component, stack, _, _). unvisited component + length stack)")
     (auto simp: less_Suc_eq_le dest!: visits_measure_eq)

declare walk_island.simps [simp del]

definition scan_start ::
  "mc_network \<Rightarrow> nat list list \<Rightarrow> (nat \<Rightarrow> bool) \<Rightarrow> nat option list \<times> (nat \<times> string list) list \<Rightarrow> nat
     \<Rightarrow> nat option list \<times> (nat \<times> string list) list" where
  "scan_start net adj src = (\<lambda>(component, islands) start.
     if component ! start \<noteq> None then (component, islands)
     else case walk_island adj src start (component[start := Some start]) [start] [] False of
       (component, nodes, powered) \<Rightarrow>
         (component, if powered then islands else islands @ [(start, sort (map (\<lambda>i. mb_id (mc_buses net ! i)) nodes))]))"

definition attach_equipment ::
  "nat option list \<Rightarrow> (nat \<times> string list) list \<Rightarrow> excluded_island list \<Rightarrow> string \<times> string \<times> nat list \<Rightarrow> excluded_island list" where
  "attach_equipment component starts islands = (\<lambda>(kind, name, nodes).
     fold (\<lambda>i islands. islands[i := (islands ! i)\<lparr>xi_equipment := xi_equipment (islands ! i) @ [\<lparr>xe_kind = kind, xe_name = name\<rparr>]\<rparr>])
       (sort (remdups (List.map_filter (\<lambda>n. position (\<lambda>(cid, _). component ! n = Some cid) starts) nodes))) islands)"

definition order_islands :: "excluded_island list \<Rightarrow> excluded_island list" where
  "order_islands islands =
     sort_key xi_buses (map (\<lambda>i. i\<lparr>xi_equipment := sort_key (\<lambda>e. (xe_kind e, xe_name e)) (xi_equipment i)\<rparr>) islands)"

definition mc_unpowered_islands :: "mc_network \<Rightarrow> (string, excluded_island list) result" where
  "mc_unpowered_islands net =
     and_then (bus_indices net) (\<lambda>indices.
     and_then (try_fold (add_item indices) (replicate (length indices) [], []) (mc_items net)) (\<lambda>(adj, equipment).
     and_then (try_map (\<lambda>s. index_of indices (mu_bus s)) (mc_sources net)) (\<lambda>sources.
     let (component, starts) = foldl (scan_start net adj (\<lambda>n. n \<in> set sources)) (replicate (length indices) None, []) [0..<length indices]
     in Inr (order_islands (foldl (attach_equipment component starts)
          (map (\<lambda>(_, bs). \<lparr>xi_buses = bs, xi_equipment = []\<rparr>) starts) equipment)))))"

section \<open>The energized subset\<close>

definition require_source :: "mc_network \<Rightarrow> (string, unit) result" where
  "require_source net = err_if (mc_sources net = []) ''cannot solve an energized network without a voltage source''"

definition target_kind :: "LocationTarget \<Rightarrow> string option" where
  "target_kind t = (case t of TLine \<Rightarrow> Some ''line'' | TSwitch \<Rightarrow> Some ''switch'' | TTransformer \<Rightarrow> Some ''transformer''
     | TLoad \<Rightarrow> Some ''load'' | TGenerator \<Rightarrow> Some ''generator'' | TIbr \<Rightarrow> Some ''ibr'' | TShunt \<Rightarrow> Some ''shunt''
     | TCapacitor \<Rightarrow> Some ''capacitor'' | TSource \<Rightarrow> Some ''source'' | _ \<Rightarrow> None)"

definition keep_bus :: "excluded_island list \<Rightarrow> string \<Rightarrow> bool" where
  "keep_bus islands b \<longleftrightarrow> lower b \<notin> lower ` (\<Union>i \<in> set islands. set (xi_buses i))"

definition keep_location :: "excluded_island list \<Rightarrow> mc_location \<Rightarrow> bool" where
  "keep_location islands l =
     (if loc_target l = TBus then keep_bus islands (loc_name l)
      else case target_kind (loc_target l) of None \<Rightarrow> True
        | Some k \<Rightarrow> (k, loc_name l) \<notin> set (excluded_items islands))"

definition select :: "mc_network \<Rightarrow> excluded_island list \<Rightarrow> mc_network" where
  "select net islands =
     (let keep = keep_bus islands; one = filter (\<lambda>e. keep (mu_bus e)) in
      net\<lparr>mc_buses := filter (\<lambda>e. keep (mb_id e)) (mc_buses net),
        mc_lines := filter (\<lambda>e. keep (ml_from e) \<and> keep (ml_to e)) (mc_lines net),
        mc_switches := filter (\<lambda>e. keep (ms_from e) \<and> keep (ms_to e)) (mc_switches net),
        mc_transformers := filter (\<lambda>e. \<forall>w \<in> set (mt_windings e). keep w) (mc_transformers net),
        mc_loads := one (mc_loads net), mc_generators := one (mc_generators net), mc_ibrs := one (mc_ibrs net),
        mc_shunts := one (mc_shunts net), mc_capacitors := one (mc_capacitors net), mc_sources := one (mc_sources net),
        mc_locations := filter (keep_location islands) (mc_locations net)\<rparr>)"

section \<open>The recorded selection\<close>

text \<open>A PowerIO module with its extensions, and the PowerIO and JSON calls on it.\<close>

datatype mc_value = MulticonductorNetwork mc_network | McAcPfInstance string | OtherMcValue string

record 'j mc_module =
  mm_value :: mc_value
  mm_extensions :: "(string, 'j) btree"
  mm_rest :: string

record 'j mc_powerio =
  islands_to_json :: "excluded_island list \<Rightarrow> (string, 'j) result"
  islands_of_json :: "'j \<Rightarrow> (string, excluded_island list) result"
  insert_extension :: "'j mc_module \<Rightarrow> string \<Rightarrow> 'j \<Rightarrow> (string, 'j mc_module) result"
  validate_mc_module :: "'j mc_module \<Rightarrow> (string, unit) result"
  mc_deserialize :: "string \<Rightarrow> (string, 'j mc_module) result"
  mc_serialize :: "'j mc_module \<Rightarrow> (string, string) result"
  prepared_json :: "string \<Rightarrow> network_scope option \<Rightarrow> excluded_island list \<Rightarrow> (string, string) result"
  instance_of_network :: "mc_network \<Rightarrow> (string, string) result"
  instance_from_value :: "mc_value \<Rightarrow> (string, string) result"

definition EXTENSION :: string where
  "EXTENSION = ''tellegen.energized_network''"

definition validate_selection :: "'j mc_powerio \<Rightarrow> 'j mc_module \<Rightarrow> (string, excluded_island list) result" where
  "validate_selection io m =
     (case map_of (mm_extensions m) EXTENSION of None \<Rightarrow> Inr []
      | Some recorded \<Rightarrow>
          (case mm_value m of
             MulticonductorNetwork net \<Rightarrow>
               and_then (islands_of_json io recorded) (\<lambda>recorded.
               and_then (require_source net) (\<lambda>_.
               and_then (mc_unpowered_islands net) (\<lambda>actual.
               if recorded \<noteq> actual then Inl ''energized-network exclusions do not match the full input topology''
               else Inr actual)))
           | _ \<Rightarrow> Inl ''energized-network selection requires a full multiconductor network''))"

definition selection :: "'j mc_powerio \<Rightarrow> 'j mc_module \<Rightarrow> (string, mc_network option \<times> excluded_island list) result" where
  "selection io m =
     and_then (validate_selection io m) (\<lambda>islands.
     Inr (case (map_of (mm_extensions m) EXTENSION, mm_value m) of
            (Some _, MulticonductorNetwork net) \<Rightarrow> Some (select net islands)
          | _ \<Rightarrow> None, islands))"

definition prepare_mc_energized_network :: "'j mc_powerio \<Rightarrow> 'j mc_module \<Rightarrow> (string, 'j mc_module \<times> excluded_island list) result" where
  "prepare_mc_energized_network io m =
     and_then (validate_mc_module io m) (\<lambda>_.
     case mm_value m of
       McAcPfInstance _ \<Rightarrow> Inr (m, [])
     | OtherMcValue _ \<Rightarrow> Inl ''energized-network preparation requires a multiconductor network''
     | MulticonductorNetwork net \<Rightarrow>
         and_then (require_source net) (\<lambda>_.
         and_then (mc_unpowered_islands net) (\<lambda>islands.
         and_then (islands_to_json io islands) (\<lambda>j.
         and_then (insert_extension io m EXTENSION j) (\<lambda>selected.
         Inr (selected, islands))))))"

definition prepare_mc_energized_network_json :: "'j mc_powerio \<Rightarrow> string \<Rightarrow> (string, string) result" where
  "prepare_mc_energized_network_json io source =
     and_then (mc_deserialize io source) (\<lambda>m.
     and_then (prepare_mc_energized_network io m) (\<lambda>(m, islands).
     and_then (mc_serialize io m) (\<lambda>module_json.
     prepared_json io module_json (scope islands) islands)))"

definition mc_instance :: "'j mc_powerio \<Rightarrow> 'j mc_module \<Rightarrow> (string, string) result" where
  "mc_instance io m =
     and_then (selection io m) (\<lambda>(selected, _).
     case selected of Some net \<Rightarrow> instance_of_network io net | None \<Rightarrow> instance_from_value io (mm_value m))"

section \<open>One island\<close>

lemma visits:
  assumes "foldl (visit cid) (component, stack) ns = (component', stack')" "set ns \<subseteq> {..<length component}"
  shows "\<exists>new. stack' = new @ stack \<and> distinct new \<and> set new = {v \<in> set ns. component ! v = None} \<and>
     length component' = length component \<and>
     (\<forall>v < length component. component' ! v = (if v \<in> set new then Some cid else component ! v))"
  using assms
proof (induction ns arbitrary: component stack)
  case (Cons m ns)
  show ?case
  proof (cases "component ! m = None")
    case True
    let ?c = "component[m := Some cid]"
    have m: "m < length component" using Cons.prems(2) by simp
    have "foldl (visit cid) (?c, m # stack) ns = (component', stack')" using Cons.prems(1) True m by (simp add: visit_def)
    from Cons.IH [OF this] Cons.prems(2) obtain new where new: "stack' = new @ m # stack" "distinct new"
      "set new = {v \<in> set ns. ?c ! v = None}" "length component' = length component"
      "\<forall>v < length component. component' ! v = (if v \<in> set new then Some cid else ?c ! v)" by auto
    have "?c ! v = None \<longleftrightarrow> v \<noteq> m \<and> component ! v = None" if "v \<in> set ns" for v
      using Cons.prems(2) that m by (auto simp: nth_list_update)
    then have s: "set (new @ [m]) = {v \<in> set (m # ns). component ! v = None}" using new(3) True by auto
    moreover have "m \<notin> set new" using new(3) m by auto
    moreover have "\<forall>v < length component. component' ! v = (if v \<in> set (new @ [m]) then Some cid else component ! v)"
      using new(5) m by (auto simp: nth_list_update)
    ultimately show ?thesis using new by (intro exI [of _ "new @ [m]"]) simp
  next
    case False
    have "foldl (visit cid) (component, stack) ns = (component', stack')" using Cons.prems(1) False by (simp add: visit_def)
    from Cons.IH [OF this] Cons.prems(2) False show ?thesis by auto
  qed
qed simp

definition walk_inv ::
  "nat list list \<Rightarrow> (nat \<Rightarrow> bool) \<Rightarrow> nat \<Rightarrow> nat option list \<Rightarrow> nat option list \<Rightarrow> nat list \<Rightarrow> nat list \<Rightarrow> bool \<Rightarrow> bool" where
  "walk_inv adj src start before component stack nodes powered \<longleftrightarrow> length component = length adj \<and>
     distinct (nodes @ stack) \<and> start \<in> set (nodes @ stack) \<and> set (nodes @ stack) \<subseteq> reach adj start \<and>
     (\<forall>u \<in> set nodes. set (adj ! u) \<subseteq> set (nodes @ stack)) \<and>
     (\<forall>v < length adj. component ! v = (if v \<in> set (nodes @ stack) then Some start else before ! v)) \<and>
     powered = (\<exists>u \<in> set nodes. src u)"

lemma walk_inv_step:
  assumes proper: "proper adj" and start: "start < length adj" and fresh: "\<forall>v \<in> reach adj start. before ! v = None"
    and inv: "walk_inv adj src start before component (node # stack) nodes powered"
    and step: "foldl (visit start) (component, stack) (adj ! node) = (component', stack')"
  shows "walk_inv adj src start before component' stack' (nodes @ [node]) (powered \<or> src node)"
proof -
  have node: "node \<in> reach adj start" "node < length adj"
    using inv reach_bound [OF proper start] by (auto simp: walk_inv_def)
  have next_reach: "set (adj ! node) \<subseteq> reach adj start"
    using node by (auto intro: reach_step [OF node(1)] simp: edges_def)
  then have "set (adj ! node) \<subseteq> {..<length component}"
    using inv reach_bound [OF proper start] by (auto simp: walk_inv_def)
  from visits [OF step this] obtain new where new: "stack' = new @ stack" "distinct new"
    "set new = {v \<in> set (adj ! node). component ! v = None}" "length component' = length component"
    "\<forall>v < length component. component' ! v = (if v \<in> set new then Some start else component ! v)" by blast
  have comp: "component ! v = (if v \<in> set (nodes @ node # stack) then Some start else before ! v)" if "v < length adj" for v
    using inv that by (simp add: walk_inv_def)
  have none: "component ! v = None \<longleftrightarrow> v \<notin> set (nodes @ node # stack)" if "v \<in> reach adj start" for v
    using comp [of v] fresh that reach_bound [OF proper start] by auto
  have fresh_new: "set new \<inter> set (nodes @ node # stack) = {}" "set new \<subseteq> reach adj start"
    "set (adj ! node) \<subseteq> set (nodes @ node # stack) \<union> set new"
    using new(3) next_reach none by auto
  show ?thesis
    unfolding walk_inv_def new(1)
  proof (intro conjI ballI allI impI)
    show "distinct ((nodes @ [node]) @ new @ stack)" using inv new(2) fresh_new(1) by (auto simp: walk_inv_def)
    show "start \<in> set ((nodes @ [node]) @ new @ stack)" using inv by (auto simp: walk_inv_def)
    show "set ((nodes @ [node]) @ new @ stack) \<subseteq> reach adj start" using inv fresh_new(2) by (auto simp: walk_inv_def)
    show "set (adj ! u) \<subseteq> set ((nodes @ [node]) @ new @ stack)" if "u \<in> set (nodes @ [node])" for u
      using that inv fresh_new(3) by (auto simp: walk_inv_def)
    show "component' ! v = (if v \<in> set ((nodes @ [node]) @ new @ stack) then Some start else before ! v)" if "v < length adj" for v
      using that inv new(5) comp [OF that] by (auto simp: walk_inv_def)
  qed (use inv new(4) in \<open>auto simp: walk_inv_def\<close>)
qed

lemma walk_island_reach:
  assumes "proper adj" "start < length adj" "\<forall>v \<in> reach adj start. before ! v = None"
    and "walk_inv adj src start before component stack nodes powered"
    and "walk_island adj src start component stack nodes powered = (component', nodes', powered')"
  shows "length component' = length adj \<and> distinct nodes' \<and> set nodes' = reach adj start \<and>
     (\<forall>v < length adj. component' ! v = (if v \<in> reach adj start then Some start else before ! v)) \<and>
     powered' = (\<exists>u \<in> reach adj start. src u)"
  using assms(4,5)
proof (induction "unvisited component + length stack" arbitrary: component stack nodes powered rule: less_induct)
  case less
  show ?case
  proof (cases stack)
    case Nil
    with less.prems have out: "component' = component" "nodes' = nodes" "powered' = powered"
      by (simp_all add: walk_island.simps)
    have "reach adj start \<subseteq> set nodes"
      using less.prems(1) Nil by (intro reach_least) (auto simp: walk_inv_def edges_def)
    with less.prems(1) Nil have "set nodes = reach adj start" by (auto simp: walk_inv_def)
    with less.prems(1) Nil show ?thesis by (auto simp: out walk_inv_def)
  next
    case (Cons node rest)
    obtain c s where step: "foldl (visit start) (component, rest) (adj ! node) = (c, s)" by fastforce
    have "walk_inv adj src start before c s (nodes @ [node]) (powered \<or> src node)"
      using walk_inv_step [OF assms(1-3) _ step] less.prems(1) Cons by blast
    moreover have "unvisited c + length s < unvisited component + length stack"
      using visits_measure_eq [OF step [symmetric]] Cons by simp
    moreover have "walk_island adj src start c s (nodes @ [node]) (powered \<or> src node) = (component', nodes', powered')"
      using less.prems(2) Cons step by (simp add: walk_island.simps [of adj src start component])
    ultimately show ?thesis using less.hyps by blast
  qed
qed

section \<open>All islands\<close>

definition leader :: "nat list list \<Rightarrow> nat \<Rightarrow> nat" where
  "leader adj v = (LEAST u. u \<in> reach adj v)"

definition dark :: "nat list list \<Rightarrow> (nat \<Rightarrow> bool) \<Rightarrow> nat \<Rightarrow> bool" where
  "dark adj src s \<longleftrightarrow> leader adj s = s \<and> \<not> (\<exists>v \<in> reach adj s. src v)"

definition names_of :: "mc_network \<Rightarrow> nat set \<Rightarrow> string list" where
  "names_of net S = sort (map (\<lambda>i. mb_id (mc_buses net ! i)) (filter (\<lambda>i. i \<in> S) [0..<length (mc_buses net)]))"

lemma leader_facts:
  "leader adj v \<in> reach adj v" "leader adj v \<le> v" "proper adj \<Longrightarrow> u \<in> reach adj v \<Longrightarrow> leader adj u = leader adj v"
proof -
  show "leader adj v \<in> reach adj v" unfolding leader_def by (rule LeastI) (rule reach_self)
  show "leader adj v \<le> v" unfolding leader_def by (rule Least_le) (rule reach_self)
  show "proper adj \<Longrightarrow> u \<in> reach adj v \<Longrightarrow> leader adj u = leader adj v" by (simp add: leader_def reach_eq)
qed

lemma names_of_nodes:
  assumes "distinct nodes" "set nodes \<subseteq> {..<length (mc_buses net)}"
  shows "sort (map (\<lambda>i. mb_id (mc_buses net ! i)) nodes) = names_of net (set nodes)"
proof -
  have "mset nodes = mset (filter (\<lambda>i. i \<in> set nodes) [0..<length (mc_buses net)])"
    using assms by (intro set_eq_iff_mset_eq_distinct [THEN iffD1]) auto
  then have "mset (map (\<lambda>i. mb_id (mc_buses net ! i)) nodes) =
      mset (map (\<lambda>i. mb_id (mc_buses net ! i)) (filter (\<lambda>i. i \<in> set nodes) [0..<length (mc_buses net)]))"
    by (metis mset_map)
  then show ?thesis unfolding names_of_def by (intro properties_for_sort) simp_all
qed

definition scan_inv ::
  "mc_network \<Rightarrow> nat list list \<Rightarrow> (nat \<Rightarrow> bool) \<Rightarrow> nat \<Rightarrow> nat option list \<times> (nat \<times> string list) list \<Rightarrow> bool" where
  "scan_inv net adj src k = (\<lambda>(component, islands). length component = length adj \<and>
     (\<forall>v < length adj. component ! v = (if leader adj v < k then Some (leader adj v) else None)) \<and>
     islands = map (\<lambda>s. (s, names_of net (reach adj s))) (filter (dark adj src) [0..<k]))"

lemma reach_leader: "proper adj \<Longrightarrow> leader adj k = k \<Longrightarrow> v \<in> reach adj k \<longleftrightarrow> leader adj v = k"
  using leader_facts(3) [of adj v k] leader_facts(1) [of adj v] reach_sym [of adj v k] by auto

lemma scan_start_inv:
  assumes "proper adj" "k < length adj" "length adj = length (mc_buses net)" "scan_inv net adj src k st"
  shows "scan_inv net adj src (Suc k) (scan_start net adj src st k)"
proof -
  obtain component islands where st: "st = (component, islands)" by fastforce
  have comp: "\<forall>v < length adj. component ! v = (if leader adj v < k then Some (leader adj v) else None)"
    and len: "length component = length adj"
    and isl: "islands = map (\<lambda>s. (s, names_of net (reach adj s))) (filter (dark adj src) [0..<k])"
    using assms(4) by (simp_all add: scan_inv_def st)
  have known: "component ! k \<noteq> None \<longleftrightarrow> leader adj k < k" using comp assms(2) by simp
  show ?thesis
  proof (cases "leader adj k < k")
    case True
    then have "\<not> dark adj src k" by (simp add: dark_def)
    moreover have "leader adj v < Suc k \<longleftrightarrow> leader adj v < k" for v
      using True reach_leader [OF assms(1), of k v] leader_facts(1) [of adj v] leader_facts(3) [OF assms(1), of "leader adj v" v]
      by (auto simp: less_Suc_eq)
    ultimately show ?thesis using known True comp len isl by (simp add: scan_start_def st scan_inv_def)
  next
    case False
    then have lead: "leader adj k = k" using leader_facts(2) [of adj k] by simp
    let ?c = "component[k := Some k]"
    have fresh: "\<forall>v \<in> reach adj k. component ! v = None"
      using comp reach_leader [OF assms(1) lead] reach_bound [OF assms(1,2)] by auto
    have inv: "walk_inv adj src k component ?c [k] [] False"
      using len assms(2) by (auto simp: walk_inv_def nth_list_update)
    obtain c nodes powered where w: "walk_island adj src k ?c [k] [] False = (c, nodes, powered)" by (metis prod_cases3)
    from walk_island_reach [OF assms(1,2) fresh inv w] have out: "length c = length adj" "distinct nodes" "set nodes = reach adj k"
      "\<forall>v < length adj. c ! v = (if v \<in> reach adj k then Some k else component ! v)" "powered = (\<exists>u \<in> reach adj k. src u)" by blast+
    have "sort (map (\<lambda>i. mb_id (mc_buses net ! i)) nodes) = names_of net (reach adj k)"
      using names_of_nodes [OF out(2), of net] out(3) reach_bound [OF assms(1,2)] assms(3) by auto
    moreover have "dark adj src k \<longleftrightarrow> \<not> powered" using lead out(5) by (simp add: dark_def)
    moreover have "c ! v = (if leader adj v < Suc k then Some (leader adj v) else None)" if "v < length adj" for v
      using out(4) comp that reach_leader [OF assms(1) lead, of v] by auto
    ultimately show ?thesis using known False w out(1) isl by (simp add: scan_start_def st scan_inv_def)
  qed
qed

lemma scan_result:
  assumes "proper adj" "length adj = length (mc_buses net)"
  shows "scan_inv net adj src (length adj) (foldl (scan_start net adj src) (replicate (length adj) None, []) [0..<length adj])"
proof -
  have "k \<le> length adj \<Longrightarrow> scan_inv net adj src k (foldl (scan_start net adj src) (replicate (length adj) None, []) [0..<k])" for k
  proof (induction k)
    case (Suc k)
    then show ?case using scan_start_inv [OF assms(1) _ assms(2)] by simp
  qed (simp add: scan_inv_def)
  then show ?thesis by blast
qed

section \<open>Equipment of the islands\<close>

definition item_of :: "string \<times> string \<times> nat list \<Rightarrow> excluded_equipment" where
  "item_of = (\<lambda>(kind, name, _). \<lparr>xe_kind = kind, xe_name = name\<rparr>)"

lemma fold_update:
  assumes "distinct is" "set is \<subseteq> {..<length xs}"
  shows "fold (\<lambda>i xs. xs[i := f (xs ! i)]) is xs = map (\<lambda>i. if i \<in> set is then f (xs ! i) else xs ! i) [0..<length xs]"
  using assms
proof (induction "is" arbitrary: xs)
  case Nil
  then show ?case by (simp add: map_nth)
next
  case (Cons i "is")
  then have "fold (\<lambda>i xs. xs[i := f (xs ! i)]) is (xs[i := f (xs ! i)]) =
      map (\<lambda>j. if j \<in> set is then f (xs[i := f (xs ! i)] ! j) else xs[i := f (xs ! i)] ! j) [0..<length xs]" by auto
  then show ?case using Cons.prems by (auto simp: nth_list_update)
qed

definition attached :: "(nat set \<times> string list) list \<Rightarrow> (string \<times> string \<times> nat list) list \<Rightarrow> excluded_island list" where
  "attached starts equipment = map (\<lambda>(S, bs). \<lparr>xi_buses = bs,
     xi_equipment = map item_of (filter (\<lambda>(_, _, nodes). \<exists>n \<in> set nodes. n \<in> S) equipment)\<rparr>) starts"

lemma attach_all:
  assumes comp: "\<And>n. n < length adj \<Longrightarrow> component ! n = Some (leader adj n)" and "proper adj"
    and starts: "distinct (map fst starts)" "\<forall>(s, _) \<in> set starts. leader adj s = s"
    and nodes: "\<forall>(_, _, nodes) \<in> set equipment. set nodes \<subseteq> {..<length adj}"
  shows "foldl (attach_equipment component starts) (map (\<lambda>(_, bs). \<lparr>xi_buses = bs, xi_equipment = []\<rparr>) starts) equipment =
     attached (map (\<lambda>(s, bs). (reach adj s, bs)) starts) equipment"
  using nodes
proof (induction equipment rule: rev_induct)
  case Nil
  show ?case by (simp add: attached_def case_prod_beta comp_def)
next
  case (snoc e equipment)
  obtain kind name ns where e: "e = (kind, name, ns)" by (metis prod_cases3)
  have ns: "set ns \<subseteq> {..<length adj}" using snoc.prems e by auto
  let ?old = "attached (map (\<lambda>(s, bs). (reach adj s, bs)) starts) equipment"
  define hits where "hits = sort (remdups (List.map_filter (\<lambda>n. position (\<lambda>(cid, _). component ! n = Some cid) starts) ns))"
  have len: "length ?old = length starts" by (simp add: attached_def)
  have hit: "position (\<lambda>(cid, _). component ! n = Some cid) starts = Some i \<longleftrightarrow> i < length starts \<and> n \<in> reach adj (fst (starts ! i))"
    if "n \<in> set ns" for n i
  proof -
    have n: "component ! n = Some (leader adj n)" using comp ns that by auto
    have lead: "leader adj (fst (starts ! j)) = fst (starts ! j)" if "j < length starts" for j
      using starts(2) nth_mem [OF that] by (cases "starts ! j") force
    have uniq: "j = i" if "i < length starts" "j < length starts" "fst (starts ! i) = fst (starts ! j)" for j
      using starts(1) that by (simp add: distinct_conv_nth) (metis length_map nth_map)
    show ?thesis
      unfolding position_Some_iff
      using n lead uniq reach_leader [OF assms(2)] by (auto simp: case_prod_beta) (metis less_trans less_irrefl)
  qed
  have mf: "set (List.map_filter f xs) = {y. \<exists>x \<in> set xs. f x = Some y}" for f :: "nat \<Rightarrow> nat option" and xs
    by (force simp: List.map_filter_def)
  have set_is: "set hits = {i. i < length starts \<and> (\<exists>n \<in> set ns. n \<in> reach adj (fst (starts ! i)))}"
    unfolding hits_def set_sort set_remdups mf using hit by blast
  have distinct: "distinct hits" by (simp add: hits_def)
  have "foldl (attach_equipment component starts) (map (\<lambda>(_, bs). \<lparr>xi_buses = bs, xi_equipment = []\<rparr>) starts) (equipment @ [e]) =
      attach_equipment component starts ?old e" using snoc by simp
  also have "\<dots> = map (\<lambda>i. if i \<in> set hits then (?old ! i)\<lparr>xi_equipment := xi_equipment (?old ! i) @ [item_of e]\<rparr> else ?old ! i) [0..<length starts]"
    unfolding attach_equipment_def e item_of_def prod.case hits_def [symmetric] len [symmetric]
    using set_is len distinct by (intro fold_update) auto
  also have "\<dots> = attached (map (\<lambda>(s, bs). (reach adj s, bs)) starts) (equipment @ [e])"
    by (intro nth_equalityI) (auto simp: set_is len attached_def e item_of_def case_prod_beta)
  finally show ?case .
qed

section \<open>The topology by names\<close>

definition bus_names :: "mc_network \<Rightarrow> string list" where
  "bus_names net = map (\<lambda>b. lower (mb_id b)) (mc_buses net)"

definition item_links :: "mc_item \<Rightarrow> (string \<times> string) set" where
  "item_links = (\<lambda>(_, _, bs, connected).
     if connected then (case map lower bs of [] \<Rightarrow> {} | first # rest \<Rightarrow> (\<Union>other \<in> set rest. {(first, other), (other, first)})) else {})"

definition links :: "mc_item list \<Rightarrow> (string \<times> string) set" where
  "links items = (\<Union>item \<in> set items. item_links item)"

definition cluster :: "mc_network \<Rightarrow> string \<Rightarrow> string set" where
  "cluster net x = {y. (x, y) \<in> (links (mc_items net))\<^sup>*}"

definition well_referenced :: "mc_network \<Rightarrow> bool" where
  "well_referenced net \<longleftrightarrow> distinct (bus_names net) \<and>
     (\<forall>(_, _, bs, _) \<in> set (mc_items net). \<forall>b \<in> set bs. lower b \<in> set (bus_names net))"

definition indexes :: "string list \<Rightarrow> (string, nat) btree \<Rightarrow> bool" where
  "indexes names m \<longleftrightarrow> distinct names \<and> length m = length names \<and> (\<forall>x i. map_of m x = Some i \<longleftrightarrow> i < length names \<and> names ! i = x)"

lemma indexes_snoc:
  assumes "indexes names m" "map_of m x = None"
  shows "indexes (names @ [x]) (bt_insert x (length names) m)"
proof -
  have "x \<notin> set names"
  proof
    assume "x \<in> set names"
    then obtain i where "i < length names" "names ! i = x" by (auto simp: in_set_conv_nth)
    with assms(1) have "map_of m x = Some i" unfolding indexes_def by blast
    with assms(2) show False by simp
  qed
  with assms show ?thesis
    by (auto simp: indexes_def map_of_bt_insert bt_insert_new_length nth_append less_Suc_eq in_set_conv_nth)
qed

lemma bus_indices_outcome:
  "case bus_indices net of Inr m \<Rightarrow> indexes (bus_names net) m | Inl _ \<Rightarrow> \<not> distinct (bus_names net)"
proof -
  let ?f = "\<lambda>m (i, b). if map_of m (lower (mb_id b)) \<noteq> None then Inl (''duplicate bus identity '' @ backquote (mb_id b))
      else Inr (bt_insert (lower (mb_id b)) i m)"
  have "case try_fold ?f [] (zip [0..<length bs] bs) of Inr m \<Rightarrow> indexes (map (\<lambda>b. lower (mb_id b)) bs) m
      | Inl _ \<Rightarrow> \<not> distinct (map (\<lambda>b. lower (mb_id b)) bs)" for bs :: "mc_bus list"
  proof (induction bs rule: rev_induct)
    case (snoc b bs)
    let ?run = "try_fold ?f [] (zip [0..<length bs] bs)"
    have run: "try_fold ?f [] (zip [0..<length (bs @ [b])] (bs @ [b])) = and_then ?run (\<lambda>m. ?f m (length bs, b))"
      by (simp add: try_fold_append and_then_def split: sum.splits)
    show ?case
    proof (cases ?run)
      case (Inr m)
      then have ix: "indexes (map (\<lambda>b. lower (mb_id b)) bs) m" using snoc by simp
      show ?thesis
      proof (cases "map_of m (lower (mb_id b))")
        case None
        with indexes_snoc [OF ix None] show ?thesis unfolding run Inr by simp
      next
        case (Some i)
        with ix have "lower (mb_id b) \<in> set (map (\<lambda>b. lower (mb_id b)) bs)" unfolding indexes_def by (metis nth_mem)
        with Some show ?thesis unfolding run Inr by auto
      qed
    qed (use snoc run in auto)
  qed (simp add: indexes_def)
  from this [of "mc_buses net"] show ?thesis unfolding bus_indices_def bus_names_def .
qed

lemma is_ok_iff: "is_ok r \<longleftrightarrow> (\<exists>x. r = Inr x)"
  by (cases r) (simp_all add: is_ok_def)

lemma is_ok_and_then: "is_ok (and_then m f) \<longleftrightarrow> (\<exists>x. m = Inr x \<and> is_ok (f x))"
  by (cases m) (simp_all add: is_ok_def)

lemma index_of_Inr: "indexes names idx \<Longrightarrow> index_of idx b = Inr u \<longleftrightarrow> u < length names \<and> names ! u = lower b"
  by (simp add: index_of_def ok_or_Inr indexes_def)

lemma index_of_known: "indexes names idx \<Longrightarrow> is_ok (index_of idx b) \<longleftrightarrow> lower b \<in> set names"
  by (auto simp: is_ok_iff in_set_conv_nth index_of_Inr)

lemma indexed_nodes:
  assumes "indexes names idx" "try_map (index_of idx) bs = Inr nodes"
  shows "set nodes \<subseteq> {..<length names} \<and> map (\<lambda>n. names ! n) nodes = map lower bs"
  using assms(2)
  by (induction bs arbitrary: nodes) (auto simp: and_then_Inr index_of_Inr [OF assms(1)])

lemma connect_edges:
  assumes "first < length adj" "other < length adj"
  shows "length (connect first adj other) = length adj \<and>
    edges (connect first adj other) = edges adj \<union> {(first, other), (other, first)}"
proof -
  have "(u, v) \<in> edges (connect first adj other) \<longleftrightarrow> (u, v) \<in> edges adj \<union> {(first, other), (other, first)}" for u v
    using assms by (cases "u = first"; cases "u = other") (auto simp: connect_def Let_def edges_def)
  then show ?thesis by (auto simp: connect_def Let_def)
qed

lemma connects_edges:
  assumes "first < length adj" "set rest \<subseteq> {..<length adj}"
  shows "length (foldl (connect first) adj rest) = length adj \<and>
    edges (foldl (connect first) adj rest) = edges adj \<union> (\<Union>other \<in> set rest. {(first, other), (other, first)})"
  using assms
proof (induction rest arbitrary: adj)
  case (Cons other rest)
  then show ?case using connect_edges [of first adj other] by auto
qed simp

definition topology_ok :: "string list \<Rightarrow> (string, nat) btree \<Rightarrow> mc_item list \<Rightarrow> mc_topology \<Rightarrow> bool" where
  "topology_ok names idx items = (\<lambda>(adj, equipment). length adj = length names \<and> proper adj \<and>
     (\<forall>u < length names. \<forall>v < length names. (u, v) \<in> edges adj \<longleftrightarrow> (names ! u, names ! v) \<in> links items) \<and>
     list_all2 (\<lambda>(kind, name, bs, _) (kind', name', nodes). kind' = kind \<and> name' = name \<and> try_map (index_of idx) bs = Inr nodes) items equipment)"

lemma links_append: "links (xs @ ys) = links xs \<union> links ys"
  by (simp add: links_def)

lemma add_item_topology:
  assumes ix: "indexes names idx" and ok: "topology_ok names idx items t" and add: "add_item idx t item = Inr t'"
  shows "topology_ok names idx (items @ [item]) t'"
proof -
  obtain adj equipment where t: "t = (adj, equipment)" by (cases t)
  obtain kind name bs c where item: "item = (kind, name, bs, c)" by (rule prod_cases4)
  obtain nodes where nodes: "try_map (index_of idx) bs = Inr nodes"
    and t': "t' = (if c then (case nodes of [] \<Rightarrow> adj | first # rest \<Rightarrow> foldl (connect first) adj rest) else adj, equipment @ [(kind, name, nodes)])"
    using add by (auto simp: add_item_def t item and_then_Inr)
  have n: "set nodes \<subseteq> {..<length names}" "map (\<lambda>n. names ! n) nodes = map lower bs" using indexed_nodes [OF ix nodes] by blast+
  have inj: "u < length names \<Longrightarrow> v < length names \<Longrightarrow> names ! u = names ! v \<longleftrightarrow> u = v" for u v
    using ix by (simp add: indexes_def nth_eq_iff_index_eq)
  have len: "length adj = length names" and pr: "proper adj"
    and ed: "\<forall>u < length names. \<forall>v < length names. (u, v) \<in> edges adj \<longleftrightarrow> (names ! u, names ! v) \<in> links items"
    and eq: "list_all2 (\<lambda>(kind, name, bs, _) (kind', name', nodes). kind' = kind \<and> name' = name \<and> try_map (index_of idx) bs = Inr nodes) items equipment"
    using ok by (simp_all add: topology_ok_def t)
  have "\<exists>adj'. fst t' = adj' \<and> length adj' = length adj \<and> proper adj' \<and>
    (\<forall>u < length names. \<forall>v < length names. (u, v) \<in> edges adj' \<longleftrightarrow> (u, v) \<in> edges adj \<or> (names ! u, names ! v) \<in> links [item])"
  proof (cases "c \<and> nodes \<noteq> []")
    case True
    then obtain first rest where fr: "nodes = first # rest" by (cases nodes) auto
    let ?new = "\<Union>other \<in> set rest. {(first, other), (other, first)}"
    have e: "length (fst t') = length adj" "edges (fst t') = edges adj \<union> ?new"
      using connects_edges [of first adj rest] n(1) len True by (auto simp: t' fr)
    have low: "map lower bs = names ! first # map (\<lambda>n. names ! n) rest" using n(2) fr by simp
    have "links [item] = {(x, y). \<exists>other \<in> set rest. (x = names ! first \<and> y = names ! other) \<or> (x = names ! other \<and> y = names ! first)}"
      using True low by (auto simp: links_def item_links_def item)
    then have "(names ! u, names ! v) \<in> links [item] \<longleftrightarrow> (u, v) \<in> ?new" if "u < length names" "v < length names" for u v
    proof -
      have "(names ! u = names ! first \<and> names ! v = names ! other \<or> names ! u = names ! other \<and> names ! v = names ! first) \<longleftrightarrow>
          (u = first \<and> v = other \<or> u = other \<and> v = first)" if "other \<in> set rest" for other
      proof -
        have "first < length names" "other < length names" using n(1) fr that by auto
        then show ?thesis using inj \<open>u < length names\<close> \<open>v < length names\<close> by simp
      qed
      with \<open>links [item] = _\<close> show ?thesis by auto
    qed
    moreover have "proper (fst t')"
    proof -
      have "sym ?new" by (auto simp: sym_def)
      moreover have "?new \<subseteq> {..<length names} \<times> {..<length names}" using n(1) fr by auto
      ultimately show ?thesis using pr len unfolding proper_def e by (simp add: sym_Un)
    qed
    ultimately show ?thesis using e by (intro exI [of _ "fst t'"]) simp
  next
    case False
    then have "fst t' = adj" by (auto simp: t')
    moreover have "links [item] = {}"
      using False n(2) by (auto simp: links_def item_links_def item split: list.splits)
    ultimately show ?thesis using pr by auto
  qed
  moreover have "list_all2 (\<lambda>(kind, name, bs, _) (kind', name', nodes). kind' = kind \<and> name' = name \<and> try_map (index_of idx) bs = Inr nodes) (items @ [item]) (snd t')"
    using eq nodes by (simp add: t' item list_all2_appendI)
  ultimately show ?thesis using ed len unfolding topology_ok_def links_append by (cases t') (simp only: prod.case fst_conv snd_conv Un_iff, blast)
qed

lemma add_items_topology:
  assumes "indexes names idx" "try_fold (add_item idx) (replicate (length idx) [], []) items = Inr t"
  shows "topology_ok names idx items t"
  using assms(2)
proof (induction items arbitrary: t rule: rev_induct)
  case Nil
  then show ?case using assms(1) by (auto simp: topology_ok_def indexes_def proper_def edges_def links_def sym_def)
next
  case (snoc item items)
  then obtain s where "try_fold (add_item idx) (replicate (length idx) [], []) items = Inr s" "add_item idx s item = Inr t"
    by (auto simp: try_fold_append and_then_Inr)
  with snoc.IH add_item_topology [OF assms(1)] show ?case by blast
qed

lemma add_items_known:
  assumes "indexes names idx"
  shows "is_ok (try_fold (add_item idx) t items) \<longleftrightarrow> (\<forall>(_, _, bs, _) \<in> set items. \<forall>b \<in> set bs. lower b \<in> set names)"
proof -
  have "is_ok (try_map (index_of idx) bs) \<longleftrightarrow> (\<forall>b \<in> set bs. lower b \<in> set names)" for bs
  proof (induction bs)
    case (Cons b bs)
    have "is_ok (try_map (index_of idx) (b # bs)) \<longleftrightarrow> is_ok (index_of idx b) \<and> is_ok (try_map (index_of idx) bs)"
      by (auto simp: is_ok_iff and_then_Inr)
    with Cons index_of_known [OF assms] show ?case by simp
  qed (simp add: is_ok_def)
  then have known: "is_ok (add_item idx t item) \<longleftrightarrow> (case item of (_, _, bs, _) \<Rightarrow> \<forall>b \<in> set bs. lower b \<in> set names)" for t item
    by (cases t; cases item) (simp add: add_item_def is_ok_and_then, simp add: is_ok_iff)
  show ?thesis
  proof (induction items arbitrary: t)
    case (Cons item items)
    have "is_ok (try_fold (add_item idx) t (item # items)) \<longleftrightarrow> is_ok (add_item idx t item) \<and>
        (\<forall>(_, _, bs, _) \<in> set items. \<forall>b \<in> set bs. lower b \<in> set names)"
      by (simp add: is_ok_and_then Cons.IH) (auto simp: is_ok_iff)
    then show ?case by (simp add: known case_prod_beta)
  qed (simp add: is_ok_def)
qed

section \<open>Clusters of names and reachable indices\<close>

lemma item_links_names: "item_links (k, name, bs, c) \<subseteq> (lower ` set bs) \<times> (lower ` set bs)"
proof (cases "map lower bs")
  case (Cons first rest)
  then have "lower ` set bs = insert first (set rest)" by (metis list.set(2) set_map)
  then show ?thesis by (auto simp: item_links_def Cons)
qed (simp add: item_links_def)

lemma links_names: "well_referenced net \<Longrightarrow> links (mc_items net) \<subseteq> set (bus_names net) \<times> set (bus_names net)"
  using item_links_names unfolding links_def well_referenced_def by fastforce

lemma sym_item_links: "sym (item_links item)"
proof (cases item)
  case (fields k name bs c)
  then show ?thesis by (cases "map lower bs") (auto simp: sym_def item_links_def)
qed

lemma sym_links: "sym (links items)"
  unfolding links_def by (rule sym_UNION) (simp add: sym_item_links)

lemma cluster_self [simp]: "x \<in> cluster net x"
  by (simp add: cluster_def)

lemma cluster_eq: "y \<in> cluster net x \<Longrightarrow> cluster net y = cluster net x"
proof -
  assume y: "y \<in> cluster net x"
  then have "(x, y) \<in> (links (mc_items net))\<^sup>*" "(y, x) \<in> (links (mc_items net))\<^sup>*"
    using sym_rtrancl [OF sym_links] by (auto simp: cluster_def dest: symD)
  then show ?thesis by (auto simp: cluster_def)
qed

lemma cluster_names:
  assumes "well_referenced net" "x \<in> set (bus_names net)"
  shows "cluster net x \<subseteq> set (bus_names net)"
proof
  fix y assume "y \<in> cluster net x"
  then have "(x, y) \<in> (links (mc_items net))\<^sup>*" by (simp add: cluster_def)
  then show "y \<in> set (bus_names net)" by induction (use assms links_names in auto)
qed

lemma cluster_reach:
  assumes wr: "well_referenced net" and ix: "indexes (bus_names net) idx"
    and top: "topology_ok (bus_names net) idx (mc_items net) (adj, equipment)" and u: "u < length (bus_names net)"
  shows "cluster net (bus_names net ! u) = (\<lambda>v. bus_names net ! v) ` reach adj u"
proof -
  let ?N = "bus_names net"
  have pr: "proper adj" and len: "length adj = length ?N"
    and ed: "\<forall>u < length ?N. \<forall>v < length ?N. (u, v) \<in> edges adj \<longleftrightarrow> (?N ! u, ?N ! v) \<in> links (mc_items net)"
    using top by (simp_all add: topology_ok_def)
  have bound: "reach adj u \<subseteq> {..<length ?N}" using reach_bound [OF pr, of u] u len by simp
  show ?thesis
  proof (intro equalityI subsetI)
    fix y assume "y \<in> cluster net (?N ! u)"
    then have "(?N ! u, y) \<in> (links (mc_items net))\<^sup>*" by (simp add: cluster_def)
    then show "y \<in> (\<lambda>v. ?N ! v) ` reach adj u"
    proof induction
      case (step y z)
      then obtain v where v: "y = ?N ! v" "v \<in> reach adj u" by blast
      have "z \<in> set ?N" using step(2) links_names [OF wr] by blast
      then obtain w where w: "z = ?N ! w" "w < length ?N" by (metis in_set_conv_nth)
      have "(v, w) \<in> edges adj" using ed v w bound step(2) by auto
      then show ?case using reach_step [OF v(2)] w(1) by blast
    qed simp
  next
    fix y assume "y \<in> (\<lambda>v. ?N ! v) ` reach adj u"
    then obtain v where y: "y = ?N ! v" "(u, v) \<in> (edges adj)\<^sup>*" by (auto simp: reach_def)
    from y(2) have "(?N ! u, ?N ! v) \<in> (links (mc_items net))\<^sup>*"
    proof induction
      case (step v w)
      have "v < length ?N" "w < length ?N" using step(2) pr len by (auto simp: proper_def)
      with step ed show ?case by (meson rtrancl.rtrancl_into_rtrancl)
    qed simp
    then show "y \<in> cluster net (?N ! u)" by (simp add: cluster_def y(1))
  qed
qed

section \<open>What an unpowered island is\<close>

definition island_of_cluster :: "mc_network \<Rightarrow> string set \<Rightarrow> excluded_island" where
  "island_of_cluster net C =
     \<lparr>xi_buses = sort (map mb_id (filter (\<lambda>b. lower (mb_id b) \<in> C) (mc_buses net))),
      xi_equipment = sort_key (\<lambda>e. (xe_kind e, xe_name e)) (map (\<lambda>(kind, name, _, _). \<lparr>xe_kind = kind, xe_name = name\<rparr>)
        (filter (\<lambda>(_, _, bs, _). \<exists>b \<in> set bs. lower b \<in> C) (mc_items net)))\<rparr>"

definition dark_clusters :: "mc_network \<Rightarrow> string set set" where
  "dark_clusters net = {cluster net x | x. x \<in> set (bus_names net) \<and> (\<forall>s \<in> set (mc_sources net). lower (mu_bus s) \<notin> cluster net x)}"

lemma filter_by_index: "map (\<lambda>i. xs ! i) (filter (\<lambda>i. P (xs ! i)) [0..<length xs]) = filter P xs"
proof -
  have "filter P xs = filter P (map (\<lambda>i. xs ! i) [0..<length xs])" by (simp add: map_nth)
  then show ?thesis by (simp add: filter_map comp_def)
qed

lemma reach_member:
  assumes "well_referenced net" "indexes (bus_names net) idx" "topology_ok (bus_names net) idx (mc_items net) (adj, equipment)"
    and "u < length (bus_names net)" "v < length (bus_names net)"
  shows "v \<in> reach adj u \<longleftrightarrow> bus_names net ! v \<in> cluster net (bus_names net ! u)"
proof -
  have "distinct (bus_names net)" using assms(1) by (simp add: well_referenced_def)
  moreover have "reach adj u \<subseteq> {..<length (bus_names net)}"
    using reach_bound [of adj u] assms(3,4) by (simp add: topology_ok_def)
  ultimately show ?thesis
    unfolding cluster_reach [OF assms(1-4)] using assms(5) by (auto simp: nth_eq_iff_index_eq)
qed

lemma island_of_reach:
  assumes wr: "well_referenced net" and ix: "indexes (bus_names net) idx"
    and top: "topology_ok (bus_names net) idx (mc_items net) (adj, equipment)" and u: "u < length (bus_names net)"
  shows "names_of net (reach adj u) = xi_buses (island_of_cluster net (cluster net (bus_names net ! u)))"
    and "sort_key (\<lambda>e. (xe_kind e, xe_name e)) (map item_of (filter (\<lambda>(_, _, nodes). \<exists>n \<in> set nodes. n \<in> reach adj u) equipment)) =
      xi_equipment (island_of_cluster net (cluster net (bus_names net ! u)))"
proof -
  let ?N = "bus_names net" and ?C = "cluster net (bus_names net ! u)"
  note mem = reach_member [OF assms]
  have N: "?N ! i = lower (mb_id (mc_buses net ! i))" "length ?N = length (mc_buses net)" if "i < length (mc_buses net)" for i
    using that by (simp_all add: bus_names_def)
  have "filter (\<lambda>i. i \<in> reach adj u) [0..<length (mc_buses net)] =
      filter (\<lambda>i. lower (mb_id (mc_buses net ! i)) \<in> ?C) [0..<length (mc_buses net)]"
    by (rule filter_cong) (use mem N in \<open>auto simp: bus_names_def\<close>)
  then have "map (\<lambda>i. mb_id (mc_buses net ! i)) (filter (\<lambda>i. i \<in> reach adj u) [0..<length (mc_buses net)]) =
      map mb_id (map (\<lambda>i. mc_buses net ! i) (filter (\<lambda>i. lower (mb_id (mc_buses net ! i)) \<in> ?C) [0..<length (mc_buses net)]))"
    by simp
  also have "\<dots> = map mb_id (filter (\<lambda>b. lower (mb_id b) \<in> ?C) (mc_buses net))"
    by (simp only: filter_by_index [of "mc_buses net" "\<lambda>b. lower (mb_id b) \<in> ?C"])
  finally show "names_of net (reach adj u) = xi_buses (island_of_cluster net ?C)" by (simp add: names_of_def island_of_cluster_def)
  have "list_all2 (\<lambda>(kind, name, bs, _) (kind', name', nodes). kind' = kind \<and> name' = name \<and> try_map (index_of idx) bs = Inr nodes) (mc_items net) equipment"
    using top by (simp add: topology_ok_def)
  then have "map item_of (filter (\<lambda>(_, _, nodes). \<exists>n \<in> set nodes. n \<in> reach adj u) equipment) =
      map (\<lambda>(kind, name, _, _). \<lparr>xe_kind = kind, xe_name = name\<rparr>) (filter (\<lambda>(_, _, bs, _). \<exists>b \<in> set bs. lower b \<in> ?C) (mc_items net))"
  proof (induction rule: list_all2_induct)
    case (Cons item items e es)
    obtain kind name bs c where item: "item = (kind, name, bs, c)" by (rule prod_cases4)
    obtain nodes where e: "e = (kind, name, nodes)" and nodes: "try_map (index_of idx) bs = Inr nodes"
      using Cons(1) by (cases e) (simp add: item)
    have n: "set nodes \<subseteq> {..<length ?N}" "map (\<lambda>n. ?N ! n) nodes = map lower bs" using indexed_nodes [OF ix nodes] by blast+
    have "(\<exists>b \<in> set bs. lower b \<in> ?C) \<longleftrightarrow> (\<exists>x \<in> set (map lower bs). x \<in> ?C)" by simp
    also have "\<dots> \<longleftrightarrow> (\<exists>n \<in> set nodes. ?N ! n \<in> ?C)" unfolding n(2) [symmetric] by simp
    also have "\<dots> \<longleftrightarrow> (\<exists>n \<in> set nodes. n \<in> reach adj u)" using mem n(1) by (intro bex_cong) auto
    finally show ?case using Cons(3) by (simp add: item e item_of_def)
  qed simp
  then show "sort_key (\<lambda>e. (xe_kind e, xe_name e)) (map item_of (filter (\<lambda>(_, _, nodes). \<exists>n \<in> set nodes. n \<in> reach adj u) equipment)) =
      xi_equipment (island_of_cluster net ?C)" by (simp add: island_of_cluster_def)
qed

section \<open>Unpowered islands are the dark clusters\<close>

lemma sort_key_map: "sort_key f (map g xs) = map g (sort_key (\<lambda>x. f (g x)) xs)"
proof -
  have "insort_key f (g x) (map g ys) = map g (insort_key (\<lambda>x. f (g x)) x ys)" for x ys
    by (induction ys) simp_all
  then show ?thesis by (induction xs) simp_all
qed

lemma order_attached:
  "order_islands (attached (map (\<lambda>s. (reach adj s, names_of net (reach adj s))) ss) equipment) =
     sort_key xi_buses (map (\<lambda>s. \<lparr>xi_buses = names_of net (reach adj s),
       xi_equipment = sort_key (\<lambda>e. (xe_kind e, xe_name e)) (map item_of (filter (\<lambda>(_, _, nodes). \<exists>n \<in> set nodes. n \<in> reach adj s) equipment))\<rparr>) ss)"
  by (simp add: order_islands_def attached_def comp_def)

lemma dark_starts:
  assumes wr: "well_referenced net" and ix: "indexes (bus_names net) idx"
    and top: "topology_ok (bus_names net) idx (mc_items net) (adj, equipment)"
    and src: "\<And>v. v < length (bus_names net) \<Longrightarrow> src v \<longleftrightarrow> (\<exists>s \<in> set (mc_sources net). lower (mu_bus s) = bus_names net ! v)"
  shows "(\<lambda>s. cluster net (bus_names net ! s)) ` {s. s < length (bus_names net) \<and> dark adj src s} = dark_clusters net"
    and "inj_on (\<lambda>s. cluster net (bus_names net ! s)) {s. s < length (bus_names net) \<and> dark adj src s}"
proof -
  let ?N = "bus_names net"
  note mem = reach_member [OF wr ix top]
  have pr: "proper adj" and len: "length adj = length ?N" using top by (simp_all add: topology_ok_def)
  have bound: "reach adj u \<subseteq> {..<length ?N}" if "u < length ?N" for u using reach_bound [OF pr] that len by simp
  have lit: "(\<exists>v \<in> reach adj u. src v) \<longleftrightarrow> (\<exists>s \<in> set (mc_sources net). lower (mu_bus s) \<in> cluster net (?N ! u))" if "u < length ?N" for u
    unfolding cluster_reach [OF wr ix top that] using src bound [OF that] by (auto simp: image_iff subset_iff)
  show "(\<lambda>s. cluster net (?N ! s)) ` {s. s < length ?N \<and> dark adj src s} = dark_clusters net"
  proof (intro equalityI subsetI)
    fix C assume "C \<in> (\<lambda>s. cluster net (?N ! s)) ` {s. s < length ?N \<and> dark adj src s}"
    then obtain s where s: "C = cluster net (?N ! s)" "s < length ?N" "dark adj src s" by blast
    then have "\<forall>x \<in> set (mc_sources net). lower (mu_bus x) \<notin> cluster net (?N ! s)" using lit [OF s(2)] by (simp add: dark_def)
    with s(1,2) show "C \<in> dark_clusters net" unfolding dark_clusters_def by (intro CollectI exI [of _ "?N ! s"]) simp
  next
    fix C assume "C \<in> dark_clusters net"
    then obtain x where x: "C = cluster net x" "x \<in> set ?N" "\<forall>s \<in> set (mc_sources net). lower (mu_bus s) \<notin> C"
      by (auto simp: dark_clusters_def)
    then obtain u where u: "u < length ?N" "?N ! u = x" by (auto simp: in_set_conv_nth)
    let ?s = "leader adj u"
    have s: "?s < length ?N" using leader_facts(2) [of adj u] u(1) by simp
    have "?s \<in> reach adj u" by (rule leader_facts(1))
    then have C: "cluster net (?N ! ?s) = C" using mem [OF u(1) s] u(2) x(1) cluster_eq by simp
    moreover have "leader adj ?s = ?s" using leader_facts(3) [OF pr \<open>?s \<in> reach adj u\<close>] .
    ultimately have "dark adj src ?s" using lit [OF s] x(3) by (simp add: dark_def)
    with C s show "C \<in> (\<lambda>s. cluster net (?N ! s)) ` {s. s < length ?N \<and> dark adj src s}" by blast
  qed
  show "inj_on (\<lambda>s. cluster net (?N ! s)) {s. s < length ?N \<and> dark adj src s}"
  proof (rule inj_onI)
    fix s t assume s: "s \<in> {s. s < length ?N \<and> dark adj src s}" and t: "t \<in> {s. s < length ?N \<and> dark adj src s}"
      and eq: "cluster net (?N ! s) = cluster net (?N ! t)"
    then have "t \<in> reach adj s" using mem [of s t] by simp
    then show "s = t" using s t reach_leader [OF pr, of s t] by (simp add: dark_def)
  qed
qed

lemma try_map_ok: "\<forall>x \<in> set xs. \<exists>y. f x = Inr y \<Longrightarrow> \<exists>ys. try_map f xs = Inr ys"
  by (induction xs) (auto simp: and_then_def)

lemma unpowered_run:
  assumes "well_referenced net"
  obtains idx adj equipment sources where "bus_indices net = Inr idx" "indexes (bus_names net) idx"
    "try_fold (add_item idx) (replicate (length idx) [], []) (mc_items net) = Inr (adj, equipment)"
    "topology_ok (bus_names net) idx (mc_items net) (adj, equipment)"
    "try_map (\<lambda>s. index_of idx (mu_bus s)) (mc_sources net) = Inr sources"
proof -
  obtain idx where idx: "bus_indices net = Inr idx" "indexes (bus_names net) idx"
    using bus_indices_outcome [of net] assms by (cases "bus_indices net") (auto simp: well_referenced_def)
  have "is_ok (try_fold (add_item idx) (replicate (length idx) [], []) (mc_items net))"
    using assms by (simp add: add_items_known [OF idx(2)] well_referenced_def)
  then obtain adj equipment where run: "try_fold (add_item idx) (replicate (length idx) [], []) (mc_items net) = Inr (adj, equipment)"
    by (auto simp: is_ok_iff)
  have "lower (mu_bus s) \<in> set (bus_names net)" if "s \<in> set (mc_sources net)" for s
  proof -
    have "(''source'', mu_name s, [mu_bus s], False) \<in> set (mc_items net)" using that by (simp add: mc_items_def)
    with assms show ?thesis unfolding well_referenced_def by fastforce
  qed
  then have "\<forall>s \<in> set (mc_sources net). \<exists>i. index_of idx (mu_bus s) = Inr i" using index_of_known [OF idx(2)] by (simp add: is_ok_iff)
  then obtain sources where "try_map (\<lambda>s. index_of idx (mu_bus s)) (mc_sources net) = Inr sources" using try_map_ok by metis
  with that idx run add_items_topology [OF idx(2) run] show thesis by blast
qed

lemma unpowered_islands_facts:
  "if well_referenced net
   then \<exists>islands Cs. mc_unpowered_islands net = Inr islands \<and> distinct Cs \<and> set Cs = dark_clusters net \<and>
     islands = map (island_of_cluster net) Cs \<and> sorted (map xi_buses islands)
   else \<exists>e. mc_unpowered_islands net = Inl e"
proof (cases "well_referenced net")
  case True
  let ?N = "bus_names net"
  from True obtain idx adj equipment sources where idx: "bus_indices net = Inr idx" "indexes ?N idx"
    and run: "try_fold (add_item idx) (replicate (length idx) [], []) (mc_items net) = Inr (adj, equipment)"
    and top: "topology_ok ?N idx (mc_items net) (adj, equipment)"
    and sources: "try_map (\<lambda>s. index_of idx (mu_bus s)) (mc_sources net) = Inr sources" by (rule unpowered_run)
  have pr: "proper adj" and len: "length adj = length ?N" "length adj = length (mc_buses net)" "length idx = length adj"
    using top idx(2) by (simp_all add: topology_ok_def bus_names_def indexes_def)
  let ?src = "\<lambda>n. n \<in> set sources" and ?ss = "filter (dark adj (\<lambda>n. n \<in> set sources)) [0..<length ?N]"
  obtain component starts where scan: "foldl (scan_start net adj ?src) (replicate (length adj) None, []) [0..<length adj] = (component, starts)"
    by fastforce
  with scan_result [OF pr len(2), of ?src] have comp: "\<And>v. v < length adj \<Longrightarrow> component ! v = Some (leader adj v)"
    and starts: "starts = map (\<lambda>s. (s, names_of net (reach adj s))) ?ss"
    using leader_facts(2) [of adj] by (auto simp: scan_inv_def len(1) intro: le_less_trans)
  have eqn: "\<forall>(_, _, nodes) \<in> set equipment. set nodes \<subseteq> {..<length adj}"
  proof clarify
    fix k name nodes n assume e: "(k, name, nodes) \<in> set equipment" "n \<in> set nodes"
    then obtain bs where "try_map (index_of idx) bs = Inr nodes"
      using top by (auto simp: topology_ok_def list_all2_conv_all_nth in_set_conv_nth)
    then show "n < length adj" using indexed_nodes [OF idx(2)] e(2) len(1) by fastforce
  qed
  have att: "foldl (attach_equipment component starts) (map (\<lambda>(_, bs). \<lparr>xi_buses = bs, xi_equipment = []\<rparr>) starts) equipment =
      attached (map (\<lambda>s. (reach adj s, names_of net (reach adj s))) ?ss) equipment"
    by (subst attach_all [OF comp pr _ _ eqn]) (auto simp: starts comp_def dark_def distinct_map)
  let ?Cs = "map (\<lambda>s. cluster net (?N ! s)) ?ss"
  let ?key = "\<lambda>C. xi_buses (island_of_cluster net C)"
  have isl: "\<lparr>xi_buses = names_of net (reach adj s),
      xi_equipment = sort_key (\<lambda>e. (xe_kind e, xe_name e)) (map item_of (filter (\<lambda>(_, _, nodes). \<exists>n \<in> set nodes. n \<in> reach adj s) equipment))\<rparr> =
      island_of_cluster net (cluster net (?N ! s))" if "s \<in> set ?ss" for s
    using island_of_reach [OF True idx(2) top, of s] that by (simp add: island_of_cluster_def)
  have out: "mc_unpowered_islands net = Inr (map (island_of_cluster net) (sort_key ?key ?Cs))"
  proof -
    have "map (\<lambda>s. \<lparr>xi_buses = names_of net (reach adj s),
        xi_equipment = sort_key (\<lambda>e. (xe_kind e, xe_name e)) (map item_of (filter (\<lambda>(_, _, nodes). \<exists>n \<in> set nodes. n \<in> reach adj s) equipment))\<rparr>) ?ss =
        map (island_of_cluster net) ?Cs" unfolding map_map comp_def using isl by (rule map_cong [OF refl])
    then show ?thesis
      unfolding mc_unpowered_islands_def
      by (simp only: idx(1) run [unfolded len(3)] sources scan len(3) and_then_simps Let_def prod.case att order_attached sort_key_map [symmetric])
  qed
  have src: "?src v \<longleftrightarrow> (\<exists>s \<in> set (mc_sources net). lower (mu_bus s) = ?N ! v)" if "v < length ?N" for v
  proof -
    have "list_all2 (\<lambda>s i. i < length ?N \<and> ?N ! i = lower (mu_bus s)) (mc_sources net) sources"
      using sources by (simp add: try_map_Inr index_of_Inr [OF idx(2)])
    moreover have "distinct ?N" using True by (simp add: well_referenced_def)
    ultimately show ?thesis using that
      by (induction rule: list_all2_induct) (auto simp: nth_eq_iff_index_eq)
  qed
  have "set ?Cs = dark_clusters net" using dark_starts(1) [OF True idx(2) top src] by auto
  moreover have "distinct ?Cs" unfolding distinct_map
    using dark_starts(2) [OF True idx(2) top src] by (auto intro: inj_on_subset)
  ultimately have "distinct (sort_key ?key ?Cs) \<and> set (sort_key ?key ?Cs) = dark_clusters net" by simp
  moreover have "sorted (map xi_buses (map (island_of_cluster net) (sort_key ?key ?Cs)))"
    unfolding map_map comp_def by (rule sorted_sort_key)
  ultimately show ?thesis using True out by (simp only: if_True) blast
next
  case False
  have "\<not> is_ok (mc_unpowered_islands net)"
  proof (cases "bus_indices net")
    case (Inr idx)
    then have ix: "indexes (bus_names net) idx" using bus_indices_outcome [of net] by simp
    then have "distinct (bus_names net)" by (simp add: indexes_def)
    with False have "\<not> is_ok (try_fold (add_item idx) (replicate (length idx) [], []) (mc_items net))"
      unfolding add_items_known [OF ix] well_referenced_def by simp
    then show ?thesis by (auto simp: mc_unpowered_islands_def Inr is_ok_iff and_then_Inr)
  qed (simp add: mc_unpowered_islands_def is_ok_def)
  with False show ?thesis by (cases "mc_unpowered_islands net") (auto simp: is_ok_def)
qed

text \<open>C14: The islands reported as unpowered are exactly the clusters of connected buses without a voltage source: one island for each,
  with the sorted identities of its buses and, sorted, every item that touches it, and the islands themselves in order. The answer is an error
  exactly when two buses share an identity or an item refers to a bus that does not exist, identities being compared without case.\<close>

theorem unpowered_islands_exact:
  "if well_referenced net
   then \<exists>islands Cs. mc_unpowered_islands net = Inr islands \<and> distinct Cs \<and> set Cs = dark_clusters net \<and>
     islands = map (island_of_cluster net) Cs \<and> sorted (map xi_buses islands)
   else \<exists>e. mc_unpowered_islands net = Inl e"
  by (rule unpowered_islands_facts)

section \<open>The energized subset has no unpowered island\<close>

lemma unpowered_islands_ok:
  assumes "mc_unpowered_islands net = Inr islands"
  obtains Cs where "well_referenced net" "distinct Cs" "set Cs = dark_clusters net" "islands = map (island_of_cluster net) Cs"
  using assms unpowered_islands_facts [of net] by (auto split: if_splits)

lemma dark_cluster_names: "well_referenced net \<Longrightarrow> C \<in> dark_clusters net \<Longrightarrow> C \<subseteq> set (bus_names net)"
  by (auto simp: dark_clusters_def dest: cluster_names)

lemma keep_bus_dark:
  assumes "mc_unpowered_islands net = Inr islands"
  shows "keep_bus islands b \<longleftrightarrow> lower b \<notin> \<Union> (dark_clusters net)"
proof -
  from assms obtain Cs where cs: "well_referenced net" "set Cs = dark_clusters net" "islands = map (island_of_cluster net) Cs"
    by (rule unpowered_islands_ok)
  have "lower ` set (xi_buses (island_of_cluster net C)) = C" if "C \<in> dark_clusters net" for C
    using dark_cluster_names [OF cs(1) that] by (force simp: island_of_cluster_def bus_names_def)
  then have "lower ` (\<Union>i \<in> set islands. set (xi_buses i)) = \<Union> (dark_clusters net)" by (simp add: cs image_UN)
  then show ?thesis by (simp add: keep_bus_def)
qed

lemma dark_closed:
  assumes "item \<in> set (mc_items net)" "(x, y) \<in> item_links item" "y \<in> \<Union> (dark_clusters net)"
  shows "x \<in> \<Union> (dark_clusters net)"
proof -
  from assms(3) obtain C z where C: "C \<in> dark_clusters net" "y \<in> C" "C = cluster net z" by (auto simp: dark_clusters_def)
  have "(y, x) \<in> links (mc_items net)" using assms(1) symD [OF sym_item_links assms(2)] by (auto simp: links_def)
  with C(2) have "x \<in> C" unfolding C(3) cluster_def by (auto intro: rtrancl_into_rtrancl)
  with C(1) show ?thesis by blast
qed

lemma item_links_all:
  assumes "(x, y) \<in> item_links (k, name, bs, c)" "b \<in> set bs"
  shows "lower b = x \<or> lower b = y \<or> (x, lower b) \<in> item_links (k, name, bs, c) \<or> (y, lower b) \<in> item_links (k, name, bs, c)"
proof (cases "map lower bs")
  case (Cons first rest)
  have "lower b \<in> set (map lower bs)" using assms(2) by simp
  with assms(1) show ?thesis unfolding Cons by (auto simp: item_links_def Cons split: if_splits)
qed (use assms in \<open>simp add: item_links_def\<close>)

lemma select_items:
  "mc_items (select net islands) = filter (\<lambda>(_, _, bs, _). \<forall>b \<in> set bs. keep_bus islands b) (mc_items net)"
  by (simp add: mc_items_def select_def Let_def filter_map comp_def)

lemma select_names: "bus_names (select net islands) = map (\<lambda>b. lower (mb_id b)) (filter (\<lambda>b. keep_bus islands (mb_id b)) (mc_buses net))"
  by (simp add: bus_names_def select_def Let_def)

lemma select_links:
  assumes "mc_unpowered_islands net = Inr islands" "x \<notin> \<Union> (dark_clusters net)"
  shows "(x, y) \<in> links (mc_items (select net islands)) \<longleftrightarrow> (x, y) \<in> links (mc_items net)"
proof
  assume "(x, y) \<in> links (mc_items net)"
  then obtain item where item: "item \<in> set (mc_items net)" "(x, y) \<in> item_links item" by (auto simp: links_def)
  obtain k name bs c where it: "item = (k, name, bs, c)" by (rule prod_cases4)
  have y: "y \<notin> \<Union> (dark_clusters net)" using dark_closed [OF item] assms(2) by blast
  have "keep_bus islands b" if "b \<in> set bs" for b
    unfolding keep_bus_dark [OF assms(1)]
    using item_links_all [OF item(2) [unfolded it] that] dark_closed [OF item(1)] assms(2) y unfolding it by blast
  then have "item \<in> set (mc_items (select net islands))" using item(1) by (simp add: select_items it)
  with item(2) show "(x, y) \<in> links (mc_items (select net islands))" by (auto simp: links_def)
qed (auto simp: links_def select_items)

lemma select_cluster:
  assumes "mc_unpowered_islands net = Inr islands" "x \<notin> \<Union> (dark_clusters net)"
  shows "cluster (select net islands) x = cluster net x"
proof -
  have out: "y \<notin> \<Union> (dark_clusters net)" if "(x, y) \<in> (links (mc_items net))\<^sup>*" for y
    using that
  proof induction
    case (step y z)
    then obtain item where "item \<in> set (mc_items net)" "(y, z) \<in> item_links item" by (auto simp: links_def)
    with dark_closed step(3) show ?case by blast
  qed (use assms(2) in simp)
  have sub: "links (mc_items (select net islands)) \<subseteq> links (mc_items net)" by (auto simp: links_def select_items)
  show ?thesis
  proof (intro equalityI subsetI)
    fix y assume "y \<in> cluster (select net islands) x"
    then show "y \<in> cluster net x" using rtrancl_mono [OF sub] by (auto simp: cluster_def)
  next
    fix y assume "y \<in> cluster net x"
    then have "(x, y) \<in> (links (mc_items net))\<^sup>*" by (simp add: cluster_def)
    then have "(x, y) \<in> (links (mc_items (select net islands)))\<^sup>*"
    proof induction
      case (step y z)
      have "(y, z) \<in> links (mc_items (select net islands))" using select_links [OF assms(1) out [OF step(1)]] step(2) by blast
      with step(3) show ?case by (rule rtrancl_into_rtrancl)
    qed simp
    then show "y \<in> cluster (select net islands) x" by (simp add: cluster_def)
  qed
qed

text \<open>C13: Excluding the unpowered islands leaves a network that is powered throughout. A bus is kept exactly when no reported island lists it, and an
  item exactly when it touches no excluded bus; in what is kept every reference resolves and every cluster of connected buses has a source, so no
  further exclusion is found.\<close>

theorem energized_subset_powered:
  assumes "mc_unpowered_islands net = Inr islands"
  shows "mc_unpowered_islands (select net islands) = Inr [] \<and>
    (\<forall>b \<in> set (mc_buses net). b \<in> set (mc_buses (select net islands)) \<longleftrightarrow> (\<forall>i \<in> set islands. mb_id b \<notin> set (xi_buses i))) \<and>
    mc_items (select net islands) = filter (\<lambda>(_, _, bs, _). \<forall>b \<in> set bs. keep_bus islands b) (mc_items net)"
proof (intro conjI ballI)
  from assms obtain Cs where cs: "well_referenced net" "set Cs = dark_clusters net" "islands = map (island_of_cluster net) Cs"
    by (rule unpowered_islands_ok)
  note keep = keep_bus_dark [OF assms]
  have names: "x \<in> set (bus_names (select net islands)) \<longleftrightarrow> x \<in> set (bus_names net) \<and> x \<notin> \<Union> (dark_clusters net)" for x
    unfolding select_names unfolding bus_names_def by (auto simp: keep)
  have "distinct (bus_names (select net islands))"
    unfolding select_names using cs(1) by (auto simp: well_referenced_def bus_names_def distinct_map inj_on_def)
  moreover have "\<forall>(_, _, bs, _) \<in> set (mc_items (select net islands)). \<forall>b \<in> set bs. lower b \<in> set (bus_names (select net islands))"
    using cs(1) by (fastforce simp: select_items names keep well_referenced_def)
  ultimately have wr: "well_referenced (select net islands)" by (simp add: well_referenced_def)
  have "dark_clusters (select net islands) = {}"
  proof -
    have "\<exists>s \<in> set (mc_sources (select net islands)). lower (mu_bus s) \<in> cluster (select net islands) x"
      if x: "x \<in> set (bus_names (select net islands))" for x
    proof -
      have lit: "x \<notin> \<Union> (dark_clusters net)" "x \<in> set (bus_names net)" using x names by auto
      then have "cluster net x \<notin> dark_clusters net" by (metis UnionI cluster_self)
      with lit(2) obtain s where s: "s \<in> set (mc_sources net)" "lower (mu_bus s) \<in> cluster net x" by (auto simp: dark_clusters_def)
      have "lower (mu_bus s) \<notin> \<Union> (dark_clusters net)"
      proof
        assume "lower (mu_bus s) \<in> \<Union> (dark_clusters net)"
        then obtain z where z: "cluster net z \<in> dark_clusters net" "lower (mu_bus s) \<in> cluster net z" by (auto simp: dark_clusters_def)
        then have "cluster net z = cluster net x" using cluster_eq [OF s(2)] cluster_eq [OF z(2)] by simp
        with z(1) lit(1) show False by (metis UnionI cluster_self)
      qed
      then have "s \<in> set (mc_sources (select net islands))" using s(1) by (simp add: select_def Let_def keep)
      with s(2) show ?thesis unfolding select_cluster [OF assms lit(1)] by blast
    qed
    then show ?thesis unfolding dark_clusters_def by blast
  qed
  with unpowered_islands_facts [of "select net islands"] wr show "mc_unpowered_islands (select net islands) = Inr []" by auto
  fix b assume b: "b \<in> set (mc_buses net)"
  have "keep_bus islands (mb_id b) \<longleftrightarrow> (\<forall>i \<in> set islands. mb_id b \<notin> set (xi_buses i))"
  proof
    show "keep_bus islands (mb_id b) \<Longrightarrow> \<forall>i \<in> set islands. mb_id b \<notin> set (xi_buses i)" by (auto simp: keep_bus_def)
    assume none: "\<forall>i \<in> set islands. mb_id b \<notin> set (xi_buses i)"
    show "keep_bus islands (mb_id b)"
      unfolding keep cs(2) [symmetric] using none b by (auto simp: cs(3) island_of_cluster_def)
  qed
  with b show "b \<in> set (mc_buses (select net islands)) \<longleftrightarrow> (\<forall>i \<in> set islands. mb_id b \<notin> set (xi_buses i))"
    by (simp add: select_def Let_def)
qed (rule select_items)

section \<open>The recorded selection\<close>

text \<open>PowerIO keeps the value of a module and records the extension; JSON reads back what it wrote.\<close>

definition extension_laws :: "'j mc_powerio \<Rightarrow> bool" where
  "extension_laws io \<longleftrightarrow>
     (\<forall>m key j m'. insert_extension io m key j = Inr m' \<longrightarrow> mm_value m' = mm_value m \<and> map_of (mm_extensions m') key = Some j) \<and>
     (\<forall>islands j. islands_to_json io islands = Inr j \<longrightarrow> islands_of_json io j = Inr islands)"

text \<open>C35: A prepared selection is accepted and solved as prepared. Preparation leaves the value of the module alone and records
  the unpowered islands; validation of the prepared module finds the record to match the topology and returns the same islands; and the instance that is solved
  is built from the energized subset, in which no unpowered island is left.\<close>

theorem prepared_selection_accepted:
  assumes "extension_laws io" "mm_value m = MulticonductorNetwork net" "prepare_mc_energized_network io m = Inr (m', islands)"
  shows "mm_value m' = mm_value m \<and> mc_unpowered_islands net = Inr islands \<and> validate_selection io m' = Inr islands \<and>
     selection io m' = Inr (Some (select net islands), islands) \<and> mc_instance io m' = instance_of_network io (select net islands) \<and>
     mc_sources net \<noteq> []"
proof -
  from assms(2,3) obtain j where r: "mc_sources net \<noteq> []" "mc_unpowered_islands net = Inr islands" "islands_to_json io islands = Inr j"
    "insert_extension io m EXTENSION j = Inr m'"
    by (auto simp: prepare_mc_energized_network_def and_then_Inr require_source_def err_if_Inr)
  with assms(1) have laws: "mm_value m' = mm_value m" "map_of (mm_extensions m') EXTENSION = Some j" "islands_of_json io j = Inr islands"
    by (auto simp: extension_laws_def)
  then have v: "validate_selection io m' = Inr islands"
    using r(1,2) assms(2) by (simp add: validate_selection_def require_source_def)
  then have "selection io m' = Inr (Some (select net islands), islands)" using laws assms(2) by (simp add: selection_def)
  with v r laws show ?thesis by (simp add: mc_instance_def)
qed

section \<open>A concrete network\<close>

text \<open>Two lines; the switch between them is open, and only the first is fed.\<close>

definition witness_mc :: mc_network where
  "witness_mc = \<lparr>mc_buses = map (\<lambda>b. \<lparr>mb_id = b, mb_rest = []\<rparr>) [''a'', ''B'', ''c'', ''D''],
     mc_lines = [\<lparr>ml_name = ''l1'', ml_from = ''A'', ml_to = ''b'', ml_rest = []\<rparr>, \<lparr>ml_name = ''l2'', ml_from = ''d'', ml_to = ''C'', ml_rest = []\<rparr>],
     mc_switches = [\<lparr>ms_name = ''s'', ms_from = ''b'', ms_to = ''c'', ms_open = True, ms_rest = []\<rparr>], mc_transformers = [],
     mc_loads = [\<lparr>mu_name = ''load'', mu_bus = ''c'', mu_rest = []\<rparr>], mc_generators = [], mc_ibrs = [], mc_shunts = [], mc_capacitors = [],
     mc_sources = [\<lparr>mu_name = ''grid'', mu_bus = ''a'', mu_rest = []\<rparr>], mc_locations = [], mc_rest = []\<rparr>"

definition witness_island :: excluded_island where
  "witness_island = \<lparr>xi_buses = [''D'', ''c''], xi_equipment = [\<lparr>xe_kind = ''line'', xe_name = ''l2''\<rparr>, \<lparr>xe_kind = ''load'', xe_name = ''load''\<rparr>,
     \<lparr>xe_kind = ''switch'', xe_name = ''s''\<rparr>]\<rparr>"

lemma witness_unpowered: "mc_unpowered_islands witness_mc = Inr [witness_island]"
  by code_simp

theorem energized_subset_powered_witness:
  "mc_unpowered_islands witness_mc = Inr [witness_island] \<and> mc_unpowered_islands (select witness_mc [witness_island]) = Inr []"
  using witness_unpowered energized_subset_powered [OF witness_unpowered] by blast

definition witness_io :: "excluded_island list mc_powerio" where
  "witness_io = \<lparr>islands_to_json = Inr, islands_of_json = Inr,
     insert_extension = (\<lambda>m key j. Inr (m\<lparr>mm_extensions := bt_insert key j (mm_extensions m)\<rparr>)),
     validate_mc_module = (\<lambda>_. Inr ()), mc_deserialize = (\<lambda>_. Inl []), mc_serialize = (\<lambda>_. Inr []), prepared_json = (\<lambda>_ _ _. Inr []),
     instance_of_network = (\<lambda>_. Inr []), instance_from_value = (\<lambda>_. Inl [])\<rparr>"

theorem prepared_selection_accepted_witness:
  "\<exists>m'. prepare_mc_energized_network witness_io \<lparr>mm_value = MulticonductorNetwork witness_mc, mm_extensions = [], mm_rest = []\<rparr> = Inr (m', [witness_island]) \<and>
     validate_selection witness_io m' = Inr [witness_island]"
proof -
  let ?m = "\<lparr>mm_value = MulticonductorNetwork witness_mc, mm_extensions = [], mm_rest = []\<rparr> :: excluded_island list mc_module"
  have laws: "extension_laws witness_io" by (simp add: extension_laws_def witness_io_def map_of_bt_insert)
  have "mc_sources witness_mc \<noteq> []" by (simp add: witness_mc_def)
  then obtain m' where m': "prepare_mc_energized_network witness_io ?m = Inr (m', [witness_island])"
    by (auto simp: prepare_mc_energized_network_def require_source_def witness_unpowered witness_io_def)
  from prepared_selection_accepted [OF laws _ m'] m' show ?thesis by auto
qed

end
