(* ===== verification/Mc_Session.thy ===== *)
theory Mc_Session
  imports F64
begin

text \<open>
  The revisioned session of the multiconductor OPF and the one-shot solve beside it (\<open>src/crates/tellegen/src/mc_opf/session.rs\<close> and
  \<open>mod.rs\<close>, with the errors of \<open>diagnostics.rs\<close> and the seed handling of \<open>initial.rs\<close>). An operation on \<open>&mut self\<close> returns its
  outcome and the session after it. PowerIO instances and operating points, POUNCE, complex arithmetic and the numeric code of the crate
  (compiler of the model, least-squares projection of a declared point, residual checks, dual analysis) are fields of an \<open>opf_io\<close>; the
  optimizer may answer differently on every call. A \<open>Vec\<close> of columns has one entry per variable name of the model; timings are left out.
\<close>

section \<open>Errors\<close>

datatype McOpfErrorKind = InvalidInput | UnsupportedInput | Cancelled | NumericalFailure | PhysicalValidationFailure | SerializationFailure
datatype McOpfStage = Input | Preparation | Compilation | Solver | Validation | Import | Export
datatype DiagnosticSeverity = SevError | SevWarning | SevRemark

record opf_diagnostic =
  md_code :: string
  md_severity :: DiagnosticSeverity
  md_message :: string
  md_target :: "string option"

record opf_error =
  me_kind :: McOpfErrorKind
  me_stage :: McOpfStage
  me_message :: string
  me_diagnostics :: "opf_diagnostic list"
  me_solver_status :: "string option"
  me_evidence :: string

text \<open>\<open>me_evidence\<close> stands for the residuals and violations an error carries. A PowerIO error: its text and its diagnostics.\<close>

record powerio_error =
  pe_text :: string
  pe_diagnostics :: "opf_diagnostic list"

definition opf_error_new :: "McOpfErrorKind \<Rightarrow> McOpfStage \<Rightarrow> string \<Rightarrow> opf_error" where
  "opf_error_new kn stage message =
     \<lparr>me_kind = kn, me_stage = stage, me_message = message, me_diagnostics = [], me_solver_status = None, me_evidence = []\<rparr>"

definition contains_text :: "string \<Rightarrow> string \<Rightarrow> bool" where
  "contains_text s pat \<longleftrightarrow> list_ex (\<lambda>i. take (length pat) (drop i s) = pat) [0..<Suc (length s)]"

definition from_powerio :: "McOpfStage \<Rightarrow> powerio_error \<Rightarrow> opf_error" where
  "from_powerio stage e =
     (opf_error_new
        (if stage = Export then SerializationFailure
         else if list_ex (\<lambda>d. contains_text (md_code d) ''UNSUPPORTED'') (pe_diagnostics e) then UnsupportedInput
         else InvalidInput) stage (pe_text e))\<lparr>me_diagnostics := pe_diagnostics e\<rparr>"

definition invalid_with :: "string \<Rightarrow> string \<Rightarrow> string \<Rightarrow> string \<Rightarrow> opf_error" where
  "invalid_with what code target message =
     (let text = what @ target @ '': '' @ message
      in (opf_error_new InvalidInput Input text)\<lparr>me_diagnostics :=
            [\<lparr>md_code = code, md_severity = SevError, md_message = text, md_target = Some target\<rparr>]\<rparr>)"

definition session_invalid :: "string \<Rightarrow> string \<Rightarrow> opf_error" where
  "session_invalid = invalid_with ''session '' ''MC_OPF.SESSION_EDIT_INVALID''"

definition point_invalid :: "string \<Rightarrow> string \<Rightarrow> opf_error" where
  "point_invalid = invalid_with ''initial point '' ''MC_OPF.INITIAL_POINT_INVALID''"

definition point_unsupported :: "string \<Rightarrow> opf_error" where
  "point_unsupported target =
     (let e = point_invalid target ''is equipment state, not a continuous IVR starting variable''
      in e\<lparr>me_kind := UnsupportedInput,
           me_diagnostics := map (\<lambda>d. d\<lparr>md_code := ''MC_OPF.INITIAL_POINT_UNSUPPORTED''\<rparr>) (me_diagnostics e)\<rparr>)"

section \<open>Options\<close>

record opf_options =
  voltage_base_v :: f64
  power_base_va :: f64
  acceptance_tolerance :: f64
  opf_max_iterations :: "32 word"
  objective_scale :: f64
  collect_profile :: bool
  collect_duals :: bool

definition option_failures :: "opf_options \<Rightarrow> (string \<times> string) list" where
  "option_failures o' =
     map (\<lambda>(name, _). (name, ''must be finite and positive''))
       (filter (\<lambda>(_, v). \<not> is_finite v \<or> v \<le> 0)
         [(''voltage_base_v'', voltage_base_v o'), (''power_base_va'', power_base_va o'),
          (''acceptance_tolerance'', acceptance_tolerance o'), (''objective_scale'', objective_scale o')]) @
     (if opf_max_iterations o' = 0 \<or> 2 ^ 31 - 1 < opf_max_iterations o' then [(''max_iterations'', ''must be in 1..=i32::MAX'')] else [])"

definition validate_opf_options :: "opf_options \<Rightarrow> (opf_error, unit) result" where
  "validate_opf_options o' =
     (if option_failures o' = [] then Inr ()
      else Inl ((opf_error_new InvalidInput Input ''invalid multiconductor OPF options'')\<lparr>me_diagnostics :=
             map (\<lambda>(name, requirement). \<lparr>md_code = ''MC_OPF.INVALID_OPTION'', md_severity = SevError,
               md_message = name @ '' '' @ requirement, md_target = Some (''/options/'' @ name)\<rparr>) (option_failures o')\<rparr>))"

text \<open>The derived \<open>PartialEq\<close> and the comparison of the bases.\<close>

definition same_bases :: "opf_options \<Rightarrow> opf_options \<Rightarrow> bool" where
  "same_bases a b \<longleftrightarrow> f64_eq (voltage_base_v a) (voltage_base_v b) \<and> f64_eq (power_base_va a) (power_base_va b)"

definition options_eq :: "opf_options \<Rightarrow> opf_options \<Rightarrow> bool" where
  "options_eq a b \<longleftrightarrow> same_bases a b \<and> f64_eq (acceptance_tolerance a) (acceptance_tolerance b) \<and>
     opf_max_iterations a = opf_max_iterations b \<and> f64_eq (objective_scale a) (objective_scale b) \<and>
     collect_profile a = collect_profile b \<and> collect_duals a = collect_duals b"

text \<open>The \<open>k\<close>-th poll of the cancellation flag.\<close>

definition cancelled :: "(nat \<Rightarrow> bool) \<Rightarrow> nat \<Rightarrow> McOpfStage \<Rightarrow> (opf_error, unit) result" where
  "cancelled cancel k stage = err_if (cancel k) (opf_error_new Cancelled stage ''multiconductor OPF cancelled'')"

section \<open>The network of a session\<close>

text \<open>The columns a session reads and edits; the rest of a row is opaque.\<close>

record opf_load =
  ol_name :: string
  ol_p_nom :: "f64 list"
  ol_q_nom :: "f64 list"
  ol_terminal_map :: "string list"
  ol_rest :: string

record opf_inverter =
  oi_name :: string
  oi_s_max :: "f64 list"
  oi_p_max :: "f64 list option"
  oi_p_avail :: "f64 option"
  oi_rest :: string

record opf_generator =
  og_name :: string
  og_p_nom :: "f64 list"
  og_cost :: "f64 list option"
  og_p_min :: "f64 list option"
  og_p_max :: "f64 list option"
  og_q_min :: "f64 list option"
  og_q_max :: "f64 list option"
  og_terminal_map :: "string list"
  og_rest :: string

record opf_source =
  os_name :: string
  os_energy_cost_rate :: "f64 list option"
  os_rest :: string

record opf_line =
  on_name :: string
  on_terminal_map_from :: "string list"
  on_i_max :: "f64 list option"
  on_s_max :: "f64 list option"
  on_rest :: string

record opf_bus =
  ob_id :: string
  ob_terminals :: "string list"
  ob_v_min :: "f64 option"
  ob_v_max :: "f64 option"
  ob_rest :: string

text \<open>A curve: its breakpoints and its limits.\<close>

record control_profile =
  cp_name :: string
  cp_power_factor :: "f64 option"
  cp_volt_var :: "(f64 list \<times> f64 list) option"
  cp_volt_watt :: "(f64 list \<times> f64 list) option"
  cp_rest :: string

record opf_network =
  ow_loads :: "opf_load list"
  ow_inverters :: "opf_inverter list"
  ow_generators :: "opf_generator list"
  ow_sources :: "opf_source list"
  ow_lines :: "opf_line list"
  ow_buses :: "opf_bus list"
  ow_profiles :: "control_profile list"
  ow_transformers :: "string list"
  ow_rest :: string

section \<open>Edits\<close>

datatype 'c McOpfEdit =
    LoadPower string "f64 list" "f64 list"
  | InverterAvailability string "f64 list option"
  | InverterControlProfile string "f64 option" "f64 list option" "f64 list option" "f64 list option" "f64 list option"
  | GeneratorCost string "f64 list option"
  | SourceCost string "f64 list option"
  | GeneratorPowerBounds string "f64 list option" "f64 list option" "f64 list option" "f64 list option"
  | LineLimits string "f64 list option" "f64 list option"
  | BusVoltageBounds string "f64 option" "f64 option"
  | ConstraintSelection 'c

definition named :: "'r list \<Rightarrow> string \<Rightarrow> ('r \<Rightarrow> string) \<Rightarrow> (opf_error, nat) result" where
  "named items name ident =
     (case filter (\<lambda>i. ident (items ! i) = name) [0..<length items] of
        [] \<Rightarrow> Inl (session_invalid name ''unknown component identity'')
      | [i] \<Rightarrow> Inr i
      | _ \<Rightarrow> Inl (session_invalid name ''ambiguous component identity''))"

text \<open>The edit \<open>f\<close> of the row that \<open>named\<close> finds.\<close>

definition edit_row :: "'r list \<Rightarrow> string \<Rightarrow> ('r \<Rightarrow> string) \<Rightarrow> ('r \<Rightarrow> (opf_error, 'r) result) \<Rightarrow> (opf_error, 'r list) result" where
  "edit_row items name ident f =
     and_then (named items name ident) (\<lambda>i. and_then (f (items ! i)) (\<lambda>row. Inr (items[i := row])))"

definition numbers :: "string \<Rightarrow> f64 list \<Rightarrow> bool \<Rightarrow> (opf_error, unit) result" where
  "numbers target values nonnegative =
     err_if (list_ex (\<lambda>v. \<not> is_finite v \<or> (nonnegative \<and> v < 0)) values)
       (session_invalid target ''values must be finite and in the field's physical domain'')"

definition vector :: "string \<Rightarrow> f64 list \<Rightarrow> nat \<Rightarrow> bool \<Rightarrow> (opf_error, unit) result" where
  "vector target values n nonnegative =
     and_then (err_if (length values \<noteq> n) (session_invalid target ''vector length differs from the canonical equipment axis''))
       (\<lambda>_. numbers target values nonnegative)"

definition optional_vector :: "string \<Rightarrow> f64 list option \<Rightarrow> nat \<Rightarrow> bool \<Rightarrow> (opf_error, unit) result" where
  "optional_vector target values n nonnegative = try_opt (\<lambda>v. vector target v n nonnegative) values"

definition cost :: "string \<Rightarrow> f64 list option \<Rightarrow> nat \<Rightarrow> (opf_error, unit) result" where
  "cost target values n =
     try_opt (\<lambda>v. and_then (err_if (length v \<noteq> 1 \<and> length v \<noteq> n) (session_invalid target ''cost must be scalar or per coil''))
       (\<lambda>_. numbers target v False)) values"

definition ordered_bounds :: "string \<Rightarrow> f64 list option \<Rightarrow> f64 list option \<Rightarrow> (opf_error, unit) result" where
  "ordered_bounds target lo hi =
     (case (lo, hi) of
        (Some lo, Some hi) \<Rightarrow> err_if (list_ex (\<lambda>(l, h). h < l) (zip lo hi)) (session_invalid target ''minimum exceeds maximum'')
      | _ \<Rightarrow> Inr ())"

definition profile_curve :: "string \<Rightarrow> f64 list \<Rightarrow> f64 list option \<Rightarrow> nat \<Rightarrow> bool \<Rightarrow> (opf_error, f64 list) result" where
  "profile_curve target current replacement n breakpoints =
     (case replacement of None \<Rightarrow> Inr current
      | Some v \<Rightarrow>
          and_then (vector target v n False) (\<lambda>_.
          and_then (err_if (breakpoints \<and> (list_ex (\<lambda>x. x \<le> 0) v \<or> list_ex (\<lambda>(a, b). b \<le> a) (zip v (tl v))))
            (session_invalid target ''voltage breakpoints must be positive and strictly ordered'')) (\<lambda>_.
          Inr v)))"

text \<open>A curve pair of a profile, patched where one of its two replacements is given.\<close>

definition patch_curve ::
  "string \<Rightarrow> string \<Rightarrow> (f64 list \<times> f64 list) option \<Rightarrow> f64 list option \<Rightarrow> nat \<Rightarrow> f64 list option \<Rightarrow> nat
     \<Rightarrow> (opf_error, (f64 list \<times> f64 list) option) result" where
  "patch_curve target missing curve breakpoints n limits k =
     (if breakpoints = None \<and> limits = None then Inr curve
      else and_then (ok_or (session_invalid target missing) curve) (\<lambda>(b, l).
           and_then (profile_curve target b breakpoints n True) (\<lambda>b.
           and_then (profile_curve target l limits k False) (\<lambda>l. Inr (Some (b, l))))))"

definition patch_power_factor :: "string \<Rightarrow> f64 option \<Rightarrow> f64 option \<Rightarrow> (opf_error, f64 option) result" where
  "patch_power_factor target current replacement =
     (case replacement of None \<Rightarrow> Inr current
      | Some pf \<Rightarrow>
          and_then (err_if (\<not> is_finite pf \<or> f64_eq pf 0 \<or> 1 < \<bar>pf\<bar>) (session_invalid target ''power factor must satisfy 0 < |pf| <= 1'')) (\<lambda>_.
          and_then (ok_or (session_invalid target ''profile has no power-factor control'') current) (\<lambda>_. Inr (Some pf))))"

definition patch_profile ::
  "string \<Rightarrow> f64 option \<Rightarrow> f64 list option \<Rightarrow> f64 list option \<Rightarrow> f64 list option \<Rightarrow> f64 list option \<Rightarrow> control_profile
     \<Rightarrow> (opf_error, control_profile) result" where
  "patch_profile profile power_factor vv_breakpoints vv_limits vw_breakpoints vw_limits p =
     and_then (patch_power_factor profile (cp_power_factor p) power_factor) (\<lambda>pf.
     and_then (patch_curve profile ''profile has no volt-var control'' (cp_volt_var p) vv_breakpoints 4 vv_limits 2) (\<lambda>vv.
     and_then (patch_curve profile ''profile has no volt-watt control'' (cp_volt_watt p) vw_breakpoints 2 vw_limits 2) (\<lambda>vw.
     Inr (p\<lparr>cp_power_factor := pf, cp_volt_var := vv, cp_volt_watt := vw\<rparr>))))"

definition edit_generator_bounds ::
  "string \<Rightarrow> f64 list option \<Rightarrow> f64 list option \<Rightarrow> f64 list option \<Rightarrow> f64 list option \<Rightarrow> opf_generator \<Rightarrow> (opf_error, opf_generator) result" where
  "edit_generator_bounds generator p_min p_max q_min q_max d =
     and_then (try_each (\<lambda>values. optional_vector generator values (length (og_p_nom d)) False) [p_min, p_max, q_min, q_max]) (\<lambda>_.
     and_then (ordered_bounds generator p_min p_max) (\<lambda>_.
     and_then (ordered_bounds generator q_min q_max) (\<lambda>_.
     Inr (d\<lparr>og_p_min := p_min, og_p_max := p_max, og_q_min := q_min, og_q_max := q_max\<rparr>))))"

definition edit_availability :: "string \<Rightarrow> f64 list option \<Rightarrow> opf_inverter \<Rightarrow> (opf_error, opf_inverter) result" where
  "edit_availability inverter p_max d =
     and_then (optional_vector inverter p_max (length (oi_s_max d)) True) (\<lambda>_.
     let total = map_option f64_sum p_max in
     and_then (err_if (case total of None \<Rightarrow> False | Some v \<Rightarrow> \<not> is_finite v) (session_invalid inverter ''total availability is not finite'')) (\<lambda>_.
     Inr (d\<lparr>oi_p_max := p_max, oi_p_avail := total\<rparr>)))"

definition edit_load :: "string \<Rightarrow> f64 list \<Rightarrow> f64 list \<Rightarrow> opf_load \<Rightarrow> (opf_error, opf_load) result" where
  "edit_load load p q d =
     and_then (vector load p (length (ol_p_nom d)) False) (\<lambda>_.
     and_then (vector load q (length (ol_q_nom d)) False) (\<lambda>_.
     Inr (d\<lparr>ol_p_nom := p, ol_q_nom := q\<rparr>)))"

definition edit_source :: "string \<Rightarrow> f64 list option \<Rightarrow> opf_source \<Rightarrow> (opf_error, opf_source) result" where
  "edit_source source c d =
     and_then (try_opt (\<lambda>v. and_then (err_if (v = []) (session_invalid source ''cost cannot be empty'')) (\<lambda>_. numbers source v False)) c) (\<lambda>_.
     Inr (d\<lparr>os_energy_cost_rate := c\<rparr>))"

definition edit_line :: "string \<Rightarrow> f64 list option \<Rightarrow> f64 list option \<Rightarrow> opf_line \<Rightarrow> (opf_error, opf_line) result" where
  "edit_line line current_a apparent d =
     and_then (try_each (\<lambda>values. optional_vector line values (length (on_terminal_map_from d)) True) [current_a, apparent]) (\<lambda>_.
     Inr (d\<lparr>on_i_max := current_a, on_s_max := apparent\<rparr>))"

definition voltage_bounds_ok :: "string \<Rightarrow> f64 option \<Rightarrow> f64 option \<Rightarrow> (opf_error, unit) result" where
  "voltage_bounds_ok bus minimum maximum =
     and_then (numbers bus (case_option [] (\<lambda>v. [v]) minimum @ case_option [] (\<lambda>v. [v]) maximum) True) (\<lambda>_.
     case (minimum, maximum) of (Some lo, Some hi) \<Rightarrow> err_if (hi < lo) (session_invalid bus ''minimum exceeds maximum'') | _ \<Rightarrow> Inr ())"

definition apply_edit :: "opf_network \<times> 'c \<Rightarrow> 'c McOpfEdit \<Rightarrow> (opf_error, opf_network \<times> 'c) result" where
  "apply_edit = (\<lambda>(net, constraints) edit.
     case edit of
       InverterControlProfile profile pf vvb vvl vwb vwl \<Rightarrow>
         and_then (edit_row (ow_profiles net) profile cp_name (patch_profile profile pf vvb vvl vwb vwl)) (\<lambda>rows.
         Inr (net\<lparr>ow_profiles := rows\<rparr>, constraints))
     | LoadPower load p q \<Rightarrow>
         and_then (edit_row (ow_loads net) load ol_name (edit_load load p q)) (\<lambda>rows. Inr (net\<lparr>ow_loads := rows\<rparr>, constraints))
     | InverterAvailability inverter p_max \<Rightarrow>
         and_then (edit_row (ow_inverters net) inverter oi_name (edit_availability inverter p_max)) (\<lambda>rows.
         Inr (net\<lparr>ow_inverters := rows\<rparr>, constraints))
     | GeneratorCost generator c \<Rightarrow>
         and_then (edit_row (ow_generators net) generator og_name (\<lambda>d.
           and_then (cost generator c (length (og_p_nom d))) (\<lambda>_. Inr (d\<lparr>og_cost := c\<rparr>)))) (\<lambda>rows.
         Inr (net\<lparr>ow_generators := rows\<rparr>, constraints))
     | SourceCost source c \<Rightarrow>
         and_then (edit_row (ow_sources net) source os_name (edit_source source c)) (\<lambda>rows. Inr (net\<lparr>ow_sources := rows\<rparr>, constraints))
     | GeneratorPowerBounds generator p_min p_max q_min q_max \<Rightarrow>
         and_then (edit_row (ow_generators net) generator og_name (edit_generator_bounds generator p_min p_max q_min q_max)) (\<lambda>rows.
         Inr (net\<lparr>ow_generators := rows\<rparr>, constraints))
     | LineLimits line current_a apparent \<Rightarrow>
         and_then (edit_row (ow_lines net) line on_name (edit_line line current_a apparent)) (\<lambda>rows. Inr (net\<lparr>ow_lines := rows\<rparr>, constraints))
     | BusVoltageBounds bus minimum maximum \<Rightarrow>
         and_then (voltage_bounds_ok bus minimum maximum) (\<lambda>_.
         and_then (edit_row (ow_buses net) bus ob_id (\<lambda>d. Inr (d\<lparr>ob_v_min := minimum, ob_v_max := maximum\<rparr>))) (\<lambda>rows.
         Inr (net\<lparr>ow_buses := rows\<rparr>, constraints)))
     | ConstraintSelection value \<Rightarrow> Inr (net, value))"

section \<open>Model, points and results\<close>

datatype quantity = TerminalVoltageMagnitude | TerminalVoltageAngle | LoadActivePower | LoadReactivePower
  | GeneratorActivePower | GeneratorReactivePower | TransformerTap

definition QUANTITIES :: "quantity list" where
  "QUANTITIES = [TerminalVoltageMagnitude, TerminalVoltageAngle, LoadActivePower, LoadReactivePower,
     GeneratorActivePower, GeneratorReactivePower, TransformerTap]"

record affine =
  af_constant :: f64
  af_terms :: "(nat, f64) btree"

type_synonym affine_pair = "affine \<times> affine"

datatype StartLift =
    LiftPower nat nat affine_pair affine_pair
  | LiftMagnitude nat affine_pair
  | LiftLogVoltage nat affine_pair f64
  | LiftVoltage affine_pair affine_pair

text \<open>The columns of a compiled model that a session reads; \<open>om_rest\<close> is the compiled problem without its start.\<close>

record 'm opf_model =
  om_var_names :: "string list"
  om_x0 :: "f64 list"
  om_zero_columns :: "nat list"
  om_start_lifts :: "StartLift list"
  om_transformer_tap :: "nat option list"
  om_transformers :: "(string \<times> f64) list"
  om_terminals :: "(string \<times> string) list"
  om_rest :: 'm

text \<open>What the optimizer hands back, with the debug text of its status, and the report of the residual check.\<close>

record solver_return =
  sv_status :: string
  sv_x :: "f64 list option"
  sv_objective :: f64
  sv_multipliers :: "(f64 list \<times> f64 list \<times> f64 list) option"
  sv_iterations :: nat

datatype DeviceKind = DeviceLoad | DeviceGenerator | DeviceSource | DeviceOther

record device_report =
  dr_kind :: DeviceKind
  dr_terminal_power :: "(f64 \<times> f64) list"
  dr_rest :: string

record 'k checked_report =
  ck_voltage :: "(f64 \<times> f64) list"
  ck_devices :: "device_report list"
  ck_transformers :: "(string \<times> f64 option) list"
  ck_objective :: f64
  ck_rest :: 'k

record ('k, 'r) opf_result =
  or_options :: opf_options
  or_terminals :: "((string \<times> string) \<times> (f64 \<times> f64)) list"
  or_transformers :: "(string \<times> f64 option) list"
  or_devices :: "device_report list"
  or_duals :: "string option"
  or_diagnostics :: "opf_diagnostic list"
  or_solution :: 'r
  or_fingerprint :: string
  or_iterations :: nat
  or_rest :: 'k

text \<open>PowerIO, the compiler and the solver. The builder of a point takes the columns it is given in the order of its calls;
  \<open>pt_at\<close> is the lookup of a point by bus and terminal, device and terminal or transformer. The optimizer is called with the number of the attempt.\<close>

record ('i, 'c, 'o, 'p, 'w, 'm, 'k, 'r) opf_io =
  io_network :: "'i \<Rightarrow> opf_network"
  io_constraints :: "'i \<Rightarrow> 'c"
  io_objective :: "'i \<Rightarrow> 'o"
  io_point :: "'i \<Rightarrow> 'p option"
  io_with_network :: "'i \<Rightarrow> opf_network \<Rightarrow> (powerio_error, 'i) result"
  io_with_constraints :: "'i \<Rightarrow> 'c \<Rightarrow> 'i"
  io_with_objective :: "'i \<Rightarrow> 'o \<Rightarrow> 'i"
  io_with_point :: "'i \<Rightarrow> 'p \<Rightarrow> 'i"
  io_from_network :: "opf_network \<Rightarrow> (powerio_error, 'i) result"
  pt_values :: "'p \<Rightarrow> quantity \<Rightarrow> (string \<times> f64) list option"
  pt_at :: "'p \<Rightarrow> quantity \<Rightarrow> string list \<Rightarrow> f64 option"
  pt_switches :: "'p \<Rightarrow> bool"
  pt_capacitors :: "'p \<Rightarrow> bool"
  build_point :: "opf_network \<Rightarrow> (quantity \<times> f64 list) list \<Rightarrow> (powerio_error, 'p) result"
  build_preparation :: "'i \<Rightarrow> f64 \<Rightarrow> f64 \<Rightarrow> (powerio_error, 'w) result"
  prep_fingerprint :: "'w \<Rightarrow> (opf_error, string) result"
  compile_model :: "'w \<Rightarrow> opf_network \<Rightarrow> (string, 'm opf_model) result"
  project_point :: "'m opf_model \<Rightarrow> (quantity \<Rightarrow> string list \<Rightarrow> f64 option) \<Rightarrow> (opf_error, f64 list \<times> opf_diagnostic list) result"
  evaluator :: "'m opf_model \<Rightarrow> (string, unit) result"
  configure :: "opf_options \<Rightarrow> (string, unit) result"
  optimize :: "64 word \<Rightarrow> 'm opf_model \<Rightarrow> opf_options \<Rightarrow> solver_return"
  check_point :: "'m opf_model \<Rightarrow> f64 list \<Rightarrow> f64 \<Rightarrow> f64 \<Rightarrow> (opf_error, 'k checked_report) result"
  check_power_factors :: "opf_network \<Rightarrow> device_report list \<Rightarrow> f64 \<Rightarrow> f64 \<Rightarrow> (opf_error, opf_diagnostic list) result"
  analyze_duals :: "'m opf_model \<Rightarrow> f64 list \<Rightarrow> f64 list \<times> f64 list \<times> f64 list \<Rightarrow> (string, string) result"
  new_solution :: "'i \<Rightarrow> f64 list \<Rightarrow> f64 list \<Rightarrow> f64 list \<Rightarrow> f64 list \<Rightarrow> f64 \<Rightarrow> (powerio_error, 'r) result"
  times_conj :: "f64 \<times> f64 \<Rightarrow> f64 \<times> f64 \<Rightarrow> f64 \<times> f64"
  cx_norm :: "f64 \<times> f64 \<Rightarrow> f64"
  cx_arg :: "f64 \<times> f64 \<Rightarrow> f64"
  f64_ln :: "f64 \<Rightarrow> f64"

section \<open>Seeds\<close>

definition slashed :: "string \<Rightarrow> string \<Rightarrow> string" where
  "slashed a b = a @ ''/'' @ b"

definition identities :: "opf_network \<Rightarrow> quantity \<Rightarrow> string list" where
  "identities net q =
     (case q of
        TerminalVoltageMagnitude \<Rightarrow> concat (map (\<lambda>b. map (slashed (ob_id b)) (ob_terminals b)) (ow_buses net))
      | TerminalVoltageAngle \<Rightarrow> concat (map (\<lambda>b. map (slashed (ob_id b)) (ob_terminals b)) (ow_buses net))
      | LoadActivePower \<Rightarrow> concat (map (\<lambda>d. map (slashed (ol_name d)) (ol_terminal_map d)) (ow_loads net))
      | LoadReactivePower \<Rightarrow> concat (map (\<lambda>d. map (slashed (ol_name d)) (ol_terminal_map d)) (ow_loads net))
      | GeneratorActivePower \<Rightarrow> concat (map (\<lambda>d. map (slashed (og_name d)) (og_terminal_map d)) (ow_generators net))
      | GeneratorReactivePower \<Rightarrow> concat (map (\<lambda>d. map (slashed (og_name d)) (og_terminal_map d)) (ow_generators net))
      | TransformerTap \<Rightarrow> ow_transformers net)"

text \<open>The name PowerIO gives a quantity is part of a message only.\<close>

definition quantity_name :: "quantity \<Rightarrow> string" where
  "quantity_name q =
     (case q of TerminalVoltageMagnitude \<Rightarrow> ''terminal_voltage_magnitude'' | TerminalVoltageAngle \<Rightarrow> ''terminal_voltage_angle''
      | LoadActivePower \<Rightarrow> ''load_active_power'' | LoadReactivePower \<Rightarrow> ''load_reactive_power''
      | GeneratorActivePower \<Rightarrow> ''generator_active_power'' | GeneratorReactivePower \<Rightarrow> ''generator_reactive_power''
      | TransformerTap \<Rightarrow> ''transformer_tap'')"

definition check_quantity :: "opf_network \<Rightarrow> ('p \<Rightarrow> quantity \<Rightarrow> (string \<times> f64) list option) \<Rightarrow> 'p \<Rightarrow> quantity \<Rightarrow> (opf_error, unit) result" where
  "check_quantity net values p q =
     try_opt (\<lambda>vs.
       and_then (err_if (set (map fst vs) \<noteq> set (identities net q))
         (point_invalid (quantity_name q) ''component/terminal identities differ from the declared instance'')) (\<lambda>_.
       try_each (\<lambda>(ident, v). err_if (\<not> is_finite v \<or> (q = TerminalVoltageMagnitude \<and> v < 0) \<or> (q = TransformerTap \<and> v \<le> 0))
         (point_invalid (slashed (quantity_name q) ident) ''value is nonfinite or outside its physical coordinate domain'')) vs)) (values p q)"

definition validate_identities :: "('i, 'c, 'o, 'p, 'w, 'm, 'k, 'r) opf_io \<Rightarrow> 'p \<Rightarrow> opf_network \<Rightarrow> (opf_error, unit) result" where
  "validate_identities io p net =
     and_then (try_each (check_quantity net (pt_values io) p) QUANTITIES) (\<lambda>_.
     and_then (err_if (pt_switches io p) (point_unsupported ''switch_closed'')) (\<lambda>_.
     err_if (pt_capacitors io p) (point_unsupported ''capacitor_steps'')))"

definition map_err :: "('e \<Rightarrow> 'f) \<Rightarrow> ('e, 'a) result \<Rightarrow> ('f, 'a) result" where
  "map_err f r = (case r of Inl e \<Rightarrow> Inl (f e) | Inr x \<Rightarrow> Inr x)"

definition prepare :: "('i, 'c, 'o, 'p, 'w, 'm, 'k, 'r) opf_io \<Rightarrow> 'i \<Rightarrow> opf_options \<Rightarrow> (opf_error, 'w) result" where
  "prepare io inst o' =
     and_then (try_opt (\<lambda>p. validate_identities io p (io_network io inst)) (io_point io inst)) (\<lambda>_.
     and_then
       (if io_point io inst = None then Inr inst
        else and_then (map_err (from_powerio Preparation) (io_from_network io (io_network io inst))) (\<lambda>fresh.
             Inr (io_with_constraints io (io_with_objective io fresh (io_objective io inst)) (io_constraints io inst)))) (\<lambda>input.
     map_err (from_powerio Preparation) (build_preparation io input (voltage_base_v o') (power_base_va o'))))"

definition canonical_column :: "opf_network \<Rightarrow> quantity \<Rightarrow> (string \<times> f64) list \<Rightarrow> (opf_error, f64 list) result" where
  "canonical_column net q vs =
     (let values = bt_collect vs
      in try_map (\<lambda>ident. ok_or (point_invalid ident ''missing identity during export'') (map_of values ident)) (identities net q))"

definition canonical_columns ::
  "opf_network \<Rightarrow> ('p \<Rightarrow> quantity \<Rightarrow> (string \<times> f64) list option) \<Rightarrow> 'p \<Rightarrow> (opf_error, (quantity \<times> f64 list) list) result" where
  "canonical_columns net values p =
     try_fold (\<lambda>columns q. case values p q of None \<Rightarrow> Inr columns
       | Some vs \<Rightarrow> and_then (canonical_column net q vs) (\<lambda>ordered. Inr (columns @ [(q, ordered)]))) [] QUANTITIES"

definition canonical_instance :: "('i, 'c, 'o, 'p, 'w, 'm, 'k, 'r) opf_io \<Rightarrow> 'i \<Rightarrow> (opf_error, 'i) result" where
  "canonical_instance io inst =
     (case io_point io inst of None \<Rightarrow> Inr inst
      | Some p \<Rightarrow>
          and_then (canonical_columns (io_network io inst) (pt_values io) p) (\<lambda>columns.
          and_then (map_err (from_powerio Export) (build_point io (io_network io inst) columns)) (\<lambda>point.
          Inr (io_with_point io inst point))))"

definition affine_value :: "affine \<Rightarrow> f64 list \<Rightarrow> f64" where
  "affine_value a x = af_constant a + f64_sum (map (\<lambda>(i, v). v * x ! i) (af_terms a))"

definition pair_value :: "affine_pair \<Rightarrow> f64 list \<Rightarrow> f64 \<times> f64" where
  "pair_value p x = (affine_value (fst p) x, affine_value (snd p) x)"

definition set_affine :: "affine \<Rightarrow> f64 \<Rightarrow> f64 list \<Rightarrow> f64 list" where
  "set_affine a v x = (case af_terms a of [] \<Rightarrow> x | (i, coefficient) # _ \<Rightarrow> x[i := (v - af_constant a) / coefficient])"

definition set_pair :: "affine_pair \<Rightarrow> f64 \<times> f64 \<Rightarrow> f64 list \<Rightarrow> f64 list" where
  "set_pair p v x = set_affine (snd p) (snd v) (set_affine (fst p) (fst v) x)"

definition lift_start :: "('i, 'c, 'o, 'p, 'w, 'm, 'k, 'r) opf_io \<Rightarrow> 'm opf_model \<Rightarrow> f64 list \<Rightarrow> StartLift \<Rightarrow> (opf_error, f64 list) result" where
  "lift_start io model x lift =
     (case lift of
        LiftPower j k u i \<Rightarrow> (let p = times_conj io (pair_value u x) (pair_value i x) in Inr (x[j := fst p, k := snd p]))
      | LiftMagnitude j u \<Rightarrow> Inr (x[j := cx_norm io (pair_value u x)])
      | LiftLogVoltage j u nominal \<Rightarrow>
          (let ratio = cx_norm io (pair_value u x) / nominal
           in if ratio \<le> 0 then Inl (point_invalid (om_var_names model ! j) ''a positive voltage is required for the logarithmic load-law seed'')
              else Inr (x[j := f64_ln io ratio]))
      | LiftVoltage into from \<Rightarrow> Inr (set_pair into (pair_value from x) x))"

definition clear_zeros :: "'m opf_model \<Rightarrow> f64 list \<Rightarrow> f64 list" where
  "clear_zeros model x = foldl (\<lambda>x i. x[i := 0]) x (om_zero_columns model)"

definition refresh :: "('i, 'c, 'o, 'p, 'w, 'm, 'k, 'r) opf_io \<Rightarrow> 'm opf_model \<Rightarrow> f64 list \<Rightarrow> (opf_error, f64 list) result" where
  "refresh io model x =
     and_then (try_fold (lift_start io model) (clear_zeros model x) (om_start_lifts model)) (\<lambda>x.
     let x = clear_zeros model x
     in case position (\<lambda>v. \<not> is_finite v) x of None \<Rightarrow> Inr x
        | Some i \<Rightarrow> Inl (point_invalid (om_var_names model ! i) ''projected starting value is not finite''))"

text \<open>The projection reads the declared point by identity and rebuilds the currents; the dependent coordinates follow.\<close>

definition apply_point :: "('i, 'c, 'o, 'p, 'w, 'm, 'k, 'r) opf_io \<Rightarrow> 'm opf_model \<Rightarrow> 'i \<Rightarrow> (opf_error, 'm opf_model \<times> opf_diagnostic list) result" where
  "apply_point io model inst =
     (case io_point io inst of None \<Rightarrow> Inr (model, [])
      | Some p \<Rightarrow>
          and_then (validate_identities io p (io_network io inst)) (\<lambda>_.
          and_then (project_point io model (pt_at io p)) (\<lambda>(x, diagnostics).
          and_then (refresh io model x) (\<lambda>x. Inr (model\<lparr>om_x0 := x\<rparr>, diagnostics)))))"

section \<open>A solve\<close>

definition compile :: "('i, 'c, 'o, 'p, 'w, 'm, 'k, 'r) opf_io \<Rightarrow> 'i \<Rightarrow> opf_options \<Rightarrow> (opf_error, 'm opf_model \<times> string) result" where
  "compile io inst o' =
     and_then (prepare io inst o') (\<lambda>prep.
     and_then (prep_fingerprint io prep) (\<lambda>fingerprint.
     and_then (map_err (opf_error_new InvalidInput Compilation) (compile_model io prep (io_network io inst))) (\<lambda>model.
     Inr (model, fingerprint))))"

definition solver_failed :: "string \<Rightarrow> opf_diagnostic list \<Rightarrow> opf_error" where
  "solver_failed status diagnostics =
     (opf_error_new NumericalFailure Solver
        (''multiconductor OPF stopped with '' @ status @ ''; a local NLP failure is not an infeasibility proof''))
     \<lparr>me_solver_status := Some status, me_diagnostics := diagnostics\<rparr>"

definition with_diagnostics :: "opf_diagnostic list \<Rightarrow> opf_error \<Rightarrow> opf_error" where
  "with_diagnostics d e = e\<lparr>me_diagnostics := me_diagnostics e @ d\<rparr>"

definition dual_report ::
  "('i, 'c, 'o, 'p, 'w, 'm, 'k, 'r) opf_io \<Rightarrow> opf_options \<Rightarrow> 'm opf_model \<Rightarrow> f64 list \<Rightarrow> solver_return \<Rightarrow> opf_diagnostic list
     \<Rightarrow> string option \<times> opf_diagnostic list" where
  "dual_report io o' model x t diagnostics =
     (if collect_duals o' then
        (case and_then (ok_or ''solver did not return multipliers'' (sv_multipliers t)) (analyze_duals io model x) of
           Inr report \<Rightarrow> (Some report, diagnostics)
         | Inl message \<Rightarrow> (None, diagnostics @ [\<lparr>md_code = ''MC_OPF.DUALS_UNAVAILABLE'', md_severity = SevWarning,
             md_message = message, md_target = None\<rparr>]))
      else (None, diagnostics))"

definition powers_of :: "DeviceKind \<Rightarrow> device_report list \<Rightarrow> f64 list" where
  "powers_of kn devices = concat (map (\<lambda>d. map fst (dr_terminal_power d)) (filter (\<lambda>d. dr_kind d = kn) devices))"

text \<open>The polls of a solve are the \<open>k\<close>-th to the \<open>k + 3\<close>-th of the flag; those of the optimizer at its iteration boundaries are part of its answer.\<close>

definition solve_prepared ::
  "('i, 'c, 'o, 'p, 'w, 'm, 'k, 'r) opf_io \<Rightarrow> 64 word \<Rightarrow> (nat \<Rightarrow> bool) \<Rightarrow> nat \<Rightarrow> 'i \<Rightarrow> opf_options \<Rightarrow> 'm opf_model \<Rightarrow> string
     \<Rightarrow> opf_diagnostic list \<Rightarrow> (opf_error, ('k, 'r) opf_result \<times> f64 list) result" where
  "solve_prepared io n cancel k inst o' model fingerprint diagnostics =
     and_then (cancelled cancel k Compilation) (\<lambda>_.
     and_then (map_err (opf_error_new NumericalFailure Compilation) (evaluator io model)) (\<lambda>_.
     and_then (map_err (opf_error_new NumericalFailure Solver) (configure io o')) (\<lambda>_.
     let t = optimize io n model o' in
     and_then (cancelled cancel (k + 1) Solver) (\<lambda>_.
     and_then (err_if (sv_status t \<notin> {''SolveSucceeded'', ''SolvedToAcceptableLevel''}) (solver_failed (sv_status t) diagnostics)) (\<lambda>_.
     and_then (ok_or (opf_error_new NumericalFailure Solver ''solver returned no primal point'') (sv_x t)) (\<lambda>x.
     and_then (map_err (with_diagnostics diagnostics) (check_point io model x (sv_objective t) (acceptance_tolerance o'))) (\<lambda>checked.
     and_then (map_err (with_diagnostics diagnostics)
       (check_power_factors io (io_network io inst) (ck_devices checked) (power_base_va o') (acceptance_tolerance o'))) (\<lambda>pf_diagnostics.
     and_then (cancelled cancel (k + 2) Validation) (\<lambda>_.
     let (duals, diagnostics) = dual_report io o' model x t (diagnostics @ pf_diagnostics) in
     and_then (cancelled cancel (k + 3) Validation) (\<lambda>_.
     and_then (canonical_instance io inst) (\<lambda>inst.
     and_then (map_err (from_powerio Export) (new_solution io inst
         (map (\<lambda>v. cx_norm io v * voltage_base_v o') (ck_voltage checked)) (map (cx_arg io) (ck_voltage checked))
         (powers_of DeviceSource (ck_devices checked)) (powers_of DeviceGenerator (ck_devices checked)) (ck_objective checked))) (\<lambda>solution.
     Inr (\<lparr>or_options = o',
           or_terminals = map (\<lambda>(t, re, im). (t, re * voltage_base_v o', im * voltage_base_v o')) (zip (om_terminals model) (ck_voltage checked)),
           or_transformers = ck_transformers checked, or_devices = ck_devices checked, or_duals = duals, or_diagnostics = diagnostics,
           or_solution = solution, or_fingerprint = fingerprint, or_iterations = sv_iterations t, or_rest = ck_rest checked\<rparr>, x)))))))))))))"

definition solve_instance ::
  "('i, 'c, 'o, 'p, 'w, 'm, 'k, 'r) opf_io \<Rightarrow> 64 word \<Rightarrow> (nat \<Rightarrow> bool) \<Rightarrow> 'i \<Rightarrow> opf_options \<Rightarrow> (opf_error, ('k, 'r) opf_result) result" where
  "solve_instance io n cancel inst o' =
     and_then (cancelled cancel 0 Input) (\<lambda>_.
     and_then (validate_opf_options o') (\<lambda>_.
     and_then (compile io inst o') (\<lambda>(model, fingerprint).
     and_then (apply_point io model inst) (\<lambda>(model, diagnostics).
     and_then (solve_prepared io n cancel 1 inst o' model fingerprint diagnostics) (\<lambda>(result, _). Inr result)))))"

section \<open>The session\<close>

datatype McOpfStart = StartDeclared | StartLastAccepted
datatype McOpfStartUsed = UsedDeclared | UsedPreviousPrimal | UsedPreviousOperatingPoint

record ('k, 'r) session_result =
  sr_revision :: "64 word"
  sr_attempt :: "64 word"
  sr_compilation :: "64 word"
  sr_start :: McOpfStartUsed
  sr_result :: "('k, 'r) opf_result"

record ('i, 'm, 'k, 'r) opf_session =
  se_instance :: 'i
  se_options :: opf_options
  se_model :: "'m opf_model"
  se_fingerprint :: string
  se_revision :: "64 word"
  se_attempts :: "64 word"
  se_compilations :: "64 word"
  se_accepted :: "('k, 'r) session_result option"
  se_primal :: "(string, f64) btree"
  se_primal_names_unique :: bool

definition increment :: "64 word \<Rightarrow> (opf_error, 64 word) result" where
  "increment value = (if value = - 1 then Inl (session_invalid ''session'' ''revision/counter exhausted'') else Inr (value + 1))"

definition session_new :: "('i, 'c, 'o, 'p, 'w, 'm, 'k, 'r) opf_io \<Rightarrow> 'i \<Rightarrow> opf_options \<Rightarrow> (opf_error, ('i, 'm, 'k, 'r) opf_session) result" where
  "session_new io inst o' =
     and_then (validate_opf_options o') (\<lambda>_.
     and_then (compile io inst o') (\<lambda>(model, fingerprint).
     and_then (canonical_instance io inst) (\<lambda>inst.
     Inr \<lparr>se_instance = inst, se_options = o', se_model = model, se_fingerprint = fingerprint, se_revision = 0, se_attempts = 0,
         se_compilations = 1, se_accepted = None, se_primal = [], se_primal_names_unique = True\<rparr>)))"

definition current_result :: "('i, 'm, 'k, 'r) opf_session \<Rightarrow> ('k, 'r) session_result option" where
  "current_result s =
     (case se_accepted s of None \<Rightarrow> None
      | Some r \<Rightarrow> if sr_revision r = se_revision s \<and> sr_attempt r = se_attempts s then Some r else None)"

text \<open>An operation of the session: its outcome and the session after it.\<close>

type_synonym ('i, 'm, 'k, 'r, 'a) session_op = "('i, 'm, 'k, 'r) opf_session \<Rightarrow> (opf_error, 'a) result \<times> ('i, 'm, 'k, 'r) opf_session"

definition edited_candidate ::
  "('i, 'c, 'o, 'p, 'w, 'm, 'k, 'r) opf_io \<Rightarrow> 'i \<Rightarrow> 'c McOpfEdit list \<Rightarrow> (opf_error, 'i) result" where
  "edited_candidate io inst edits =
     and_then (try_fold apply_edit (io_network io inst, io_constraints io inst) edits) (\<lambda>(net, constraints).
     and_then (map_err (from_powerio Input) (io_with_network io inst net)) (\<lambda>candidate.
     Inr (io_with_constraints io candidate constraints)))"

definition apply_edits :: "('i, 'c, 'o, 'p, 'w, 'm, 'k, 'r) opf_io \<Rightarrow> 'c McOpfEdit list \<Rightarrow> ('i, 'm, 'k, 'r, 64 word) session_op" where
  "apply_edits io edits s =
     (if edits = [] then (Inr (se_revision s), s)
      else case and_then (edited_candidate io (se_instance s) edits) (\<lambda>candidate.
             and_then (compile io candidate (se_options s)) (\<lambda>(model, fingerprint).
             and_then (increment (se_revision s)) (\<lambda>revision.
             and_then (increment (se_compilations s)) (\<lambda>compilations.
             Inr (s\<lparr>se_instance := candidate, se_model := model, se_fingerprint := fingerprint, se_revision := revision,
                   se_compilations := compilations\<rparr>))))) of
           Inl e \<Rightarrow> (Inl e, s) | Inr s' \<Rightarrow> (Inr (se_revision s'), s'))"

definition set_options :: "('i, 'c, 'o, 'p, 'w, 'm, 'k, 'r) opf_io \<Rightarrow> opf_options \<Rightarrow> ('i, 'm, 'k, 'r, 64 word) session_op" where
  "set_options io o' s =
     (case validate_opf_options o' of Inl e \<Rightarrow> (Inl e, s)
      | Inr _ \<Rightarrow>
          if options_eq o' (se_options s) then (Inr (se_revision s), s)
          else case and_then (increment (se_revision s)) (\<lambda>revision.
                 and_then
                   (if same_bases o' (se_options s) then Inr s
                    else and_then (compile io (se_instance s) o') (\<lambda>(model, fingerprint).
                         and_then (increment (se_compilations s)) (\<lambda>compilations.
                         Inr (s\<lparr>se_model := model, se_fingerprint := fingerprint, se_compilations := compilations\<rparr>)))) (\<lambda>s.
                 Inr (s\<lparr>se_options := o', se_revision := revision\<rparr>))) of
               Inl e \<Rightarrow> (Inl e, s) | Inr s' \<Rightarrow> (Inr (se_revision s'), s'))"

definition voltage_tap_point ::
  "('i, 'c, 'o, 'p, 'w, 'm, 'k, 'r) opf_io \<Rightarrow> 'i \<Rightarrow> ('k, 'r) opf_result \<Rightarrow> 'm opf_model \<Rightarrow> (opf_error, 'i) result" where
  "voltage_tap_point io inst previous model =
     (let net = io_network io inst;
          voltages = bt_collect (or_terminals previous)
      in and_then (try_map (\<lambda>(bus, terminal). ok_or (session_invalid bus ''warm-start terminal is missing'') (map_of voltages (bus, terminal)))
           (concat (map (\<lambda>b. map (Pair (ob_id b)) (ob_terminals b)) (ow_buses net)))) (\<lambda>vs.
         let taps = (if list_ex (\<lambda>t. t \<noteq> None) (om_transformer_tap model)
              then [(TransformerTap, map (\<lambda>(ident, nominal).
                      case List.find (\<lambda>(r, _). r = ident) (or_transformers previous) of Some (_, Some tap) \<Rightarrow> tap | _ \<Rightarrow> nominal)
                    (om_transformers model))]
              else [])
         in and_then (map_err (from_powerio Input) (build_point io net
              ([(TerminalVoltageMagnitude, map (cx_norm io) vs), (TerminalVoltageAngle, map (cx_arg io) vs)] @ taps))) (\<lambda>point.
            Inr (io_with_point io inst point))))"

definition carry_primal :: "(string, f64) btree \<Rightarrow> 'm opf_model \<Rightarrow> f64 list" where
  "carry_primal primal model =
     foldl (\<lambda>x (i, name). case map_of primal name of Some v \<Rightarrow> x[i := v] | None \<Rightarrow> x) (om_x0 model)
       (zip [0..<length (om_var_names model)] (om_var_names model))"

definition warm_start ::
  "('i, 'c, 'o, 'p, 'w, 'm, 'k, 'r) opf_io \<Rightarrow> ('i, 'm, 'k, 'r) opf_session \<Rightarrow> ('k, 'r) session_result \<Rightarrow> 'm opf_model
     \<Rightarrow> (opf_error, 'm opf_model \<times> McOpfStartUsed \<times> opf_diagnostic list) result" where
  "warm_start io s accepted model =
     (if same_bases (or_options (sr_result accepted)) (se_options s) \<and> se_primal_names_unique s \<and> distinct (om_var_names model)
      then and_then (refresh io model (carry_primal (se_primal s) model)) (\<lambda>x. Inr (model\<lparr>om_x0 := x\<rparr>, UsedPreviousPrimal, []))
      else and_then (voltage_tap_point io (se_instance s) (sr_result accepted) model) (\<lambda>inst.
           and_then (apply_point io model inst) (\<lambda>(model, d). Inr (model, UsedPreviousOperatingPoint, d))))"

definition initialize ::
  "('i, 'c, 'o, 'p, 'w, 'm, 'k, 'r) opf_io \<Rightarrow> ('i, 'm, 'k, 'r) opf_session \<Rightarrow> 'm opf_model \<Rightarrow> McOpfStart
     \<Rightarrow> (opf_error, 'm opf_model \<times> McOpfStartUsed \<times> opf_diagnostic list) result" where
  "initialize io s model start =
     (case if start = StartLastAccepted then se_accepted s else None of
        None \<Rightarrow> and_then (apply_point io model (se_instance s)) (\<lambda>(model, d). Inr (model, UsedDeclared, d))
      | Some accepted \<Rightarrow>
          (case warm_start io s accepted model of Inr result \<Rightarrow> Inr result
           | Inl e \<Rightarrow>
               and_then (apply_point io (se_model s) (se_instance s)) (\<lambda>(model, d).
               Inr (model, UsedDeclared, d @ [\<lparr>md_code = ''MC_OPF.SESSION_WARM_START_DISCARDED'', md_severity = SevRemark,
                   md_message = me_message e, md_target = None\<rparr>]))))"

definition solve_cancellable ::
  "('i, 'c, 'o, 'p, 'w, 'm, 'k, 'r) opf_io \<Rightarrow> McOpfStart \<Rightarrow> (nat \<Rightarrow> bool) \<Rightarrow> ('i, 'm, 'k, 'r, ('k, 'r) session_result) session_op" where
  "solve_cancellable io start cancel s =
     (case increment (se_attempts s) of Inl e \<Rightarrow> (Inl e, s)
      | Inr attempts \<Rightarrow>
          let s = s\<lparr>se_attempts := attempts\<rparr>
          in case and_then (cancelled cancel 0 Input) (\<lambda>_.
               and_then (initialize io s (se_model s) start) (\<lambda>(model, used, diagnostics).
               and_then (solve_prepared io (se_attempts s) cancel 1 (se_instance s) (se_options s) model (se_fingerprint s) diagnostics) (\<lambda>(result, x).
               and_then (cancelled cancel 5 Validation) (\<lambda>_.
               let primal = bt_collect (zip (om_var_names (se_model s)) x)
               in Inr (\<lparr>sr_revision = se_revision s, sr_attempt = se_attempts s, sr_compilation = se_compilations s,
                       sr_start = used, sr_result = result\<rparr>, primal))))) of
             Inl e \<Rightarrow> (Inl e, s)
           | Inr (accepted, primal) \<Rightarrow>
               (Inr accepted, s\<lparr>se_primal := primal, se_primal_names_unique := (length primal = length (om_var_names (se_model s))),
                  se_accepted := Some accepted\<rparr>))"

definition solve :: "('i, 'c, 'o, 'p, 'w, 'm, 'k, 'r) opf_io \<Rightarrow> ('i, 'm, 'k, 'r, ('k, 'r) session_result) session_op" where
  "solve io = solve_cancellable io StartLastAccepted (\<lambda>_. False)"

section \<open>Edits\<close>

lemma named_Inr:
  "named items name ident = Inr i \<longleftrightarrow> i < length items \<and> ident (items ! i) = name \<and> (\<forall>j < length items. ident (items ! j) = name \<longrightarrow> j = i)"
proof -
  let ?hits = "filter (\<lambda>i. ident (items ! i) = name) [0..<length items]"
  have set: "set ?hits = {j. j < length items \<and> ident (items ! j) = name}" by auto
  have dist: "distinct ?hits" by simp
  have "named items name ident = Inr i \<longleftrightarrow> ?hits = [i]" by (auto simp: named_def split: list.split)
  also have "\<dots> \<longleftrightarrow> set ?hits = {i}"
  proof
    assume "set ?hits = {i}"
    with dist show "?hits = [i]" by (metis distinct_singleton distinct_card card.empty card_insert_disjoint empty_iff finite.emptyI length_0_conv length_Suc_conv list.set_intros(1) singletonD One_nat_def)
  qed simp
  finally show ?thesis unfolding set by auto
qed

lemma edit_row_Inr:
  assumes "edit_row items name ident f = Inr items'"
  obtains i row where "named items name ident = Inr i" "f (items ! i) = Inr row" "items' = items[i := row]"
  using assms by (auto simp: edit_row_def result_simps)

lemma named_update:
  assumes "named items name ident = Inr i" "ident row = name"
  shows "named (items[i := row]) name ident = Inr i"
proof -
  have lt: "i < length items" "ident (items ! i) = name" "\<forall>j < length items. ident (items ! j) = name \<longrightarrow> j = i"
    using assms(1) unfolding named_Inr by blast+
  have same: "ident (items[i := row] ! j) = ident (items ! j)" for j using lt(1,2) assms(2) by (cases "j = i") simp_all
  show ?thesis unfolding named_Inr length_list_update same using lt by blast
qed

text \<open>What every edit of a row promises: it keeps the name of the row, and leaves a row it has edited alone.\<close>

locale row_edit =
  fixes ident :: "'r \<Rightarrow> string" and f :: "'r \<Rightarrow> (opf_error, 'r) result"
  assumes keeps: "f x = Inr y \<Longrightarrow> ident y = ident x" and settles: "f x = Inr y \<Longrightarrow> f y = Inr y"
begin

lemma again:
  assumes run: "edit_row items name ident f = Inr items'"
  shows "edit_row items' name ident f = Inr items'"
proof -
  from run obtain i row where i: "named items name ident = Inr i" and row: "f (items ! i) = Inr row" and items': "items' = items[i := row]"
    by (rule edit_row_Inr)
  have lt: "i < length items" "ident (items ! i) = name" using i unfolding named_Inr by blast+
  have keep: "ident row = name" "f row = Inr row" using keeps [OF row] settles [OF row] lt(2) by simp_all
  have "named items' name ident = Inr i" unfolding items' by (rule named_update [OF i keep(1)])
  moreover have "items' ! i = row" "items'[i := row] = items'" using lt(1) by (simp_all add: items')
  ultimately show ?thesis using keep(2) by (simp add: edit_row_def)
qed

end

lemma edit_row_map:
  assumes run: "edit_row items name ident f = Inr items'" and g: "\<And>x y. f x = Inr y \<Longrightarrow> g y = g x"
  shows "map g items' = map g items"
proof -
  from run obtain i row where i: "named items name ident = Inr i" and row: "f (items ! i) = Inr row" and items': "items' = items[i := row]"
    by (rule edit_row_Inr)
  have "i < length items" using i by (simp add: named_Inr)
  then show ?thesis using g [OF row] by (simp add: items' map_update list_update_same_conv)
qed

lemma patch_curve_again: "patch_curve t m c b n l k = Inr c' \<Longrightarrow> patch_curve t m c' b n l k = Inr c'"
  by (cases c) (auto simp: patch_curve_def profile_curve_def result_simps split: if_splits option.splits prod.splits)

lemma patch_power_factor_again: "patch_power_factor t c r = Inr c' \<Longrightarrow> patch_power_factor t c' r = Inr c'"
  by (auto simp: patch_power_factor_def result_simps split: option.splits)

lemma patch_profile_again:
  assumes "patch_profile profile pf vvb vvl vwb vwl x = Inr y"
  shows "cp_name y = cp_name x \<and> patch_profile profile pf vvb vvl vwb vwl y = Inr y"
proof -
  from assms obtain a b c where "patch_power_factor profile (cp_power_factor x) pf = Inr a"
    "patch_curve profile ''profile has no volt-var control'' (cp_volt_var x) vvb 4 vvl 2 = Inr b"
    "patch_curve profile ''profile has no volt-watt control'' (cp_volt_watt x) vwb 2 vwl 2 = Inr c"
    "y = x\<lparr>cp_power_factor := a, cp_volt_var := b, cp_volt_watt := c\<rparr>"
    unfolding patch_profile_def by (auto simp: result_simps)
  then show ?thesis by (simp add: patch_profile_def patch_curve_again patch_power_factor_again)
qed

interpretation profile_edit: row_edit cp_name "patch_profile profile pf vvb vvl vwb vwl" for profile pf vvb vvl vwb vwl
  by unfold_locales (simp_all add: patch_profile_again)

interpretation load_edit: row_edit ol_name "edit_load load p q" for load p q
  by unfold_locales (auto simp: edit_load_def vector_def result_simps)

interpretation inverter_edit: row_edit oi_name "edit_availability inverter p_max" for inverter p_max
  by unfold_locales (auto simp: edit_availability_def Let_def result_simps)

interpretation generator_cost: row_edit og_name "\<lambda>d. and_then (cost generator c (length (og_p_nom d))) (\<lambda>_. Inr (d\<lparr>og_cost := c\<rparr>))" for generator c
  by unfold_locales (auto simp: result_simps)

interpretation generator_bounds: row_edit og_name "edit_generator_bounds generator p_min p_max q_min q_max" for generator p_min p_max q_min q_max
  by unfold_locales (auto simp: edit_generator_bounds_def result_simps)

interpretation source_edit: row_edit os_name "edit_source source c" for source c
  by unfold_locales (auto simp: edit_source_def result_simps)

interpretation line_edit: row_edit on_name "edit_line line a s" for line a s
  by unfold_locales (auto simp: edit_line_def result_simps)

interpretation bus_edit: row_edit ob_id "\<lambda>d. Inr (d\<lparr>ob_v_min := lo, ob_v_max := hi\<rparr>)" for lo hi
  by unfold_locales auto

text \<open>An edit that was accepted is accepted again and changes nothing.\<close>

theorem apply_edit_again: "apply_edit nc edit = Inr nc' \<Longrightarrow> apply_edit nc' edit = Inr nc'"
  by (cases edit; cases nc)
     (auto simp: apply_edit_def result_simps dest: profile_edit.again load_edit.again inverter_edit.again generator_cost.again
        generator_bounds.again source_edit.again line_edit.again bus_edit.again)

lemma keeps_columns:
  "edit_load load p q d = Inr d' \<Longrightarrow> (ol_name d', ol_terminal_map d') = (ol_name d, ol_terminal_map d)"
  "edit_generator_bounds g a b c e d2 = Inr d2' \<Longrightarrow> (og_name d2', og_terminal_map d2') = (og_name d2, og_terminal_map d2)"
  "and_then (cost g c2 n) (\<lambda>_. Inr (d3\<lparr>og_cost := c2\<rparr>)) = Inr d3' \<Longrightarrow> (og_name d3', og_terminal_map d3') = (og_name d3, og_terminal_map d3)"
  by (auto simp: edit_load_def edit_generator_bounds_def result_simps)

lemma map_columns:
  assumes "map (\<lambda>x. (a x, b x)) xs' = map (\<lambda>x. (a x, b x)) xs"
  shows "map (\<lambda>x. f (a x) (b x)) xs' = map (\<lambda>x. f (a x) (b x)) xs"
proof -
  have "map (\<lambda>(u, v). f u v) (map (\<lambda>x. (a x, b x)) xs') = map (\<lambda>(u, v). f u v) (map (\<lambda>x. (a x, b x)) xs)" unfolding assms ..
  then show ?thesis by (simp add: comp_def)
qed

lemma identities_columns:
  assumes "map (\<lambda>b. (ob_id b, ob_terminals b)) (ow_buses net') = map (\<lambda>b. (ob_id b, ob_terminals b)) (ow_buses net)"
    "map (\<lambda>d. (ol_name d, ol_terminal_map d)) (ow_loads net') = map (\<lambda>d. (ol_name d, ol_terminal_map d)) (ow_loads net)"
    "map (\<lambda>d. (og_name d, og_terminal_map d)) (ow_generators net') = map (\<lambda>d. (og_name d, og_terminal_map d)) (ow_generators net)"
    "ow_transformers net' = ow_transformers net"
  shows "identities net' q = identities net q"
proof -
  note f = map_columns [where f = "\<lambda>n ts. map (slashed n) ts"]
  show ?thesis
    using f [OF assms(1)] f [OF assms(2)] f [OF assms(3)] assms(4) by (cases q) (simp_all add: identities_def)
qed

lemma apply_edit_identities: "apply_edit (net, c) edit = Inr (net', c') \<Longrightarrow> identities net' q = identities net q"
proof (rule identities_columns)
  assume run: "apply_edit (net, c) edit = Inr (net', c')"
  show "map (\<lambda>b. (ob_id b, ob_terminals b)) (ow_buses net') = map (\<lambda>b. (ob_id b, ob_terminals b)) (ow_buses net)"
    using run by (cases edit) (auto simp: apply_edit_def result_simps dest!: edit_row_map [where g = "\<lambda>b. (ob_id b, ob_terminals b)"])
  show "map (\<lambda>d. (ol_name d, ol_terminal_map d)) (ow_loads net') = map (\<lambda>d. (ol_name d, ol_terminal_map d)) (ow_loads net)"
    using run by (cases edit) (auto simp: apply_edit_def result_simps dest!: edit_row_map [where g = "\<lambda>d. (ol_name d, ol_terminal_map d)"] dest: keeps_columns)
  show "map (\<lambda>d. (og_name d, og_terminal_map d)) (ow_generators net') = map (\<lambda>d. (og_name d, og_terminal_map d)) (ow_generators net)"
    using run by (cases edit) (auto simp: apply_edit_def result_simps dest!: edit_row_map [where g = "\<lambda>d. (og_name d, og_terminal_map d)"] dest: keeps_columns)
  show "ow_transformers net' = ow_transformers net" using run by (cases edit) (auto simp: apply_edit_def result_simps)
qed

section \<open>Declared points\<close>

text \<open>What PowerIO documents of instances with a point and of the builder: attaching a point replaces the point and changes nothing else of the
  instance, a built point holds the columns it was given, by the identities of the network in order, and no equipment state, and points
  that assign the same value to every identity, once each, answer every lookup alike.\<close>

definition same_values :: "(string \<times> f64) list option \<Rightarrow> (string \<times> f64) list option \<Rightarrow> bool" where
  "same_values a b =
     (case (a, b) of (None, None) \<Rightarrow> True
      | (Some u, Some v) \<Rightarrow> set u = set v \<and> distinct (map fst u) \<and> distinct (map fst v)
      | _ \<Rightarrow> False)"

definition point_laws :: "('i, 'c, 'o, 'p, 'w, 'm, 'k, 'r) opf_io \<Rightarrow> bool" where
  "point_laws io \<longleftrightarrow>
     (\<forall>i p. io_network io (io_with_point io i p) = io_network io i \<and> io_constraints io (io_with_point io i p) = io_constraints io i \<and>
        io_objective io (io_with_point io i p) = io_objective io i \<and> io_point io (io_with_point io i p) = Some p) \<and>
     (\<forall>i p p'. io_with_point io (io_with_point io i p) p' = io_with_point io i p') \<and>
     (\<forall>p p'. (\<forall>q. same_values (pt_values io p q) (pt_values io p' q)) \<longrightarrow> pt_at io p = pt_at io p') \<and>
     (\<forall>net columns p. build_point io net columns = Inr p \<longrightarrow> \<not> pt_switches io p \<and> \<not> pt_capacitors io p \<and>
        (\<forall>q. pt_values io p q = map_option (zip (identities net q)) (map_of columns q)))"

lemma map_err_Inr [result_simps]: "map_err f r = Inr x \<longleftrightarrow> r = Inr x"
  by (cases r) (simp_all add: map_err_def)

lemma all_quantities: "q \<in> set QUANTITIES" "distinct QUANTITIES"
  by (cases q; simp add: QUANTITIES_def) (simp add: QUANTITIES_def)

lemma bt_collect_mem: "map_of (bt_collect vs) k = Some v \<Longrightarrow> (k, v) \<in> set vs"
proof (induction vs rule: rev_induct)
  case (snoc x vs)
  then show ?case by (cases x) (auto simp: bt_collect_def map_simps split: if_splits)
qed (simp add: bt_collect_def)

lemma canonical_columns_lookup:
  assumes "canonical_columns net values p = Inr columns"
  shows "case values p q of None \<Rightarrow> map_of columns q = None
     | Some vs \<Rightarrow> \<exists>ordered. canonical_column net q vs = Inr ordered \<and> map_of columns q = Some ordered"
proof -
  let ?step = "\<lambda>columns q. case values p q of None \<Rightarrow> Inr columns
       | Some vs \<Rightarrow> and_then (canonical_column net q vs) (\<lambda>ordered. Inr (columns @ [(q, ordered)]))"
  have "(\<forall>q. q \<notin> set qs \<longrightarrow> map_of columns q = map_of acc q) \<and>
     (\<forall>q \<in> set qs. map_of acc q = None \<longrightarrow> (case values p q of None \<Rightarrow> map_of columns q = None
        | Some vs \<Rightarrow> \<exists>ordered. canonical_column net q vs = Inr ordered \<and> map_of columns q = Some ordered))"
    if "try_fold ?step acc qs = Inr columns" "distinct qs" for acc qs
    using that
  proof (induction qs arbitrary: acc)
    case (Cons r qs)
    then obtain acc1 where s: "?step acc r = Inr acc1" "try_fold ?step acc1 qs = Inr columns" by (auto simp: result_simps)
    have ih: "(\<forall>q. q \<notin> set qs \<longrightarrow> map_of columns q = map_of acc1 q) \<and>
     (\<forall>q \<in> set qs. map_of acc1 q = None \<longrightarrow> (case values p q of None \<Rightarrow> map_of columns q = None
        | Some vs \<Rightarrow> \<exists>ordered. canonical_column net q vs = Inr ordered \<and> map_of columns q = Some ordered))"
      using Cons.IH [OF s(2)] Cons.prems(2) by simp
    have other: "map_of acc1 q = map_of acc q" if "q \<noteq> r" for q
      using s(1) that by (auto simp: result_simps map_add_def split: option.splits)
    have here: "map_of acc r = None \<Longrightarrow> (case values p r of None \<Rightarrow> map_of acc1 r = None
        | Some vs \<Rightarrow> \<exists>ordered. canonical_column net r vs = Inr ordered \<and> map_of acc1 r = Some ordered)"
      using s(1) by (auto simp: result_simps map_add_def split: option.splits)
    show ?case
    proof (intro conjI allI ballI impI)
      fix q assume "q \<notin> set (r # qs)"
      then show "map_of columns q = map_of acc q" using ih other by simp
    next
      fix q assume q: "q \<in> set (r # qs)" "map_of acc q = None"
      show "case values p q of None \<Rightarrow> map_of columns q = None
        | Some vs \<Rightarrow> \<exists>ordered. canonical_column net q vs = Inr ordered \<and> map_of columns q = Some ordered"
      proof (cases "q = r")
        case True
        then have "map_of columns q = map_of acc1 q" using ih Cons.prems(2) by simp
        then show ?thesis using here q(2) True by (auto split: option.splits)
      next
        case False
        then show ?thesis using ih q other by simp
      qed
    qed
  qed simp
  from this [of "[]" QUANTITIES] assms show ?thesis using all_quantities by (simp add: canonical_columns_def)
qed

lemma canonical_point_valid:
  assumes laws: "point_laws io" and ok: "validate_identities io p net = Inr ()"
    and columns: "canonical_columns net (pt_values io) p = Inr columns" and built: "build_point io net columns = Inr point"
  shows "validate_identities io point net = Inr ()"
proof -
  have flags: "\<not> pt_switches io point" "\<not> pt_capacitors io point"
    and vals: "\<And>q. pt_values io point q = map_option (zip (identities net q)) (map_of columns q)"
    using laws built unfolding point_laws_def by blast+
  have "check_quantity net (pt_values io) point q = Inr ()" for q
  proof (cases "pt_values io p q")
    case None
    then have "map_of columns q = None" using canonical_columns_lookup [OF columns, of q] by simp
    then show ?thesis by (simp add: check_quantity_def vals)
  next
    case (Some vs)
    then obtain ordered where o: "canonical_column net q vs = Inr ordered" "map_of columns q = Some ordered"
      using canonical_columns_lookup [OF columns, of q] by auto
    have all2: "list_all2 (\<lambda>ident v. map_of (bt_collect vs) ident = Some v) (identities net q) ordered"
      using o(1) by (simp add: canonical_column_def Let_def try_map_Inr result_simps)
    then have len: "length ordered = length (identities net q)" by (simp add: list_all2_lengthD)
    have mem: "(ident, v) \<in> set vs" if "(ident, v) \<in> set (zip (identities net q) ordered)" for ident v
      using all2 that bt_collect_mem by (fastforce simp: list_all2_iff)
    have "check_quantity net (pt_values io) p q = Inr ()"
      using ok all_quantities(1) [of q] by (auto simp: validate_identities_def result_simps)
    then have dom: "\<forall>(ident, v) \<in> set vs. \<not> (\<not> is_finite v \<or> (q = TerminalVoltageMagnitude \<and> v < 0) \<or> (q = TransformerTap \<and> v \<le> 0))"
      by (auto simp: check_quantity_def Some result_simps)
    have "set (map fst (zip (identities net q) ordered)) = set (identities net q)" using len by simp
    then show ?thesis using dom mem by (fastforce simp: check_quantity_def vals o(2) result_simps)
  qed
  then show ?thesis using flags by (simp add: validate_identities_def result_simps)
qed

text \<open>The stored instance compiles to what the given one did.\<close>

lemma canonical_compile:
  assumes laws: "point_laws io" and c: "compile io inst o' = Inr m" and i: "canonical_instance io inst = Inr inst'"
  shows "compile io inst' o' = Inr m" "io_network io inst' = io_network io inst"
proof -
  have "compile io inst' o' = Inr m \<and> io_network io inst' = io_network io inst"
  proof (cases "io_point io inst")
    case None
    with i c show ?thesis by (simp add: canonical_instance_def)
  next
    case (Some p)
    then obtain columns point where cc: "canonical_columns (io_network io inst) (pt_values io) p = Inr columns"
      "build_point io (io_network io inst) columns = Inr point" "inst' = io_with_point io inst point"
      using i by (auto simp: canonical_instance_def result_simps)
    have keep: "io_network io inst' = io_network io inst" "io_constraints io inst' = io_constraints io inst"
      "io_objective io inst' = io_objective io inst" "io_point io inst' = Some point"
      using laws unfolding point_laws_def cc(3) by blast+
    have "validate_identities io p (io_network io inst) = Inr ()"
      using c by (auto simp: compile_def prepare_def Some result_simps)
    from canonical_point_valid [OF laws this cc(1,2)] have "prepare io inst' o' = prepare io inst o'"
      using \<open>validate_identities io p (io_network io inst) = Inr ()\<close> by (simp add: prepare_def keep Some)
    with c keep show ?thesis by (simp add: compile_def)
  qed
  then show "compile io inst' o' = Inr m" "io_network io inst' = io_network io inst" by simp_all
qed

text \<open>Storing the point in order changes no lookup, and storing it twice changes nothing.\<close>

definition named_once :: "('i, 'c, 'o, 'p, 'w, 'm, 'k, 'r) opf_io \<Rightarrow> 'i \<Rightarrow> bool" where
  "named_once io inst \<longleftrightarrow>
     (\<forall>q. distinct (identities (io_network io inst) q)) \<and>
     (\<forall>p q vs. io_point io inst = Some p \<longrightarrow> pt_values io p q = Some vs \<longrightarrow> distinct (map fst vs))"

lemma bt_collect_image: "i \<in> set ids \<Longrightarrow> map_of (bt_collect (map (\<lambda>i. (i, f i)) ids)) i = Some (f i)"
proof (induction ids rule: rev_induct)
  case (snoc x ids)
  then show ?case by (auto simp: bt_collect_def map_simps)
qed simp

lemma bt_collect_distinct: "distinct (map fst vs) \<Longrightarrow> (i, v) \<in> set vs \<Longrightarrow> map_of (bt_collect vs) i = Some v"
proof (induction vs rule: rev_induct)
  case (snoc x vs)
  then show ?case by (cases x) (auto simp: bt_collect_def map_simps rev_image_eqI)
qed simp

lemma canonical_column_image:
  assumes "canonical_column net q vs = Inr ordered"
  shows "ordered = map (\<lambda>i. the (map_of (bt_collect vs) i)) (identities net q)"
    "\<And>i. i \<in> set (identities net q) \<Longrightarrow> map_of (bt_collect vs) i = Some (the (map_of (bt_collect vs) i))"
proof -
  have all2: "list_all2 (\<lambda>ident v. map_of (bt_collect vs) ident = Some v) (identities net q) ordered"
    using assms by (simp add: canonical_column_def Let_def try_map_Inr result_simps)
  then show "ordered = map (\<lambda>i. the (map_of (bt_collect vs) i)) (identities net q)"
    by (auto intro!: nth_equalityI simp: list_all2_conv_all_nth)
  show "map_of (bt_collect vs) i = Some (the (map_of (bt_collect vs) i))" if "i \<in> set (identities net q)" for i
    using all2 that by (fastforce simp: list_all2_conv_all_nth in_set_conv_nth)
qed

lemma canonical_column_again:
  assumes "canonical_column net q vs = Inr ordered"
  shows "canonical_column net q (zip (identities net q) ordered) = Inr ordered"
proof -
  let ?f = "\<lambda>i. the (map_of (bt_collect vs) i)"
  have o: "ordered = map ?f (identities net q)" by (rule canonical_column_image [OF assms])
  then have z: "zip (identities net q) ordered = map (\<lambda>i. (i, ?f i)) (identities net q)" by (simp add: zip_map2 zip_same_conv_map)
  have "list_all2 (\<lambda>ident v. map_of (bt_collect (map (\<lambda>i. (i, ?f i)) (identities net q))) ident = Some v) (identities net q) ordered"
    unfolding o by (simp add: list_all2_map2 list.rel_refl_strong bt_collect_image)
  then show ?thesis by (simp add: canonical_column_def Let_def try_map_Inr result_simps z)
qed

lemma canonical_instance_stored:
  assumes laws: "point_laws io" and once: "named_once io inst" and c: "compile io inst o' = Inr m" and i: "canonical_instance io inst = Inr inst'"
  shows "canonical_instance io inst' = Inr inst'" "apply_point io model inst' = apply_point io model inst"
proof -
  have "canonical_instance io inst' = Inr inst' \<and> apply_point io model inst' = apply_point io model inst"
  proof (cases "io_point io inst")
    case None
    with i have "inst' = inst" by (simp add: canonical_instance_def)
    with i show ?thesis by simp
  next
    case (Some p)
    let ?net = "io_network io inst"
    from Some obtain columns point where cc: "canonical_columns ?net (pt_values io) p = Inr columns"
      "build_point io ?net columns = Inr point" "inst' = io_with_point io inst point"
      using i by (auto simp: canonical_instance_def result_simps)
    have keep: "io_network io inst' = ?net" "io_point io inst' = Some point" "io_with_point io inst' point = inst'"
      using laws unfolding point_laws_def cc(3) by blast+
    have vals: "pt_values io point q = map_option (zip (identities ?net q)) (map_of columns q)" for q
      using laws cc(2) unfolding point_laws_def by blast
    have ok: "validate_identities io p ?net = Inr ()" using c by (auto simp: compile_def prepare_def Some result_simps)
    have "canonical_columns ?net (pt_values io) point = canonical_columns ?net (pt_values io) p"
    proof -
      have "(case pt_values io point q of None \<Rightarrow> Inr cs | Some vs \<Rightarrow> and_then (canonical_column ?net q vs) (\<lambda>ordered. Inr (cs @ [(q, ordered)]))) =
        (case pt_values io p q of None \<Rightarrow> Inr cs | Some vs \<Rightarrow> and_then (canonical_column ?net q vs) (\<lambda>ordered. Inr (cs @ [(q, ordered)])))" for cs q
        using canonical_columns_lookup [OF cc(1), of q] by (auto simp: vals canonical_column_again split: option.splits)
      then show ?thesis unfolding canonical_columns_def by presburger
    qed
    then have again: "canonical_instance io inst' = Inr inst'" using cc(1,2) keep by (simp add: canonical_instance_def map_err_def)
    have "same_values (pt_values io p q) (pt_values io point q)" for q
    proof (cases "pt_values io p q")
      case None
      then show ?thesis using canonical_columns_lookup [OF cc(1), of q] by (simp add: same_values_def vals)
    next
      case (Some vs)
      then obtain ordered where o: "canonical_column ?net q vs = Inr ordered" "map_of columns q = Some ordered"
        using canonical_columns_lookup [OF cc(1), of q] by auto
      have d: "distinct (map fst vs)" "distinct (identities ?net q)" using once \<open>io_point io inst = Some p\<close> Some by (auto simp: named_once_def)
      have ids: "set (map fst vs) = set (identities ?net q)"
        using ok all_quantities(1) [of q] by (auto simp: validate_identities_def check_quantity_def Some result_simps)
      let ?f = "\<lambda>i. the (map_of (bt_collect vs) i)"
      have z: "zip (identities ?net q) ordered = map (\<lambda>i. (i, ?f i)) (identities ?net q)"
        by (simp add: canonical_column_image(1) [OF o(1)] zip_map2 zip_same_conv_map)
      have f: "?f i = v" if "(i, v) \<in> set vs" for i v using bt_collect_distinct [OF d(1) that] by simp
      have "set vs = (\<lambda>i. (i, ?f i)) ` set (map fst vs)" using f by force
      then have "set vs = set (zip (identities ?net q) ordered)" unfolding z ids by simp
      moreover have "distinct (map fst (zip (identities ?net q) ordered))" using d(2) by (simp add: z comp_def)
      ultimately show ?thesis using d(1) by (simp add: same_values_def vals o(2) Some)
    qed
    then have "pt_at io point = pt_at io p" using laws unfolding point_laws_def by metis
    moreover have "validate_identities io point ?net = Inr ()" by (rule canonical_point_valid [OF laws ok cc(1,2)])
    ultimately have "apply_point io model inst' = apply_point io model inst" using Some ok keep by (simp add: apply_point_def)
    with again show ?thesis by simp
  qed
  then show "canonical_instance io inst' = Inr inst'" "apply_point io model inst' = apply_point io model inst" by simp_all
qed

section \<open>Reachable sessions\<close>

inductive session_reachable :: "('i, 'c, 'o, 'p, 'w, 'm, 'k, 'r) opf_io \<Rightarrow> ('i, 'm, 'k, 'r) opf_session \<Rightarrow> bool" for io where
  start: "session_new io inst o' = Inr s \<Longrightarrow> session_reachable io s"
| edits: "session_reachable io s \<Longrightarrow> session_reachable io (snd (apply_edits io edits s))"
| options: "session_reachable io s \<Longrightarrow> session_reachable io (snd (set_options io o' s))"
| solving: "session_reachable io s \<Longrightarrow> session_reachable io (snd (solve_cancellable io start cancel s))"

text \<open>The result \<open>r\<close> is what a solve of the instance, the options and the equations of \<open>s\<close> returned, from some start.\<close>

definition solved_by :: "('i, 'c, 'o, 'p, 'w, 'm, 'k, 'r) opf_io \<Rightarrow> ('i, 'm, 'k, 'r) opf_session \<Rightarrow> ('k, 'r) session_result \<Rightarrow> bool" where
  "solved_by io s r \<longleftrightarrow> sr_compilation r = se_compilations s \<and>
     (\<exists>cancel x0 d x. solve_prepared io (sr_attempt r) cancel 1 (se_instance s) (se_options s) ((se_model s)\<lparr>om_x0 := x0\<rparr>) (se_fingerprint s) d =
        Inr (sr_result r, x))"

definition accepted_inv :: "('i, 'c, 'o, 'p, 'w, 'm, 'k, 'r) opf_io \<Rightarrow> ('i, 'm, 'k, 'r) opf_session \<Rightarrow> bool" where
  "accepted_inv io s \<longleftrightarrow> (\<forall>r. se_accepted s = Some r \<longrightarrow> sr_revision r \<le> se_revision s \<and> sr_attempt r \<le> se_attempts s \<and>
     (sr_revision r = se_revision s \<longrightarrow> solved_by io s r))"

definition compiled_inv :: "('i, 'c, 'o, 'p, 'w, 'm, 'k, 'r) opf_io \<Rightarrow> ('i, 'm, 'k, 'r) opf_session \<Rightarrow> bool" where
  "compiled_inv io s \<longleftrightarrow> validate_opf_options (se_options s) = Inr () \<and>
     compile io (se_instance s) (se_options s) = Inr (se_model s, se_fingerprint s)"

lemma increment_facts:
  assumes "increment v = Inr w"
  shows "w = v + 1" "v < w" "unat w = Suc (unat v)"
proof -
  from assms have ne: "v \<noteq> - 1" and w: "w = v + 1" by (auto simp: increment_def split: if_splits)
  then have n: "unat w = Suc (unat v)" by (metis add.commute add_eq_0_iff unatSuc)
  show "w = v + 1" by (rule w)
  show "unat w = Suc (unat v)" by (rule n)
  then show "v < w" by (simp add: word_less_nat_alt)
qed

lemma edits_outcome:
  assumes "apply_edits io edits s = (r, s')"
  obtains (failed) e where "r = Inl e" "s' = s"
  | (same) "edits = []" "r = Inr (se_revision s)" "s' = s"
  | (committed) net c candidate model fingerprint revision compilations where "edits \<noteq> []"
      "try_fold apply_edit (io_network io (se_instance s), io_constraints io (se_instance s)) edits = Inr (net, c)"
      "io_with_network io (se_instance s) net = Inr candidate"
      "compile io (io_with_constraints io candidate c) (se_options s) = Inr (model, fingerprint)"
      "increment (se_revision s) = Inr revision" "increment (se_compilations s) = Inr compilations" "r = Inr revision"
      "s' = s\<lparr>se_instance := io_with_constraints io candidate c, se_model := model, se_fingerprint := fingerprint,
         se_revision := revision, se_compilations := compilations\<rparr>"
proof (cases "edits = []")
  case True
  then have "r = Inr (se_revision s)" "s' = s" using assms by (auto simp: apply_edits_def)
  then show ?thesis by (rule same [OF True])
next
  case False
  let ?m = "and_then (edited_candidate io (se_instance s) edits) (\<lambda>candidate.
             and_then (compile io candidate (se_options s)) (\<lambda>(model, fingerprint).
             and_then (increment (se_revision s)) (\<lambda>revision.
             and_then (increment (se_compilations s)) (\<lambda>compilations.
             Inr (s\<lparr>se_instance := candidate, se_model := model, se_fingerprint := fingerprint, se_revision := revision,
                   se_compilations := compilations\<rparr>)))))"
  have eq: "apply_edits io edits s = (case ?m of Inl e \<Rightarrow> (Inl e, s) | Inr s' \<Rightarrow> (Inr (se_revision s'), s'))"
    using False by (simp add: apply_edits_def)
  show ?thesis
  proof (cases ?m)
    case (Inl e)
    with eq assms failed show ?thesis by simp
  next
    case (Inr t)
    then obtain candidate model fingerprint revision compilations where m: "edited_candidate io (se_instance s) edits = Inr candidate"
      "compile io candidate (se_options s) = Inr (model, fingerprint)" "increment (se_revision s) = Inr revision"
      "increment (se_compilations s) = Inr compilations"
      "t = s\<lparr>se_instance := candidate, se_model := model, se_fingerprint := fingerprint, se_revision := revision, se_compilations := compilations\<rparr>"
      by (auto simp: result_simps)
    from m(1) obtain net c base where e: "try_fold apply_edit (io_network io (se_instance s), io_constraints io (se_instance s)) edits = Inr (net, c)"
      "io_with_network io (se_instance s) net = Inr base" "candidate = io_with_constraints io base c"
      by (auto simp: edited_candidate_def result_simps)
    have "r = Inr revision" "s' = t" using eq assms Inr m(5) by simp_all
    with committed [OF False e(1,2) _ m(3,4)] m(2,5) e(3) show ?thesis by simp
  qed
qed

lemma options_outcome:
  assumes "set_options io o' s = (r, s')"
  obtains (failed) e where "r = Inl e" "s' = s"
  | (same) "options_eq o' (se_options s)" "r = Inr (se_revision s)" "s' = s"
  | (kept) revision where "validate_opf_options o' = Inr ()" "same_bases o' (se_options s)" "increment (se_revision s) = Inr revision"
      "r = Inr revision" "s' = s\<lparr>se_options := o', se_revision := revision\<rparr>"
  | (compiled) revision model fingerprint compilations where "validate_opf_options o' = Inr ()"
      "increment (se_revision s) = Inr revision" "compile io (se_instance s) o' = Inr (model, fingerprint)"
      "increment (se_compilations s) = Inr compilations" "r = Inr revision"
      "s' = s\<lparr>se_model := model, se_fingerprint := fingerprint, se_compilations := compilations, se_options := o', se_revision := revision\<rparr>"
proof (cases "validate_opf_options o'")
  case (Inl e)
  then have "(r, s') = (Inl e, s)" using assms by (simp add: set_options_def)
  then show ?thesis using failed by simp
next
  case (Inr u)
  then have valid: "validate_opf_options o' = Inr ()" by simp
  show ?thesis
  proof (cases "options_eq o' (se_options s)")
    case True
    then have "r = Inr (se_revision s)" "s' = s" using assms valid by (auto simp: set_options_def)
    then show ?thesis by (rule same [OF True])
  next
    case False
    let ?k = "if same_bases o' (se_options s) then Inr s
        else and_then (compile io (se_instance s) o') (\<lambda>(model, fingerprint).
             and_then (increment (se_compilations s)) (\<lambda>compilations.
             Inr (s\<lparr>se_model := model, se_fingerprint := fingerprint, se_compilations := compilations\<rparr>)))"
    let ?m = "and_then (increment (se_revision s)) (\<lambda>revision. and_then ?k (\<lambda>s. Inr (s\<lparr>se_options := o', se_revision := revision\<rparr>)))"
    have eq: "set_options io o' s = (case ?m of Inl e \<Rightarrow> (Inl e, s) | Inr s' \<Rightarrow> (Inr (se_revision s'), s'))"
      using False valid by (simp only: set_options_def sum.case if_False)
    show ?thesis
    proof (cases ?m)
      case (Inl e)
      then have "(r, s') = (Inl e, s)" using eq assms by simp
      then show ?thesis using failed by simp
    next
      case (Inr t)
      then obtain revision s1 where m: "increment (se_revision s) = Inr revision" "?k = Inr s1"
        "t = s1\<lparr>se_options := o', se_revision := revision\<rparr>" unfolding and_then_Inr by blast
      have rs: "r = Inr revision" "s' = t" using eq assms Inr m(3) by simp_all
      show ?thesis
      proof (cases "same_bases o' (se_options s)")
        case True
        then have "s1 = s" using m(2) by simp
        then show ?thesis using kept [OF valid True m(1) rs(1)] rs(2) m(3) by simp
      next
        case False
        then obtain model fingerprint compilations where c: "compile io (se_instance s) o' = Inr (model, fingerprint)"
          "increment (se_compilations s) = Inr compilations"
          "s1 = s\<lparr>se_model := model, se_fingerprint := fingerprint, se_compilations := compilations\<rparr>"
          using m(2) by (auto simp: result_simps)
        show ?thesis using compiled [OF valid m(1) c(1,2) rs(1)] rs(2) m(3) c(3) by simp
      qed
    qed
  qed
qed

lemma same_bases_eq:
  assumes "same_bases a b" "validate_opf_options a = Inr ()" "validate_opf_options b = Inr ()"
  shows "voltage_base_v a = voltage_base_v b" "power_base_va a = power_base_va b"
proof -
  have pos: "is_finite (voltage_base_v o') \<and> \<not> voltage_base_v o' \<le> 0 \<and> is_finite (power_base_va o') \<and> \<not> power_base_va o' \<le> 0"
    if "validate_opf_options o' = Inr ()" for o'
    using that by (auto simp: validate_opf_options_def option_failures_def filter_empty_conv split: if_splits)
  have eq: "x = y" if "f64_eq x y" "\<not> x \<le> 0" "is_finite x" "\<not> y \<le> 0" "is_finite y" for x y :: f64
  proof -
    have "\<not> f64_sign z" if "\<not> z \<le> 0" "is_finite z" for z
    proof
      assume "f64_sign z"
      then have "f64_key z \<le> f64_key 0" using f64_mag_bounds(1) [of z] by (simp add: f64_key_def)
      with that show False by (simp add: less_eq_f64_def f64_le_def)
    qed
    with that have "\<not> f64_sign x" "\<not> f64_sign y" by blast+
    with that(1) show ?thesis by (intro f64_eqI) (auto simp: f64_eq_def f64_key_def)
  qed
  show "voltage_base_v a = voltage_base_v b" "power_base_va a = power_base_va b"
    using assms(1) pos [OF assms(2)] pos [OF assms(3)] by (auto simp: same_bases_def intro: eq)
qed

lemma compile_bases:
  "voltage_base_v a = voltage_base_v b \<Longrightarrow> power_base_va a = power_base_va b \<Longrightarrow> compile io inst a = compile io inst b"
  by (simp add: compile_def prepare_def)

text \<open>A start replaces the starting vector of the model and nothing else; a carried primal is finite everywhere.\<close>

lemma apply_point_model: "apply_point io model inst = Inr (m', d) \<Longrightarrow> \<exists>x0. m' = model\<lparr>om_x0 := x0\<rparr>"
proof (cases "io_point io inst")
  case None
  moreover assume "apply_point io model inst = Inr (m', d)"
  ultimately have "m' = model\<lparr>om_x0 := om_x0 model\<rparr>" by (simp add: apply_point_def)
  then show ?thesis ..
qed (auto simp: apply_point_def result_simps)

lemma position_None: "position p xs = None \<longleftrightarrow> (\<forall>x \<in> set xs. \<not> p x)"
  by (induction xs) auto

lemma refresh_finite: "refresh io model x = Inr x' \<Longrightarrow> list_all is_finite x'"
  by (auto simp: refresh_def result_simps Let_def position_None list_all_iff split: option.splits)

lemma warm_start_model:
  assumes "warm_start io s r model = Inr (m', used, d)"
  shows "\<exists>x0. m' = model\<lparr>om_x0 := x0\<rparr>" "used = UsedPreviousPrimal \<Longrightarrow> list_all is_finite (om_x0 m')" "used \<noteq> UsedDeclared"
proof -
  consider x where "m' = model\<lparr>om_x0 := x\<rparr>" "used = UsedPreviousPrimal" "refresh io model (carry_primal (se_primal s) model) = Inr x"
    | inst where "apply_point io model inst = Inr (m', d)" "used = UsedPreviousOperatingPoint"
    using assms by (auto simp: warm_start_def result_simps split: if_splits)
  then have "(\<exists>x0. m' = model\<lparr>om_x0 := x0\<rparr>) \<and> (used = UsedPreviousPrimal \<longrightarrow> list_all is_finite (om_x0 m')) \<and> used \<noteq> UsedDeclared"
    by cases (auto dest: refresh_finite apply_point_model)
  then show "\<exists>x0. m' = model\<lparr>om_x0 := x0\<rparr>" "used = UsedPreviousPrimal \<Longrightarrow> list_all is_finite (om_x0 m')" "used \<noteq> UsedDeclared" by blast+
qed

lemma initialize_cases:
  assumes "initialize io s (se_model s) start = Inr (m', used, d)"
  obtains (declared) "apply_point io (se_model s) (se_instance s) = Inr (m', d)" "used = UsedDeclared"
  | (warm) r where "start = StartLastAccepted" "se_accepted s = Some r" "warm_start io s r (se_model s) = Inr (m', used, d)"
  | (discarded) r e d0 where "start = StartLastAccepted" "se_accepted s = Some r" "warm_start io s r (se_model s) = Inl e"
      "apply_point io (se_model s) (se_instance s) = Inr (m', d0)" "used = UsedDeclared"
proof (cases "if start = StartLastAccepted then se_accepted s else None")
  case None
  with assms show ?thesis by (intro declared) (auto simp: initialize_def result_simps)
next
  case (Some r)
  then have r: "start = StartLastAccepted" "se_accepted s = Some r" by (auto split: if_splits)
  show ?thesis
  proof (cases "warm_start io s r (se_model s)")
    case (Inl e)
    with assms r obtain d0 where "apply_point io (se_model s) (se_instance s) = Inr (m', d0)" "used = UsedDeclared"
      by (auto simp: initialize_def result_simps)
    then show ?thesis by (rule discarded [OF r Inl])
  next
    case (Inr x)
    with assms r have "warm_start io s r (se_model s) = Inr (m', used, d)" by (simp add: initialize_def)
    then show ?thesis by (rule warm [OF r])
  qed
qed

lemma initialize_model:
  assumes "initialize io s (se_model s) start = Inr (m', used, d)"
  shows "\<exists>x0. m' = (se_model s)\<lparr>om_x0 := x0\<rparr>"
  using assms by (cases rule: initialize_cases) (auto dest: apply_point_model warm_start_model(1))

lemma solve_outcome:
  assumes "solve_cancellable io start cancel s = (r, s')"
  obtains (exhausted) e where "increment (se_attempts s) = Inl e" "r = Inl e" "s' = s"
  | (failed) e n where "increment (se_attempts s) = Inr n" "r = Inl e" "s' = s\<lparr>se_attempts := n\<rparr>"
  | (solved) n used d result x x0 primal where "increment (se_attempts s) = Inr n"
      "initialize io (s\<lparr>se_attempts := n\<rparr>) (se_model s) start = Inr ((se_model s)\<lparr>om_x0 := x0\<rparr>, used, d)"
      "solve_prepared io n cancel 1 (se_instance s) (se_options s) ((se_model s)\<lparr>om_x0 := x0\<rparr>) (se_fingerprint s) d = Inr (result, x)"
      "r = Inr \<lparr>sr_revision = se_revision s, sr_attempt = n, sr_compilation = se_compilations s, sr_start = used, sr_result = result\<rparr>"
      "s' = s\<lparr>se_attempts := n, se_primal := primal, se_primal_names_unique := (length primal = length (om_var_names (se_model s))),
         se_accepted := Some \<lparr>sr_revision = se_revision s, sr_attempt = n, sr_compilation = se_compilations s, sr_start = used, sr_result = result\<rparr>\<rparr>"
proof (cases "increment (se_attempts s)")
  case (Inl e)
  with assms show ?thesis by (intro exhausted) (auto simp: solve_cancellable_def)
next
  case (Inr n)
  let ?s = "s\<lparr>se_attempts := n\<rparr>"
  let ?acc = "\<lambda>used result. \<lparr>sr_revision = se_revision s, sr_attempt = n, sr_compilation = se_compilations s, sr_start = used, sr_result = result\<rparr>"
  let ?m = "and_then (cancelled cancel 0 Input) (\<lambda>_.
     and_then (initialize io ?s (se_model s) start) (\<lambda>(model, used, diagnostics).
     and_then (solve_prepared io n cancel 1 (se_instance s) (se_options s) model (se_fingerprint s) diagnostics) (\<lambda>(result, x).
     and_then (cancelled cancel 5 Validation) (\<lambda>_. Inr (?acc used result, bt_collect (zip (om_var_names (se_model s)) x))))))"
  have eq: "solve_cancellable io start cancel s = (case ?m of Inl e \<Rightarrow> (Inl e, ?s)
     | Inr (accepted, primal) \<Rightarrow> (Inr accepted, ?s\<lparr>se_primal := primal, se_primal_names_unique := (length primal = length (om_var_names (se_model s))),
          se_accepted := Some accepted\<rparr>))"
    using Inr by (simp add: solve_cancellable_def Let_def split: sum.split prod.split)
  show ?thesis
  proof (cases ?m)
    case (Inl e)
    with eq assms failed [OF Inr] show ?thesis by simp
  next
    case Ok: (Inr y)
    then obtain model used d result x where m: "initialize io ?s (se_model s) start = Inr (model, used, d)"
      "solve_prepared io n cancel 1 (se_instance s) (se_options s) model (se_fingerprint s) d = Inr (result, x)"
      "y = (?acc used result, bt_collect (zip (om_var_names (se_model s)) x))"
      by (auto simp: result_simps)
    from initialize_model [of io ?s start] m(1) obtain x0 where x0: "model = (se_model s)\<lparr>om_x0 := x0\<rparr>" by fastforce
    have "r = Inr (?acc used result)" "s' = ?s\<lparr>se_primal := bt_collect (zip (om_var_names (se_model s)) x),
      se_primal_names_unique := (length (bt_collect (zip (om_var_names (se_model s)) x)) = length (om_var_names (se_model s))),
      se_accepted := Some (?acc used result)\<rparr>"
      using eq assms Ok m(3) by simp_all
    with solved [OF Inr m(1) [unfolded x0] m(2) [unfolded x0]] show ?thesis by simp
  qed
qed

lemma compiled_reachable:
  assumes laws: "point_laws io" and "session_reachable io s"
  shows "compiled_inv io s"
  using assms(2)
proof induction
  case (start inst o' s)
  then obtain model fingerprint inst' where n: "validate_opf_options o' = Inr ()" "compile io inst o' = Inr (model, fingerprint)"
    "canonical_instance io inst = Inr inst'" "se_instance s = inst'" "se_options s = o'" "se_model s = model" "se_fingerprint s = fingerprint"
    by (auto simp: session_new_def result_simps)
  show ?case using canonical_compile(1) [OF laws n(2,3)] n by (simp add: compiled_inv_def)
next
  case (edits s edits)
  obtain r s' where run: "apply_edits io edits s = (r, s')" by (cases "apply_edits io edits s")
  then have "compiled_inv io s'" by (cases rule: edits_outcome) (use edits.IH in \<open>auto simp: compiled_inv_def\<close>)
  then show ?case by (simp add: run)
next
  case (options s o')
  obtain r s' where run: "set_options io o' s = (r, s')" by (cases "set_options io o' s")
  then have "compiled_inv io s'"
  proof (cases rule: options_outcome)
    case (kept revision)
    have "compile io (se_instance s) o' = compile io (se_instance s) (se_options s)"
      by (rule compile_bases) (rule same_bases_eq [OF kept(2,1)], use options.IH in \<open>simp add: compiled_inv_def\<close>)+
    then show ?thesis using options.IH kept by (simp add: compiled_inv_def)
  qed (use options.IH in \<open>auto simp: compiled_inv_def\<close>)
  then show ?case by (simp add: run)
next
  case (solving s start cancel)
  obtain r s' where run: "solve_cancellable io start cancel s = (r, s')" by (cases "solve_cancellable io start cancel s")
  then have "compiled_inv io s'" by (cases rule: solve_outcome) (use solving.IH in \<open>auto simp: compiled_inv_def\<close>)
  then show ?case by (simp add: run)
qed

lemma accepted_reachable: "session_reachable io s \<Longrightarrow> accepted_inv io s"
proof (induction rule: session_reachable.induct)
  case (start inst o' s)
  then show ?case by (auto simp: session_new_def accepted_inv_def result_simps)
next
  case (edits s edits)
  obtain r s' where run: "apply_edits io edits s = (r, s')" by (cases "apply_edits io edits s")
  then have "accepted_inv io s'"
  proof (cases rule: edits_outcome)
    case (committed net c candidate model fingerprint revision compilations)
    have "se_revision s < revision" by (rule increment_facts(2) [OF committed(5)])
    then show ?thesis using edits.IH by (fastforce simp: accepted_inv_def committed(8))
  qed (use edits.IH in simp_all)
  then show ?case by (simp add: run)
next
  case (options s o')
  obtain r s' where run: "set_options io o' s = (r, s')" by (cases "set_options io o' s")
  then have "accepted_inv io s'"
  proof (cases rule: options_outcome)
    case (kept revision)
    have "se_revision s < revision" by (rule increment_facts(2) [OF kept(3)])
    then show ?thesis using options.IH by (fastforce simp: accepted_inv_def kept(5))
  next
    case (compiled revision model fingerprint compilations)
    have "se_revision s < revision" by (rule increment_facts(2) [OF compiled(2)])
    then show ?thesis using options.IH by (fastforce simp: accepted_inv_def compiled(6))
  qed (use options.IH in simp_all)
  then show ?case by (simp add: run)
next
  case (solving s start cancel)
  obtain r s' where run: "solve_cancellable io start cancel s = (r, s')" by (cases "solve_cancellable io start cancel s")
  then have "accepted_inv io s'"
  proof (cases rule: solve_outcome)
    case (failed e n)
    have "se_attempts s < n" by (rule increment_facts(2) [OF failed(1)])
    then show ?thesis using solving.IH by (fastforce simp: accepted_inv_def solved_by_def failed(3))
  next
    case (solved n used d result x x0 primal)
    then show ?thesis by (auto simp: accepted_inv_def solved_by_def)
  qed (use solving.IH in simp_all)
  then show ?case by (simp add: run)
qed

text \<open>The gates a solve has passed when it returns.\<close>

lemma solve_prepared_gates:
  assumes "solve_prepared io n cancel k inst o' model fingerprint d = Inr (result, x)"
  obtains checked pf where "sv_status (optimize io n model o') \<in> {''SolveSucceeded'', ''SolvedToAcceptableLevel''}"
    "sv_x (optimize io n model o') = Some x"
    "check_point io model x (sv_objective (optimize io n model o')) (acceptance_tolerance o') = Inr checked"
    "check_power_factors io (io_network io inst) (ck_devices checked) (power_base_va o') (acceptance_tolerance o') = Inr pf"
    "or_devices result = ck_devices checked" "or_rest result = ck_rest checked" "or_options result = o'" "or_fingerprint result = fingerprint"
  using assms by (auto simp: solve_prepared_def Let_def result_simps case_prod_unfold)

section \<open>Concrete sessions\<close>

text \<open>A bus with two terminals, a point that lists them in the other order, and an optimizer that stays where it starts.\<close>

type_synonym pair_point = "(quantity \<times> (string \<times> f64) list) list"

definition pair_io :: "(opf_network \<times> nat \<times> pair_point option, nat, unit, pair_point, unit, unit, f64 list, unit) opf_io" where
  "pair_io = \<lparr>io_network = fst, io_constraints = (\<lambda>i. fst (snd i)), io_objective = (\<lambda>_. ()), io_point = (\<lambda>i. snd (snd i)),
     io_with_network = (\<lambda>i net. Inr (net, snd i)), io_with_constraints = (\<lambda>(n, _, p) c. (n, c, p)), io_with_objective = (\<lambda>i _. i),
     io_with_point = (\<lambda>(n, c, _) p. (n, c, Some p)), io_from_network = (\<lambda>n. Inr (n, 0, None)), pt_values = map_of,
     pt_at = (\<lambda>p q ids. case map_of p q of None \<Rightarrow> None | Some vs \<Rightarrow> map_of vs (slashed (ids ! 0) (ids ! 1))),
     pt_switches = (\<lambda>_. False), pt_capacitors = (\<lambda>_. False),
     build_point = (\<lambda>n cs. Inr (map (\<lambda>(q, vs). (q, zip (identities n q) vs)) cs)),
     build_preparation = (\<lambda>_ _ _. Inr ()), prep_fingerprint = (\<lambda>_. Inr ''sha''),
     compile_model = (\<lambda>_ _. Inr \<lparr>om_var_names = [''u'', ''v''], om_x0 = [1, 1], om_zero_columns = [], om_start_lifts = [],
       om_transformer_tap = [], om_transformers = [], om_terminals = [(''a'', ''1''), (''a'', ''2'')], om_rest = ()\<rparr>),
     project_point = (\<lambda>_ at. case (at TerminalVoltageMagnitude [''a'', ''1''], at TerminalVoltageMagnitude [''a'', ''2'']) of
       (Some u, Some v) \<Rightarrow> Inr ([u, v], []) | _ \<Rightarrow> Inr ([1, 1], [])),
     evaluator = (\<lambda>_. Inr ()), configure = (\<lambda>_. Inr ()),
     optimize = (\<lambda>_ m _. \<lparr>sv_status = ''SolveSucceeded'', sv_x = Some (om_x0 m), sv_objective = 0, sv_multipliers = None, sv_iterations = 3\<rparr>),
     check_point = (\<lambda>_ x c _. Inr \<lparr>ck_voltage = [], ck_devices = [], ck_transformers = [], ck_objective = c, ck_rest = x\<rparr>),
     check_power_factors = (\<lambda>_ _ _ _. Inr []), analyze_duals = (\<lambda>_ _ _. Inl ''none''), new_solution = (\<lambda>_ _ _ _ _ _. Inr ()),
     times_conj = (\<lambda>u _. u), cx_norm = fst, cx_arg = snd, f64_ln = (\<lambda>x. x)\<rparr>"

definition pair_network :: opf_network where
  "pair_network = \<lparr>ow_loads = [], ow_inverters = [], ow_generators = [], ow_sources = [], ow_lines = [],
     ow_buses = [\<lparr>ob_id = ''a'', ob_terminals = [''1'', ''2''], ob_v_min = None, ob_v_max = None, ob_rest = ''''\<rparr>],
     ow_profiles = [], ow_transformers = [], ow_rest = ''''\<rparr>"

definition pair_instance :: "opf_network \<times> nat \<times> pair_point option" where
  "pair_instance = (pair_network, 0, Some [(TerminalVoltageMagnitude, [(''a/2'', f64_of_int 2), (''a/1'', f64_of_int 3)])])"

definition pair_options :: opf_options where
  "pair_options = \<lparr>voltage_base_v = 1, power_base_va = 1, acceptance_tolerance = 1, opf_max_iterations = 9, objective_scale = 1,
     collect_profile = False, collect_duals = False\<rparr>"

lemma pair_io_fields [simp]:
  "io_network pair_io = fst" "io_constraints pair_io = (\<lambda>i. fst (snd i))" "io_objective pair_io = (\<lambda>_. ())" "io_point pair_io = (\<lambda>i. snd (snd i))"
  "io_with_point pair_io = (\<lambda>(n, c, _) p. (n, c, Some p))" "pt_values pair_io = map_of"
  "pt_at pair_io = (\<lambda>p q ids. case map_of p q of None \<Rightarrow> None | Some vs \<Rightarrow> map_of vs (slashed (ids ! 0) (ids ! 1)))"
  "pt_switches pair_io p \<longleftrightarrow> False" "pt_capacitors pair_io p \<longleftrightarrow> False"
  "build_point pair_io = (\<lambda>n cs. Inr (map (\<lambda>(q, vs). (q, zip (identities n q) vs)) cs))"
  by (simp_all add: pair_io_def)

lemma pair_laws: "point_laws pair_io"
proof -
  have built: "map_of (map (\<lambda>(q, vs). (q, zip (f q) vs)) cs) q = map_option (zip (f q)) (map_of cs q)" for f :: "quantity \<Rightarrow> string list" and cs q
    by (induction cs) auto
  have same: "map_of u = map_of v" if "set u = set v" "distinct (map fst u)" "distinct (map fst v)" for u v :: "(string \<times> f64) list"
    using that by (metis map_of_inject_set)
  have "pt_at pair_io p = pt_at pair_io p'" if s: "\<forall>q. same_values (map_of p q) (map_of p' q)" for p p'
  proof -
    have "(case map_of p q of None \<Rightarrow> None | Some vs \<Rightarrow> map_of vs x) = (case map_of p' q of None \<Rightarrow> None | Some vs \<Rightarrow> map_of vs x)" for q x
    proof (cases "map_of p q")
      case None
      with s [THEN spec, of q] show ?thesis by (simp add: same_values_def split: option.splits)
    next
      case (Some u)
      with s [THEN spec, of q] obtain v where v: "map_of p' q = Some v" "set u = set v" "distinct (map fst u)" "distinct (map fst v)"
        by (auto simp: same_values_def split: option.splits)
      then show ?thesis using same [OF v(2-4)] Some by simp
    qed
    then show ?thesis by simp
  qed
  then show ?thesis by (simp add: point_laws_def built split_paired_all)
qed

lemma pair_named: "named_once pair_io pair_instance"
proof -
  have "distinct (identities pair_network q)" for q by (cases q) (simp_all add: identities_def pair_network_def slashed_def)
  then show ?thesis by (auto simp: named_once_def pair_instance_def split: if_splits)
qed

definition pair_model :: "unit opf_model" where
  "pair_model = \<lparr>om_var_names = [''u'', ''v''], om_x0 = [1, 1], om_zero_columns = [], om_start_lifts = [],
       om_transformer_tap = [], om_transformers = [], om_terminals = [(''a'', ''1''), (''a'', ''2'')], om_rest = ()\<rparr>"

definition pair_session :: "(opf_network \<times> nat \<times> pair_point option, unit, f64 list, unit) opf_session" where
  "pair_session = \<lparr>se_instance = (pair_network, 0, Some [(TerminalVoltageMagnitude, [(''a/1'', f64_of_int 3), (''a/2'', f64_of_int 2)])]),
     se_options = pair_options, se_model = pair_model, se_fingerprint = ''sha'', se_revision = 0, se_attempts = 0, se_compilations = 1,
     se_accepted = None, se_primal = [], se_primal_names_unique = True\<rparr>"

definition pair_result :: "(f64 list, unit) opf_result" where
  "pair_result = \<lparr>or_options = pair_options, or_terminals = [], or_transformers = [], or_devices = [], or_duals = None, or_diagnostics = [],
     or_solution = (), or_fingerprint = ''sha'', or_iterations = 3, or_rest = [f64_of_int 3, f64_of_int 2]\<rparr>"

definition pair_accepted :: "(f64 list, unit) session_result" where
  "pair_accepted = \<lparr>sr_revision = 0, sr_attempt = 1, sr_compilation = 1, sr_start = UsedDeclared, sr_result = pair_result\<rparr>"

lemma pair_new: "session_new pair_io pair_instance pair_options = Inr pair_session"
  by code_simp

lemma pair_solved: "fst (solve_cancellable pair_io StartDeclared (\<lambda>_. False) pair_session) = Inr pair_accepted"
  by code_simp

lemma pair_refused: "fst (apply_edits pair_io [LoadPower ''b'' [] []] pair_session) = Inl (session_invalid ''b'' ''unknown component identity'')"
  by code_simp

section \<open>Properties\<close>

text \<open>C15: in every session that the public operations can reach, the retained model and fingerprint are the compilation of the instance and the
  options as they stand, and what \<open>current_result\<close> offers was solved on exactly this model, up to its starting vector, at the current
  revision: the optimizer reported success, and its point passed the residual check and the power-factor check under the current tolerance.\<close>

theorem current_result_passed:
  assumes "point_laws io" and "session_reachable io s"
  shows "compile io (se_instance s) (se_options s) = Inr (se_model s, se_fingerprint s) \<and>
    (\<forall>r. current_result s = Some r \<longrightarrow>
       sr_revision r = se_revision s \<and> sr_compilation r = se_compilations s \<and> or_options (sr_result r) = se_options s \<and>
       or_fingerprint (sr_result r) = se_fingerprint s \<and>
       (\<exists>x0 x checked pf. let model = (se_model s)\<lparr>om_x0 := x0\<rparr>; t = optimize io (se_attempts s) model (se_options s) in
          sv_status t \<in> {''SolveSucceeded'', ''SolvedToAcceptableLevel''} \<and> sv_x t = Some x \<and>
          check_point io model x (sv_objective t) (acceptance_tolerance (se_options s)) = Inr checked \<and>
          check_power_factors io (io_network io (se_instance s)) (ck_devices checked) (power_base_va (se_options s))
            (acceptance_tolerance (se_options s)) = Inr pf \<and>
          or_devices (sr_result r) = ck_devices checked \<and> or_rest (sr_result r) = ck_rest checked))"
proof (intro conjI allI impI)
  show "compile io (se_instance s) (se_options s) = Inr (se_model s, se_fingerprint s)"
    using compiled_reachable [OF assms] by (simp add: compiled_inv_def)
next
  fix r assume "current_result s = Some r"
  then have acc: "se_accepted s = Some r" "sr_revision r = se_revision s" "sr_attempt r = se_attempts s"
    by (auto simp: current_result_def split: option.splits if_splits)
  with accepted_reachable [OF assms(2)] obtain cancel x0 d x where by_: "sr_compilation r = se_compilations s"
    and run: "solve_prepared io (se_attempts s) cancel 1 (se_instance s) (se_options s) ((se_model s)\<lparr>om_x0 := x0\<rparr>) (se_fingerprint s) d = Inr (sr_result r, x)"
    by (auto simp: accepted_inv_def solved_by_def)
  show "sr_revision r = se_revision s" by (rule acc(2))
  show "sr_compilation r = se_compilations s" by (rule by_)
  show "or_options (sr_result r) = se_options s" "or_fingerprint (sr_result r) = se_fingerprint s"
    "\<exists>x0 x checked pf. let model = (se_model s)\<lparr>om_x0 := x0\<rparr>; t = optimize io (se_attempts s) model (se_options s) in
          sv_status t \<in> {''SolveSucceeded'', ''SolvedToAcceptableLevel''} \<and> sv_x t = Some x \<and>
          check_point io model x (sv_objective t) (acceptance_tolerance (se_options s)) = Inr checked \<and>
          check_power_factors io (io_network io (se_instance s)) (ck_devices checked) (power_base_va (se_options s))
            (acceptance_tolerance (se_options s)) = Inr pf \<and>
          or_devices (sr_result r) = ck_devices checked \<and> or_rest (sr_result r) = ck_rest checked"
    unfolding Let_def by (rule solve_prepared_gates [OF run]; blast)+
qed

lemma superseded:
  assumes "session_reachable io s" "se_accepted s' = se_accepted s" "se_revision s < se_revision s' \<or> se_attempts s < se_attempts s'"
  shows "current_result s' = None"
  using accepted_reachable [OF assms(1)] assms(2,3) by (auto simp: accepted_inv_def current_result_def split: option.splits)

lemma edits_all_or_nothing:
  assumes "session_reachable io s"
  shows "case apply_edits io edits s of (Inl _, s') \<Rightarrow> s' = s
      | (Inr n, s') \<Rightarrow> if edits = [] then s' = s else s' \<noteq> s \<and> unat n = Suc (unat (se_revision s)) \<and> se_revision s' = n \<and>
          se_accepted s' = se_accepted s \<and> current_result s' = None"
proof -
  obtain r s' where run: "apply_edits io edits s = (r, s')" by (cases "apply_edits io edits s")
  then show ?thesis
  proof (cases rule: edits_outcome)
    case (committed net c candidate model fingerprint revision compilations)
    note up = increment_facts(2,3) [OF committed(5)]
    have "current_result s' = None" by (rule superseded [OF assms]) (use up in \<open>simp_all add: committed(8)\<close>)
    moreover have "s' \<noteq> s" using up by (auto simp: committed(8) dest: arg_cong [where f = se_revision])
    ultimately show ?thesis unfolding run using up committed(1,7) by (simp add: committed(8))
  qed (unfold run, simp_all)
qed

lemma options_all_or_nothing:
  assumes "session_reachable io s"
  shows "case set_options io o' s of (Inl _, s') \<Rightarrow> s' = s
      | (Inr n, s') \<Rightarrow> if options_eq o' (se_options s) then s' = s else unat n = Suc (unat (se_revision s)) \<and> se_revision s' = n \<and>
          se_options s' = o' \<and> se_instance s' = se_instance s \<and> se_accepted s' = se_accepted s \<and> current_result s' = None"
proof -
  obtain r s' where run: "set_options io o' s = (r, s')" by (cases "set_options io o' s")
  show ?thesis
  proof (cases "validate_opf_options o' = Inr () \<and> options_eq o' (se_options s)")
    case True
    then show ?thesis by (simp add: set_options_def)
  next
    case False
    from run show ?thesis
    proof (cases rule: options_outcome)
      case (kept revision)
      note up = increment_facts(2,3) [OF kept(3)]
      have "current_result s' = None" by (rule superseded [OF assms]) (use up in \<open>simp_all add: kept(5)\<close>)
      then show ?thesis unfolding run using up kept(1,4) False by (simp add: kept(5))
    next
      case (compiled revision model fingerprint compilations)
      note up = increment_facts(2,3) [OF compiled(2)]
      have "current_result s' = None" by (rule superseded [OF assms]) (use up in \<open>simp_all add: compiled(6)\<close>)
      then show ?thesis unfolding run using up compiled(1,5) False by (simp add: compiled(6))
    qed (unfold run, simp_all)
  qed
qed

lemma solve_all_or_nothing:
  assumes "session_reachable io s"
  shows "case solve_cancellable io start cancel s of
        (Inl _, s') \<Rightarrow> if se_attempts s = - 1 then s' = s else s' = s\<lparr>se_attempts := se_attempts s + 1\<rparr> \<and> current_result s' = None
      | (Inr r, s') \<Rightarrow> current_result s' = Some r \<and> se_accepted s' = Some r \<and> se_instance s' = se_instance s \<and> se_options s' = se_options s \<and>
          se_model s' = se_model s \<and> se_revision s' = se_revision s"
proof -
  obtain r s' where run: "solve_cancellable io start cancel s = (r, s')" by (cases "solve_cancellable io start cancel s")
  then show ?thesis
  proof (cases rule: solve_outcome)
    case (exhausted e)
    then have "se_attempts s = - 1" by (auto simp: increment_def split: if_splits)
    with exhausted show ?thesis by (simp add: run)
  next
    case (failed e n)
    note up = increment_facts(2,3) [OF failed(1)]
    have "current_result s' = None" by (rule superseded [OF assms]) (use up in \<open>simp_all add: failed(3)\<close>)
    moreover have "se_attempts s \<noteq> - 1" using failed(1) by (auto simp: increment_def)
    ultimately show ?thesis using increment_facts(1) [OF failed(1)] by (simp add: run failed(2,3))
  next
    case (solved n used d result x x0 primal)
    then show ?thesis by (simp add: run current_result_def)
  qed
qed

text \<open>C16: a session operation that fails changes nothing but the count of attempts: a refused batch of edits or set of options leaves the session as it
  was, a failed solve keeps the instance, the model and the last accepted result but offers no result as current. A batch that is
  committed, or options that change, raise the revision and withdraw the current result.\<close>

theorem session_all_or_nothing:
  assumes "session_reachable io s"
  shows "(case apply_edits io edits s of (Inl _, s') \<Rightarrow> s' = s
      | (Inr n, s') \<Rightarrow> if edits = [] then s' = s else s' \<noteq> s \<and> unat n = Suc (unat (se_revision s)) \<and> se_revision s' = n \<and>
          se_accepted s' = se_accepted s \<and> current_result s' = None) \<and>
    (case set_options io o' s of (Inl _, s') \<Rightarrow> s' = s
      | (Inr n, s') \<Rightarrow> if options_eq o' (se_options s) then s' = s else unat n = Suc (unat (se_revision s)) \<and> se_revision s' = n \<and>
          se_options s' = o' \<and> se_instance s' = se_instance s \<and> se_accepted s' = se_accepted s \<and> current_result s' = None) \<and>
    (case solve_cancellable io start cancel s of
        (Inl _, s') \<Rightarrow> if se_attempts s = - 1 then s' = s else s' = s\<lparr>se_attempts := se_attempts s + 1\<rparr> \<and> current_result s' = None
      | (Inr r, s') \<Rightarrow> current_result s' = Some r \<and> se_accepted s' = Some r \<and> se_instance s' = se_instance s \<and> se_options s' = se_options s \<and>
          se_model s' = se_model s \<and> se_revision s' = se_revision s)"
  by (intro conjI edits_all_or_nothing options_all_or_nothing solve_all_or_nothing assms)


text \<open>C17: the first solve of a fresh session from the declared start answers what the one-shot solve of the given instance answers, result or error,
  although the session stores the declared point in canonical order: on an instance whose components and point entries are named once.\<close>

theorem first_solve_is_one_shot:
  assumes "point_laws io" and "named_once io inst" and "session_new io inst o' = Inr s"
  shows "fst (solve_cancellable io StartDeclared (\<lambda>_. False) s) =
    (case solve_instance io 1 (\<lambda>_. False) inst o' of Inl e \<Rightarrow> Inl e
     | Inr result \<Rightarrow> Inr \<lparr>sr_revision = 0, sr_attempt = 1, sr_compilation = 1, sr_start = UsedDeclared, sr_result = result\<rparr>)"
proof -
  from assms(3) obtain model fingerprint inst' where n: "validate_opf_options o' = Inr ()" "compile io inst o' = Inr (model, fingerprint)"
    "canonical_instance io inst = Inr inst'"
    "s = \<lparr>se_instance = inst', se_options = o', se_model = model, se_fingerprint = fingerprint, se_revision = 0, se_attempts = 0,
         se_compilations = 1, se_accepted = None, se_primal = [], se_primal_names_unique = True\<rparr>"
    by (auto simp: session_new_def result_simps)
  note stored = canonical_instance_stored [OF assms(1,2) n(2,3)]
  have prep: "solve_prepared io 1 c k inst' o' m f d = solve_prepared io 1 c k inst o' m f d" for c k m f d
    unfolding solve_prepared_def stored(1) n(3) canonical_compile(2) [OF assms(1) n(2,3)] ..
  have inc: "increment 0 = Inr 1" by (simp add: increment_def)
  have poll: "cancelled (\<lambda>_. False) k st = Inr ()" for k st by (simp add: cancelled_def err_if_def)
  have "solve_instance io 1 (\<lambda>_. False) inst o' = and_then (apply_point io model inst) (\<lambda>(model, d).
     and_then (solve_prepared io 1 (\<lambda>_. False) 1 inst o' model fingerprint d) (\<lambda>(result, _). Inr result))"
    by (simp add: solve_instance_def poll n(1,2))
  moreover have "initialize io (s\<lparr>se_attempts := 1\<rparr>) model StartDeclared = and_then (apply_point io model inst) (\<lambda>(m, d). Inr (m, UsedDeclared, d))"
    by (simp add: initialize_def n(4) stored(2))
  ultimately show ?thesis
    by (cases "apply_point io model inst")
       (auto simp: solve_cancellable_def n(4) inc poll Let_def prep split: sum.splits prod.splits dest!: and_then_Inr [THEN iffD1] and_then_Inl [THEN iffD1])
qed

section \<open>Witnesses\<close>

lemma pair_check: "check_point pair_io m x c t = Inr \<lparr>ck_voltage = [], ck_devices = [], ck_transformers = [], ck_objective = c, ck_rest = x\<rparr>"
  by (simp add: pair_io_def)

theorem current_result_passed_witness:
  "\<exists>s x0. current_result s = Some pair_accepted \<and> compile pair_io (se_instance s) (se_options s) = Inr (se_model s, se_fingerprint s) \<and>
     sv_x (optimize pair_io 1 ((se_model s)\<lparr>om_x0 := x0\<rparr>) (se_options s)) = Some [f64_of_int 3, f64_of_int 2]"
proof -
  obtain s where run: "solve_cancellable pair_io StartDeclared (\<lambda>_. False) pair_session = (Inr pair_accepted, s)"
    using pair_solved by (metis prod.collapse)
  have r: "session_reachable pair_io pair_session" by (rule session_reachable.start [OF pair_new])
  have now: "current_result s = Some pair_accepted" "se_attempts s = 1"
  proof -
    from run have "current_result s = Some pair_accepted \<and> se_attempts s = 1"
    proof (cases rule: solve_outcome)
      case (solved n used d result x x0 primal)
      have "n = 1" using solved(1) by (simp add: increment_def pair_session_def)
      then show ?thesis using solved(4) by (auto simp: solved(5) current_result_def pair_accepted_def pair_session_def)
    qed simp_all
    then show "current_result s = Some pair_accepted" "se_attempts s = 1" by blast+
  qed
  have "session_reachable pair_io s" using session_reachable.solving [OF r, of StartDeclared "\<lambda>_. False"] by (simp add: run)
  note passed = current_result_passed [OF pair_laws this]
  note gates = passed [THEN conjunct2, THEN spec, THEN mp, OF now(1), unfolded Let_def]
  from gates obtain x0 x checked where x: "sv_x (optimize pair_io (se_attempts s) ((se_model s)\<lparr>om_x0 := x0\<rparr>) (se_options s)) = Some x"
    "check_point pair_io ((se_model s)\<lparr>om_x0 := x0\<rparr>) x
       (sv_objective (optimize pair_io (se_attempts s) ((se_model s)\<lparr>om_x0 := x0\<rparr>) (se_options s)))
       (acceptance_tolerance (se_options s)) = Inr checked" "or_rest (sr_result pair_accepted) = ck_rest checked"
    by blast
  have "ck_rest checked = x" using x(2) unfolding pair_check by auto
  with x(3) have "x = [f64_of_int 3, f64_of_int 2]" by (simp add: pair_accepted_def pair_result_def)
  with x(1) now(2) have "sv_x (optimize pair_io 1 ((se_model s)\<lparr>om_x0 := x0\<rparr>) (se_options s)) = Some [f64_of_int 3, f64_of_int 2]" by simp
  with passed now(1) show ?thesis by blast
qed

theorem session_all_or_nothing_witness:
  "apply_edits pair_io [LoadPower ''b'' [] []] pair_session =
     (Inl (session_invalid ''b'' ''unknown component identity''), pair_session)"
proof -
  have "session_reachable pair_io pair_session" by (rule session_reachable.start [OF pair_new])
  from session_all_or_nothing [OF this, of "[LoadPower ''b'' [] []]", THEN conjunct1] pair_refused show ?thesis
    by (cases "apply_edits pair_io [LoadPower ''b'' [] []] pair_session") (simp split: sum.splits)
qed


theorem first_solve_is_one_shot_witness:
  "solve_instance pair_io 1 (\<lambda>_. False) pair_instance pair_options = Inr pair_result"
  using first_solve_is_one_shot [OF pair_laws pair_named pair_new] pair_solved
  by (auto simp: pair_accepted_def split: sum.splits)

end
