(* ===== verification/Schematic.thy ===== *)
theory Schematic
  imports F64 Graphs
begin

text \<open>
  The display forest of a multiconductor graph (\<open>src/crates/tellegen/src/schematic.rs\<close>): a breadth-first spanning forest over
  closed branches, rooted at source buses, whose depth reads as branch steps from a source. \<open>None\<close> stands for \<open>usize::MAX\<close> in
  \<open>parent\<close> and \<open>depth\<close>. The Unicode table behind \<open>to_lowercase\<close> is the argument \<open>lc\<close>; an attachment kind is the text its \<open>Debug\<close> instance
  prints.
\<close>

section \<open>The graph\<close>

record sch_bus =
  sb_id :: string
  sb_has_source :: bool
  sb_terminal_attachments :: "(string, string list) btree"
  sb_grounded :: "string list"

record sch_edge =
  se_from :: string
  se_to :: string
  se_closed :: bool

record dist_graph =
  dg_buses :: "sch_bus list"
  dg_edges :: "sch_edge list"

section \<open>The display forest\<close>

record tree_state =
  ts_parent :: "nat option list"
  ts_parent_edge :: "nat option list"
  ts_depth :: "nat option list"
  ts_children :: "nat list list"

record display_forest = tree_state +
  fo_roots :: "nat list"
  fo_ends :: "(nat \<times> nat) option list"

definition edge_ends :: "(string \<Rightarrow> string) \<Rightarrow> dist_graph \<Rightarrow> (nat \<times> nat) option list" where
  "edge_ends lc g =
     (let index = last_index_map (map (\<lambda>b. lc (sb_id b)) (dg_buses g))
      in map (\<lambda>e. case (index (lc (se_from e)), index (lc (se_to e))) of (Some a, Some b) \<Rightarrow> Some (a, b) | _ \<Rightarrow> None) (dg_edges g))"

definition add_branch :: "(nat \<times> nat) list list \<Rightarrow> nat \<times> sch_edge \<times> (nat \<times> nat) option \<Rightarrow> (nat \<times> nat) list list" where
  "add_branch adjacency = (\<lambda>(k, e, ends).
     case (se_closed e, ends) of
       (True, Some (a, b)) \<Rightarrow>
         if a \<noteq> b then (let adj = adjacency[a := adjacency ! a @ [(b, k)]] in adj[b := adj ! b @ [(a, k)]]) else adjacency
     | _ \<Rightarrow> adjacency)"

definition adjacency :: "(string \<Rightarrow> string) \<Rightarrow> dist_graph \<Rightarrow> (nat \<times> nat) list list" where
  "adjacency lc g =
     foldl add_branch (replicate (length (dg_buses g)) []) (zip [0..<length (dg_edges g)] (zip (dg_edges g) (edge_ends lc g)))"

definition reach_bus :: "nat \<Rightarrow> tree_state \<times> nat list \<Rightarrow> nat \<times> nat \<Rightarrow> tree_state \<times> nat list" where
  "reach_bus u = (\<lambda>(ts, queue) (v, k).
     if v < length (ts_depth ts) \<and> ts_depth ts ! v = None
     then (ts\<lparr>ts_parent := (ts_parent ts)[v := Some u], ts_parent_edge := (ts_parent_edge ts)[v := Some k],
              ts_depth := (ts_depth ts)[v := Some (the (ts_depth ts ! u) + 1)],
              ts_children := (ts_children ts)[u := ts_children ts ! u @ [v]]\<rparr>, queue @ [v])
     else (ts, queue))"

lemma reach_bus_measure:
  "unvisited (ts_depth (fst (reach_bus u s e))) + length (snd (reach_bus u s e)) = unvisited (ts_depth (fst s)) + length (snd s)"
  using unvisited_update [of "fst e" "ts_depth (fst s)"] by (cases s; cases e) (auto simp: reach_bus_def)

lemma reach_buses_measure:
  "(ts', q') = foldl (reach_bus u) (ts, q) es \<Longrightarrow> unvisited (ts_depth ts') + length q' = unvisited (ts_depth ts) + length q"
proof (induction es arbitrary: ts q)
  case (Cons e es)
  then show ?case using reach_bus_measure [of u "(ts, q)" e] by (cases "reach_bus u (ts, q) e") fastforce
qed simp

text \<open>The queue of \<open>grow\<close>, head first.\<close>

function spread :: "(nat \<times> nat) list list \<Rightarrow> tree_state \<Rightarrow> nat list \<Rightarrow> tree_state" where
  "spread adj ts queue =
     (case queue of [] \<Rightarrow> ts
      | u # queue \<Rightarrow> (case foldl (reach_bus u) (ts, queue) (adj ! u) of (ts, queue) \<Rightarrow> spread adj ts queue))"
  by pat_completeness auto
termination
  by (relation "measure (\<lambda>(_, ts, queue). unvisited (ts_depth ts) + length queue)")
     (auto simp: less_Suc_eq_le split: prod.splits dest: reach_buses_measure [OF sym])

declare spread.simps [simp del]

definition grow :: "(nat \<times> nat) list list \<Rightarrow> tree_state \<times> nat list \<Rightarrow> nat \<Rightarrow> tree_state \<times> nat list" where
  "grow adj = (\<lambda>(ts, roots) root.
     (spread adj (ts\<lparr>ts_parent := (ts_parent ts)[root := Some root], ts_depth := (ts_depth ts)[root := Some 0]\<rparr>) [root],
      roots @ [root]))"

definition grow_from :: "(nat \<times> nat) list list \<Rightarrow> (nat \<Rightarrow> bool) \<Rightarrow> tree_state \<times> nat list \<Rightarrow> nat \<Rightarrow> tree_state \<times> nat list" where
  "grow_from adj wanted s i = (if wanted i \<and> ts_depth (fst s) ! i = None then grow adj s i else s)"

definition forest_of :: "(string \<Rightarrow> string) \<Rightarrow> dist_graph \<Rightarrow> display_forest" where
  "forest_of lc g =
     (let n = length (dg_buses g);
          adj = adjacency lc g;
          empty = \<lparr>ts_parent = replicate n None, ts_parent_edge = replicate n None, ts_depth = replicate n None, ts_children = replicate n []\<rparr>;
          sourced = foldl (grow_from adj (\<lambda>i. sb_has_source (dg_buses g ! i))) (empty, []) [0..<n];
          (ts, roots) = foldl (grow_from adj (\<lambda>_. True)) sourced [0..<n]
      in \<lparr>ts_parent = ts_parent ts, ts_parent_edge = ts_parent_edge ts, ts_depth = ts_depth ts, ts_children = ts_children ts,
          fo_roots = roots, fo_ends = edge_ends lc g\<rparr>)"

section \<open>One breadth-first step\<close>

text \<open>The bus \<open>v\<close> enters the tree of \<open>ts\<close> below \<open>u\<close> over branch \<open>k\<close>.\<close>

definition enter :: "nat \<Rightarrow> tree_state \<Rightarrow> nat \<times> nat \<Rightarrow> tree_state" where
  "enter u ts = (\<lambda>(v, k).
     ts\<lparr>ts_parent := (ts_parent ts)[v := Some u], ts_parent_edge := (ts_parent_edge ts)[v := Some k],
        ts_depth := (ts_depth ts)[v := Some (the (ts_depth ts ! u) + 1)], ts_children := (ts_children ts)[u := ts_children ts ! u @ [v]]\<rparr>)"

definition sized :: "nat \<Rightarrow> tree_state \<Rightarrow> bool" where
  "sized n ts \<longleftrightarrow> length (ts_parent ts) = n \<and> length (ts_parent_edge ts) = n \<and> length (ts_depth ts) = n \<and> length (ts_children ts) = n"

abbreviation "depth_at ts v \<equiv> ts_depth ts ! v"
abbreviation "placed ts v \<equiv> depth_at ts v \<noteq> None"

lemma sized_enter [simp]: "sized n (enter u ts e) = sized n ts"
  by (cases e) (simp add: enter_def sized_def)

lemma reach_bus_enter:
  "sized n ts \<Longrightarrow> fst e < n \<Longrightarrow> reach_bus u (ts, queue) e = (if placed ts (fst e) then (ts, queue) else (enter u ts e, queue @ [fst e]))"
  by (cases e) (simp add: reach_bus_def enter_def sized_def)

text \<open>The state after the buses of \<open>new\<close> have entered below \<open>u\<close>.\<close>

definition entered :: "nat \<Rightarrow> nat \<Rightarrow> tree_state \<Rightarrow> (nat \<times> nat) list \<Rightarrow> tree_state \<Rightarrow> bool" where
  "entered n u ts new ts' \<longleftrightarrow> sized n ts' \<and> distinct (map fst new) \<and> fst ` set new \<subseteq> {..<n} \<and> (\<forall>v \<in> fst ` set new. \<not> placed ts v) \<and>
     ts_children ts' = (ts_children ts)[u := ts_children ts ! u @ map fst new] \<and>
     (\<forall>v. v \<notin> fst ` set new \<longrightarrow> depth_at ts' v = depth_at ts v \<and> ts_parent ts' ! v = ts_parent ts ! v \<and> ts_parent_edge ts' ! v = ts_parent_edge ts ! v) \<and>
     (\<forall>(v, k) \<in> set new. depth_at ts' v = Some (the (depth_at ts u) + 1) \<and> ts_parent ts' ! v = Some u \<and> ts_parent_edge ts' ! v = Some k)"

lemma entered_Nil: "sized n ts \<Longrightarrow> entered n u ts [] ts"
  by (simp add: entered_def)

lemma entered_snoc:
  assumes e: "entered n u ts new ts'" and u: "u < n" "placed ts u" and v: "fst x < n" "\<not> placed ts' (fst x)"
  shows "entered n u ts (new @ [x]) (enter u ts' x)"
proof -
  obtain v k where x: "x = (v, k)" by (cases x)
  have lens: "length (ts_parent ts') = n" "length (ts_parent_edge ts') = n" "length (ts_depth ts') = n" "length (ts_children ts') = n"
    and sz: "sized n ts'" using e by (auto simp: entered_def sized_def)
  have fresh: "v \<notin> fst ` set new"
  proof
    assume "v \<in> fst ` set new"
    then obtain k' where "(v, k') \<in> set new" by auto
    with e have "placed ts' v" by (fastforce simp: entered_def)
    with v x show False by simp
  qed
  have old: "depth_at ts' v = depth_at ts v" using e fresh unfolding entered_def by blast
  have uu: "u \<notin> fst ` set new" using e u(2) unfolding entered_def by blast
  then have du: "depth_at ts' u = depth_at ts u" using e unfolding entered_def by blast
  have vu: "v \<noteq> u" using du u(2) v(2) x by auto
  have len: "length (ts_children ts) = n" using e lens(4) unfolding entered_def by simp
  have ch: "ts_children ts' = (ts_children ts)[u := ts_children ts ! u @ map fst new]" using e by (simp add: entered_def)
  have ch2: "ts_children (enter u ts' x) = (ts_children ts)[u := ts_children ts ! u @ map fst (new @ [x])]"
    using u(1) len by (simp add: enter_def x ch)
  show ?thesis
    unfolding entered_def ch2
  proof (intro conjI allI impI ballI)
    fix w assume "w \<notin> fst ` set (new @ [x])"
    then have w: "w \<notin> fst ` set new" "w \<noteq> v" using x by auto
    then have "depth_at ts' w = depth_at ts w" "ts_parent ts' ! w = ts_parent ts ! w" "ts_parent_edge ts' ! w = ts_parent_edge ts ! w"
      using e unfolding entered_def by blast+
    with w(2) show "depth_at (enter u ts' x) w = depth_at ts w" "ts_parent (enter u ts' x) ! w = ts_parent ts ! w"
      "ts_parent_edge (enter u ts' x) ! w = ts_parent_edge ts ! w" by (simp_all add: enter_def x)
  next
    fix y assume "y \<in> set (new @ [x])"
    then consider "y \<in> set new" | "y = x" by auto
    then show "case y of (w, k) \<Rightarrow> depth_at (enter u ts' x) w = Some (the (depth_at ts u) + 1) \<and>
        ts_parent (enter u ts' x) ! w = Some u \<and> ts_parent_edge (enter u ts' x) ! w = Some k"
    proof cases
      case 1
      then have "fst y \<noteq> v" using fresh by force
      with 1 e show ?thesis unfolding entered_def by (cases y) (auto simp: enter_def x)
    next
      case 2
      with v(1) lens du show ?thesis by (simp add: enter_def x)
    qed
  qed (use e fresh old v x sz in \<open>auto simp: entered_def\<close>)
qed

lemma reach_buses:
  assumes "sized n ts" "u < n" "placed ts u" "fst ` set es \<subseteq> {..<n}"
  shows "\<exists>ts' new. foldl (reach_bus u) (ts, queue) es = (ts', queue @ map fst new) \<and> entered n u ts new ts' \<and> set new \<subseteq> set es \<and>
     (\<forall>v \<in> fst ` set es. placed ts' v)"
  using assms(4)
proof (induction es rule: rev_induct)
  case Nil
  show ?case using entered_Nil [OF assms(1)] by (intro exI [of _ ts] exI [of _ "[]"]) simp
next
  case (snoc x es)
  then obtain ts' new where run: "foldl (reach_bus u) (ts, queue) es = (ts', queue @ map fst new)" and e: "entered n u ts new ts'"
    and new: "set new \<subseteq> set es" and all: "\<forall>v \<in> fst ` set es. placed ts' v" by auto
  have x: "fst x < n" "sized n ts'" using snoc.prems e by (auto simp: entered_def)
  show ?case
  proof (cases "placed ts' (fst x)")
    case True
    with run e new all x show ?thesis by (intro exI [of _ ts'] exI [of _ new]) (auto simp: reach_bus_enter)
  next
    case False
    let ?ts = "enter u ts' x"
    have ent: "entered n u ts (new @ [x]) ?ts" by (rule entered_snoc [OF e assms(2,3) x(1) False])
    have lens: "length (ts_depth ts') = n" using x(2) by (simp add: sized_def)
    have "placed ?ts v" if "v \<in> fst ` set (es @ [x])" for v
      using that all x(1) lens by (cases x; cases "v = fst x") (auto simp: enter_def)
    with run ent new x False show ?thesis
      by (intro exI [of _ ?ts] exI [of _ "new @ [x]"]) (auto simp: reach_bus_enter)
  qed
qed

section \<open>The forest grown so far\<close>

text \<open>Every placed bus is a root or hangs one level below its parent, over a branch that joins the two; \<open>children\<close> is the inverse of \<open>parent\<close>.\<close>

definition hangs :: "(nat \<times> nat) list list \<Rightarrow> tree_state \<Rightarrow> nat \<Rightarrow> bool" where
  "hangs adj ts v \<longleftrightarrow> (\<exists>p k d. ts_parent ts ! v = Some p \<and> ts_parent_edge ts ! v = Some k \<and> p < length adj \<and> (v, k) \<in> set (adj ! p) \<and>
     depth_at ts p = Some d \<and> depth_at ts v = Some (Suc d))"

definition tree_inv :: "(nat \<times> nat) list list \<Rightarrow> nat set \<Rightarrow> tree_state \<Rightarrow> bool" where
  "tree_inv adj R ts \<longleftrightarrow> sized (length adj) ts \<and> R \<subseteq> {..<length adj} \<and>
     (\<forall>v \<in> R. depth_at ts v = Some 0 \<and> ts_parent ts ! v = Some v \<and> ts_parent_edge ts ! v = None) \<and>
     (\<forall>v < length adj. v \<notin> R \<longrightarrow> (if placed ts v then hangs adj ts v else ts_parent ts ! v = None \<and> ts_parent_edge ts ! v = None)) \<and>
     (\<forall>u < length adj. distinct (ts_children ts ! u) \<and> set (ts_children ts ! u) = {v. v < length adj \<and> v \<notin> R \<and> ts_parent ts ! v = Some u})"

text \<open>All neighbours of \<open>u\<close> are placed at most one level deeper.\<close>

definition explored :: "(nat \<times> nat) list list \<Rightarrow> tree_state \<Rightarrow> nat \<Rightarrow> bool" where
  "explored adj ts u \<longleftrightarrow> (\<forall>v \<in> fst ` set (adj ! u). \<exists>d. depth_at ts v = Some d \<and> d \<le> Suc (the (depth_at ts u)))"

abbreviation plain :: "(nat \<times> nat) list list \<Rightarrow> nat list list" where
  "plain adj \<equiv> map (map fst) adj"

definition spread_inv :: "(nat \<times> nat) list list \<Rightarrow> nat set \<Rightarrow> nat \<Rightarrow> tree_state \<Rightarrow> tree_state \<Rightarrow> nat list \<Rightarrow> bool" where
  "spread_inv adj R r before ts queue \<longleftrightarrow> tree_inv adj R ts \<and> r \<in> R \<and> set queue \<subseteq> reach (plain adj) r \<and> (\<forall>v \<in> set queue. placed ts v) \<and>
     (\<forall>u \<in> reach (plain adj) r. placed ts u \<longrightarrow> u \<notin> set queue \<longrightarrow> explored adj ts u) \<and>
     sorted (map (\<lambda>v. the (depth_at ts v)) queue) \<and>
     (\<forall>v \<in> reach (plain adj) r. placed ts v \<longrightarrow> queue \<noteq> [] \<longrightarrow> the (depth_at ts v) \<le> Suc (the (depth_at ts (hd queue)))) \<and>
     (\<forall>v. v \<notin> reach (plain adj) r \<longrightarrow> depth_at ts v = depth_at before v)"

lemma edges_plain: "(u, v) \<in> edges (plain adj) \<longleftrightarrow> u < length adj \<and> v \<in> fst ` set (adj ! u)"
  by (force simp: edges_def)

lemma entered_tree:
  assumes inv: "tree_inv adj R ts" and e: "entered (length adj) u ts new ts'" and u: "u < length adj" "placed ts u"
    and new: "set new \<subseteq> set (adj ! u)"
  shows "tree_inv adj R ts'"
proof -
  let ?n = "length adj" and ?N = "fst ` set new"
  have sz: "sized ?n ts'" and R: "R \<subseteq> {..<?n}" and lenC: "length (ts_children ts) = ?n" using inv e by (auto simp: tree_inv_def entered_def sized_def)
  have same: "depth_at ts' v = depth_at ts v" "ts_parent ts' ! v = ts_parent ts ! v" "ts_parent_edge ts' ! v = ts_parent_edge ts ! v"
    if "v \<notin> ?N" for v using e that by (auto simp: entered_def)
  have fresh: "\<not> placed ts v" "v < ?n" if "v \<in> ?N" for v using e that by (auto simp: entered_def)
  have uN: "u \<notin> ?N" using u(2) fresh by blast
  have RN: "v \<notin> ?N" if "v \<in> R" for v using inv that fresh(1) [of v] by (auto simp: tree_inv_def)
  have hang: "hangs adj ts' v" if v: "v < ?n" "v \<notin> R" "placed ts' v" for v
  proof (cases "v \<in> ?N")
    case True
    then obtain k where k: "(v, k) \<in> set new" by auto
    with e have f: "depth_at ts' v = Some (the (depth_at ts u) + 1)" "ts_parent ts' ! v = Some u" "ts_parent_edge ts' ! v = Some k"
      by (auto simp: entered_def)
    from u(2) obtain d where d: "depth_at ts u = Some d" by auto
    with f u new k same(1) [OF uN] show ?thesis
      unfolding hangs_def by (intro exI [of _ u] exI [of _ k] exI [of _ d]) auto
  next
    case False
    with v same have "hangs adj ts v" using inv by (auto simp: tree_inv_def)
    then obtain p k d where h: "ts_parent ts ! v = Some p" "ts_parent_edge ts ! v = Some k" "p < ?n" "(v, k) \<in> set (adj ! p)"
      "depth_at ts p = Some d" "depth_at ts v = Some (Suc d)" by (auto simp: hangs_def)
    then have "p \<notin> ?N" using fresh(1) by fastforce
    with h same [OF False] same(1) [of p] show ?thesis unfolding hangs_def by auto
  qed
  have none: "ts_parent ts' ! v = None \<and> ts_parent_edge ts' ! v = None" if v: "v < ?n" "v \<notin> R" "\<not> placed ts' v" for v
  proof -
    have "v \<notin> ?N" using v(3) e by (auto simp: entered_def)
    with same v inv show ?thesis by (auto simp: tree_inv_def)
  qed
  have kids: "distinct (ts_children ts' ! w) \<and> set (ts_children ts' ! w) = {v. v < ?n \<and> v \<notin> R \<and> ts_parent ts' ! v = Some w}" if w: "w < ?n" for w
  proof -
    have old: "distinct (ts_children ts ! w)" "set (ts_children ts ! w) = {v. v < ?n \<and> v \<notin> R \<and> ts_parent ts ! v = Some w}"
      using inv w by (auto simp: tree_inv_def)
    have newp: "ts_parent ts ! v = None" if "v \<in> ?N" for v
      using inv fresh [OF that] RN that by (auto simp: tree_inv_def)
    have par: "ts_parent ts' ! v = (if v \<in> ?N then Some u else ts_parent ts ! v)" for v
      using e same(2) [of v] by (auto simp: entered_def)
    have ch: "ts_children ts' ! w = (if w = u then ts_children ts ! u @ map fst new else ts_children ts ! w)"
      using e lenC u(1) by (simp add: entered_def nth_list_update)
    show ?thesis
    proof (cases "w = u")
      case True
      have "distinct (map fst new)" using e by (simp add: entered_def)
      moreover have "v \<notin> set (ts_children ts ! u)" if "v \<in> ?N" for v using newp [OF that] old(2) True by auto
      then have "set (ts_children ts ! u) \<inter> ?N = {}" by blast
      ultimately have "distinct (ts_children ts' ! w)" using old(1) unfolding ch by (simp add: True)
      moreover have "set (ts_children ts' ! w) = {v. v < ?n \<and> v \<notin> R \<and> ts_parent ts' ! v = Some w}"
      proof -
        have "w' \<in> set (ts_children ts ! u) \<union> ?N \<longleftrightarrow> w' < ?n \<and> w' \<notin> R \<and> ts_parent ts' ! w' = Some u" for w'
        proof (cases "w' \<in> ?N")
          case in_new: True
          then show ?thesis using fresh(2) [OF in_new] RN [of w'] by (auto simp: par)
        next
          case False
          then show ?thesis using old(2) True by (auto simp: par)
        qed
        then show ?thesis unfolding ch using True by auto
      qed
      ultimately show ?thesis ..
    next
      case False
      then have "v < ?n \<and> v \<notin> R \<and> ts_parent ts' ! v = Some w \<longleftrightarrow> v < ?n \<and> v \<notin> R \<and> ts_parent ts ! v = Some w" for v
        using newp [of v] by (simp add: par)
      with old False show ?thesis unfolding ch by simp
    qed
  qed
  show ?thesis
    unfolding tree_inv_def
  proof (intro conjI ballI allI impI)
    fix v assume v: "v \<in> R"
    then show "depth_at ts' v = Some 0" "ts_parent ts' ! v = Some v" "ts_parent_edge ts' ! v = None"
      using inv same [OF RN [OF v]] unfolding tree_inv_def by simp_all
  next
    fix v assume "v < ?n" "v \<notin> R"
    then show "if placed ts' v then hangs adj ts' v else ts_parent ts' ! v = None \<and> ts_parent_edge ts' ! v = None"
      using hang none by presburger
  qed (use sz R kids in blast)+
qed

lemma spread_step:
  assumes inv: "spread_inv adj R r before ts (u # queue)" and proper: "proper (plain adj)"
    and step: "foldl (reach_bus u) (ts, queue) (adj ! u) = (ts', queue')"
  shows "spread_inv adj R r before ts' queue'"
proof -
  let ?n = "length adj" and ?A = "plain adj"
  have r: "r \<in> R" "r < ?n" using inv by (auto simp: spread_inv_def tree_inv_def)
  then have bound: "reach ?A r \<subseteq> {..<?n}" using reach_bound [OF proper, of r] by simp
  have u: "u \<in> reach ?A r" "u < ?n" "placed ts u" using inv bound by (auto simp: spread_inv_def)
  have nb: "fst ` set (adj ! u) \<subseteq> reach ?A r"
  proof
    fix v assume "v \<in> fst ` set (adj ! u)"
    with u(2) show "v \<in> reach ?A r" by (intro reach_step [OF u(1)]) (simp add: edges_plain)
  qed
  have tree: "tree_inv adj R ts" and sz: "sized ?n ts" using inv by (auto simp: spread_inv_def tree_inv_def)
  obtain t new where run: "foldl (reach_bus u) (ts, queue) (adj ! u) = (t, queue @ map fst new)" and ent: "entered ?n u ts new t"
    and new: "set new \<subseteq> set (adj ! u)" and all: "\<forall>v \<in> fst ` set (adj ! u). placed t v"
    using reach_buses [OF sz u(2,3) subset_trans [OF nb bound], of queue] by blast
  from step run have ts': "ts' = t" "queue' = queue @ map fst new" by auto
  let ?d = "\<lambda>v. the (depth_at ts v)" and ?d' = "\<lambda>v. the (depth_at t v)" and ?N = "fst ` set new"
  have same: "depth_at t v = depth_at ts v" if "v \<notin> ?N" for v using ent that by (auto simp: entered_def)
  have dnew: "depth_at t v = Some (Suc (?d u))" if "v \<in> ?N" for v using ent that by (auto simp: entered_def)
  have fresh: "\<not> placed ts v" if "v \<in> ?N" for v using ent that by (auto simp: entered_def)
  have uN: "u \<notin> ?N" using fresh u(3) by blast
  have low: "?d v \<le> Suc (?d u)" if "v \<in> reach ?A r" "placed ts v" for v using inv that by (auto simp: spread_inv_def)
  have low': "?d' v \<le> Suc (?d u)" if "v \<in> reach ?A r" "placed t v" for v
    using that low [of v] same [of v] dnew [of v] by (cases "v \<in> ?N") auto
  have q: "placed ts v" "v \<in> reach ?A r" "?d u \<le> ?d v" if "v \<in> set queue" for v
    using inv that by (auto simp: spread_inv_def)
  have qN: "v \<notin> ?N" if "v \<in> set queue" for v using q(1) [OF that] fresh by blast
  have N: "?N \<subseteq> reach ?A r" using nb new by (auto simp: image_subset_iff)
  have "explored adj t v" if v: "v \<in> reach ?A r" "placed t v" "v \<notin> set queue'" for v
  proof (cases "v = u")
    case True
    have "\<exists>d. depth_at t w = Some d \<and> d \<le> Suc (the (depth_at t u))" if "w \<in> fst ` set (adj ! u)" for w
      using all low' [of w] nb that same [OF uN] by fastforce
    then show ?thesis by (simp add: explored_def True)
  next
    case False
    have "v \<notin> ?N" using v(3) by (auto simp: ts')
    then have "placed ts v" "v \<notin> set (u # queue)" and dv: "depth_at t v = depth_at ts v" using v False same by (auto simp: ts')
    then have "explored adj ts v" using inv v(1) by (auto simp: spread_inv_def)
    then have "\<exists>d. depth_at ts w = Some d \<and> d \<le> Suc (the (depth_at ts v))" if "w \<in> fst ` set (adj ! v)" for w
      using that unfolding explored_def by blast
    moreover have "w \<notin> ?N" if "w \<in> fst ` set (adj ! v)" for w using calculation [OF that] fresh by fastforce
    ultimately show ?thesis by (simp add: explored_def dv same)
  qed
  moreover have "sorted (map ?d' queue')"
  proof -
    have old: "map ?d' queue = map ?d queue" using same qN by simp
    have "sorted (map ?d queue)" using inv by (simp add: spread_inv_def)
    moreover have "map ?d' (map fst new) = replicate (length new) (Suc (?d u))"
      using dnew by (intro replicate_eqI) auto
    ultimately show ?thesis using low q by (auto simp: ts' sorted_append old)
  qed
  moreover have "?d' v \<le> Suc (?d' (hd queue'))" if v: "v \<in> reach ?A r" "placed t v" "queue' \<noteq> []" for v
  proof -
    have "hd queue' \<in> set queue \<union> ?N" using hd_in_set [OF v(3)] by (auto simp: ts')
    then have "?d u \<le> ?d' (hd queue')" using q(3) same qN dnew by fastforce
    with low' [OF v(1,2)] show ?thesis by simp
  qed
  moreover have "tree_inv adj R t" by (rule entered_tree [OF tree ent u(2,3) new])
  moreover have "depth_at t v = depth_at before v" if "v \<notin> reach ?A r" for v
    using inv that N same [of v] by (auto simp: spread_inv_def)
  moreover have "placed t v" if "v \<in> set queue'" for v
    using that q(1) [of v] same [of v] dnew [of v] by (cases "v \<in> ?N") (auto simp: ts')
  moreover have "set queue' \<subseteq> reach ?A r" using q(2) N by (auto simp: ts')
  ultimately show ?thesis unfolding spread_inv_def ts'(1) using r(1) by blast
qed

lemma spread_result:
  assumes "spread_inv adj R r before ts queue" "proper (plain adj)"
  shows "spread_inv adj R r before (spread adj ts queue) []"
  using assms
proof (induction adj ts queue rule: spread.induct)
  case (1 adj ts queue)
  show ?case
  proof (cases queue)
    case Nil
    then show ?thesis using "1.prems" by (simp add: spread.simps)
  next
    case (Cons u rest)
    obtain ts' q' where step: "foldl (reach_bus u) (ts, rest) (adj ! u) = (ts', q')" by fastforce
    have "spread_inv adj R r before ts' q'" using spread_step [OF _ "1.prems"(2) step] "1.prems"(1) Cons by simp
    from "1.IH" [OF Cons step [symmetric] this "1.prems"(2)] Cons step show ?thesis by (simp add: spread.simps [of adj ts "u # rest"])
  qed
qed

section \<open>Closed branches as a relation\<close>

text \<open>Branch \<open>k\<close> is closed and joins the buses \<open>u\<close> and \<open>v\<close>.\<close>

definition joins :: "(string \<Rightarrow> string) \<Rightarrow> dist_graph \<Rightarrow> nat \<Rightarrow> nat \<Rightarrow> nat \<Rightarrow> bool" where
  "joins lc g k u v \<longleftrightarrow> k < length (dg_edges g) \<and> se_closed (dg_edges g ! k) \<and> u \<noteq> v \<and>
     (edge_ends lc g ! k = Some (u, v) \<or> edge_ends lc g ! k = Some (v, u))"

definition joined :: "(string \<Rightarrow> string) \<Rightarrow> dist_graph \<Rightarrow> (nat \<times> nat) set" where
  "joined lc g = {(u, v). \<exists>k. joins lc g k u v}"

lemma length_edge_ends [simp]: "length (edge_ends lc g) = length (dg_edges g)"
  by (simp add: edge_ends_def Let_def)

lemma edge_ends_bound:
  "k < length (dg_edges g) \<Longrightarrow> edge_ends lc g ! k = Some (a, b) \<Longrightarrow> a < length (dg_buses g) \<and> b < length (dg_buses g)"
  by (auto simp: edge_ends_def Let_def split: option.splits dest!: last_index_map_bound)

lemma add_branches:
  assumes "\<forall>(k, e, ends) \<in> set xs. \<forall>a b. ends = Some (a, b) \<longrightarrow> a < length adj \<and> b < length adj"
  shows "length (foldl add_branch adj xs) = length adj \<and> (\<forall>u < length adj. \<forall>v k. (v, k) \<in> set (foldl add_branch adj xs ! u) \<longleftrightarrow>
     (v, k) \<in> set (adj ! u) \<or> (\<exists>e ends. (k, e, ends) \<in> set xs \<and> se_closed e \<and> u \<noteq> v \<and> (ends = Some (u, v) \<or> ends = Some (v, u))))"
  using assms
proof (induction xs arbitrary: adj)
  case (Cons x xs)
  obtain k e ends where x: "x = (k, e, ends)" by (cases x)
  let ?adj = "add_branch adj x"
  have bound: "a < length adj \<and> b < length adj" if "ends = Some (a, b)" for a b using Cons.prems that x by auto
  have len: "length ?adj = length adj" by (auto simp: add_branch_def x Let_def split: bool.split option.split)
  have mem: "(v, j) \<in> set (?adj ! u) \<longleftrightarrow> (v, j) \<in> set (adj ! u) \<or>
      j = k \<and> se_closed e \<and> u \<noteq> v \<and> (ends = Some (u, v) \<or> ends = Some (v, u))" if "u < length adj" for u v j
    using that bound by (auto simp: add_branch_def x Let_def nth_list_update split: bool.split option.split)
  have "length (foldl add_branch ?adj xs) = length ?adj \<and> (\<forall>u < length ?adj. \<forall>v k. (v, k) \<in> set (foldl add_branch ?adj xs ! u) \<longleftrightarrow>
     (v, k) \<in> set (?adj ! u) \<or> (\<exists>e ends. (k, e, ends) \<in> set xs \<and> se_closed e \<and> u \<noteq> v \<and> (ends = Some (u, v) \<or> ends = Some (v, u))))"
    using Cons.prems len by (intro Cons.IH) auto
  then show ?case using len mem x by auto
qed simp

lemma adjacency_facts:
  "length (adjacency lc g) = length (dg_buses g)"
  "u < length (dg_buses g) \<Longrightarrow> (v, k) \<in> set (adjacency lc g ! u) \<longleftrightarrow> joins lc g k u v"
proof -
  let ?n = "length (dg_buses g)" and ?m = "length (dg_edges g)"
  let ?xs = "zip [0..<?m] (zip (dg_edges g) (edge_ends lc g))"
  have mem: "(k, e, ends) \<in> set ?xs \<longleftrightarrow> k < ?m \<and> e = dg_edges g ! k \<and> ends = edge_ends lc g ! k" for k e ends
  proof
    assume "k < ?m \<and> e = dg_edges g ! k \<and> ends = edge_ends lc g ! k"
    then have "k < length ?xs" "?xs ! k = (k, e, ends)" by simp_all
    then show "(k, e, ends) \<in> set ?xs" by (metis nth_mem)
  qed (auto simp: set_zip)
  have "\<forall>(k, e, ends) \<in> set ?xs. \<forall>a b. ends = Some (a, b) \<longrightarrow> a < length (replicate ?n []) \<and> b < length (replicate ?n [])"
    unfolding Ball_def split_paired_All mem prod.case length_replicate by (metis edge_ends_bound)
  from add_branches [OF this] show "length (adjacency lc g) = ?n"
    "u < ?n \<Longrightarrow> (v, k) \<in> set (adjacency lc g ! u) \<longleftrightarrow> joins lc g k u v"
    by (auto simp: adjacency_def joins_def mem)
qed

lemma joins_bound: "joins lc g k u v \<Longrightarrow> u < length (dg_buses g) \<and> v < length (dg_buses g)"
  using edge_ends_bound [of k g lc] by (auto simp: joins_def)

lemma edges_adjacency: "edges (plain (adjacency lc g)) = joined lc g"
proof (intro set_eqI iffI; clarify)
  fix u v
  assume "(u, v) \<in> edges (plain (adjacency lc g))"
  then obtain k where "u < length (dg_buses g)" "(v, k) \<in> set (adjacency lc g ! u)"
    unfolding edges_plain adjacency_facts(1) by fastforce
  then show "(u, v) \<in> joined lc g" by (auto simp: joined_def adjacency_facts(2))
next
  fix u v
  assume "(u, v) \<in> joined lc g"
  then obtain k where k: "joins lc g k u v" by (auto simp: joined_def)
  then have u: "u < length (dg_buses g)" using joins_bound by blast
  with k have "(v, k) \<in> set (adjacency lc g ! u)" by (simp add: adjacency_facts(2))
  then have "v \<in> fst ` set (adjacency lc g ! u)" by force
  with u show "(u, v) \<in> edges (plain (adjacency lc g))" by (simp only: edges_plain adjacency_facts(1) simp_thms)
qed

lemma proper_adjacency: "proper (plain (adjacency lc g))"
  unfolding proper_def edges_adjacency
proof
  show "sym (joined lc g)" by (auto simp: sym_def joined_def joins_def)
  show "joined lc g \<subseteq> {..<length (plain (adjacency lc g))} \<times> {..<length (plain (adjacency lc g))}"
    using joins_bound by (fastforce simp: joined_def adjacency_facts(1))
qed

section \<open>All roots\<close>

definition grown :: "(nat \<times> nat) list list \<Rightarrow> nat list \<Rightarrow> tree_state \<Rightarrow> bool" where
  "grown adj roots ts \<longleftrightarrow> tree_inv adj (set roots) ts \<and> distinct roots \<and>
     (\<forall>v < length adj. placed ts v \<longleftrightarrow> (\<exists>r \<in> set roots. v \<in> reach (plain adj) r)) \<and>
     (\<forall>r \<in> set roots. \<forall>r' \<in> set roots. r' \<in> reach (plain adj) r \<longrightarrow> r' = r) \<and>
     (\<forall>u < length adj. placed ts u \<longrightarrow> explored adj ts u)"

lemma root_enters:
  assumes inv: "tree_inv adj R ts" and r: "r < length adj" "\<not> placed ts r"
  shows "tree_inv adj (insert r R) (ts\<lparr>ts_parent := (ts_parent ts)[r := Some r], ts_depth := (ts_depth ts)[r := Some 0]\<rparr>)"
proof -
  let ?t = "ts\<lparr>ts_parent := (ts_parent ts)[r := Some r], ts_depth := (ts_depth ts)[r := Some 0]\<rparr>"
  have lens: "length (ts_parent ts) = length adj" "length (ts_parent_edge ts) = length adj" "length (ts_depth ts) = length adj"
    "length (ts_children ts) = length adj" using inv by (auto simp: tree_inv_def sized_def)
  have rR: "r \<notin> R" using inv r(2) by (auto simp: tree_inv_def)
  then have none: "ts_parent ts ! r = None" "ts_parent_edge ts ! r = None" using inv r by (auto simp: tree_inv_def)
  have hang: "hangs adj ?t v" if v: "hangs adj ts v" "v \<noteq> r" for v
  proof -
    from v(1) obtain p k d where "ts_parent ts ! v = Some p" "ts_parent_edge ts ! v = Some k" "p < length adj" "(v, k) \<in> set (adj ! p)"
      "depth_at ts p = Some d" "depth_at ts v = Some (Suc d)" by (auto simp: hangs_def)
    with r v(2) show ?thesis by (cases "p = r") (auto simp: hangs_def nth_list_update)
  qed
  have kids: "{v. v < length adj \<and> v \<notin> insert r R \<and> ts_parent ?t ! v = Some u} = {v. v < length adj \<and> v \<notin> R \<and> ts_parent ts ! v = Some u}" for u
    using none r(1) lens by (auto simp: nth_list_update)
  show ?thesis
    unfolding tree_inv_def kids using inv r lens none hang by (auto simp: tree_inv_def sized_def nth_list_update)
qed

lemma grow_grown:
  assumes inv: "grown adj roots ts" and proper: "proper (plain adj)" and r: "r < length adj" "\<not> placed ts r"
  shows "case grow adj (ts, roots) r of (ts', roots') \<Rightarrow> roots' = roots @ [r] \<and> grown adj roots' ts'"
proof -
  let ?A = "plain adj" and ?R = "set (roots @ [r])"
  let ?t = "ts\<lparr>ts_parent := (ts_parent ts)[r := Some r], ts_depth := (ts_depth ts)[r := Some 0]\<rparr>"
  let ?s = "spread adj ?t [r]"
  have lens: "length (ts_depth ts) = length adj" using inv by (auto simp: grown_def tree_inv_def sized_def)
  have bound: "reach ?A r \<subseteq> {..<length adj}" using reach_bound [OF proper, of r] r(1) by simp
  have apart: "\<not> placed ts v" if vr: "v \<in> reach ?A r" for v
  proof
    assume "placed ts v"
    then obtain r0 where "r0 \<in> set roots" "v \<in> reach ?A r0" using inv subsetD [OF bound vr] by (auto simp: grown_def)
    then have "r \<in> reach ?A r0" using reach_eq [OF proper vr] reach_eq [OF proper, of v r0] by auto
    with \<open>r0 \<in> set roots\<close> r inv show False by (auto simp: grown_def)
  qed
  have dt: "(ts_depth ts)[r := Some 0] ! v = (if v = r then Some 0 else depth_at ts v)" for v using r(1) lens by (auto simp: nth_list_update)
  have tree: "tree_inv adj ?R ?t" using root_enters [OF _ r] inv by (simp add: grown_def)
  have "spread_inv adj ?R r ?t ?t [r]"
    using tree apart by (auto simp: spread_inv_def dt)
  from spread_result [OF this proper] have si: "spread_inv adj ?R r ?t ?s []" .
  have rest: "depth_at ?s v = depth_at ts v" if "v \<notin> reach ?A r" for v
    using si that reach_self [of r ?A] by (auto simp: spread_inv_def dt)
  have inside: "placed ?s v" if "v \<in> reach ?A r" for v
  proof -
    have "reach ?A r \<subseteq> {u \<in> reach ?A r. placed ?s u}"
    proof (rule reach_least)
      show "r \<in> {u \<in> reach ?A r. placed ?s u}" using si by (auto simp: spread_inv_def tree_inv_def)
      fix u w assume u: "u \<in> {u \<in> reach ?A r. placed ?s u}" and uw: "(u, w) \<in> edges ?A"
      then have "explored adj ?s u" using si by (simp add: spread_inv_def)
      with uw have "placed ?s w" by (fastforce simp: explored_def edges_plain)
      with u uw show "w \<in> {u \<in> reach ?A r. placed ?s u}" by (auto intro: reach_step)
    qed
    with that show ?thesis by blast
  qed
  have exp: "explored adj ?s u" if u: "u < length adj" "placed ?s u" for u
  proof (cases "u \<in> reach ?A r")
    case True
    then show ?thesis using si u by (simp add: spread_inv_def)
  next
    case False
    then have "explored adj ts u" using inv u rest [OF False] by (simp add: grown_def)
    moreover have "w \<notin> reach ?A r" if "w \<in> fst ` set (adj ! u)" for w
    proof
      assume "w \<in> reach ?A r"
      moreover have "(u, w) \<in> edges ?A" using that u(1) by (simp add: edges_plain)
      then have "(w, u) \<in> edges ?A" using proper by (auto simp: proper_def dest: symD)
      ultimately show False using False reach_step by blast
    qed
    ultimately show ?thesis using rest False by (simp add: explored_def)
  qed
  have disj: "r' = r0" if "r0 \<in> ?R" "r' \<in> ?R" "r' \<in> reach ?A r0" for r0 r'
  proof -
    have old: "x \<notin> reach ?A r" if "x \<in> set roots" for x using inv that apart [of x] by (auto simp: grown_def tree_inv_def)
    have same: "r' \<in> reach ?A r \<longleftrightarrow> r0 \<in> reach ?A r" using reach_eq [OF proper that(3)] reach_sym [OF proper] by auto
    then have "r' \<in> reach ?A r \<Longrightarrow> r' = r \<and> r0 = r" using that(1,2) old by auto
    moreover have "r' \<in> set roots \<and> r0 \<in> set roots" if "r' \<notin> reach ?A r" using that \<open>r' \<in> ?R\<close> \<open>r0 \<in> ?R\<close> same by auto
    then have "r' \<notin> reach ?A r \<Longrightarrow> r' = r0" using that(3) inv by (simp add: grown_def)
    ultimately show ?thesis by blast
  qed
  have "placed ?s v \<longleftrightarrow> (\<exists>r0 \<in> ?R. v \<in> reach ?A r0)" if "v < length adj" for v
    using inside rest inv that by (cases "v \<in> reach ?A r") (auto simp: grown_def)
  moreover have "distinct (roots @ [r])" using inv r(2) by (auto simp: grown_def tree_inv_def)
  moreover have "tree_inv adj ?R ?s" using si by (simp add: spread_inv_def)
  ultimately have "grown adj (roots @ [r]) ?s" unfolding grown_def using exp disj by blast
  then show ?thesis by (simp add: grow_def)
qed

lemma grown_unplaced: "grown adj roots ts \<Longrightarrow> r \<in> set roots \<Longrightarrow> placed ts r"
  by (auto simp: grown_def tree_inv_def)

text \<open>The first bus of a component, in graph order, among those that satisfy \<open>wanted\<close>, becomes a root when no bus of it is placed.\<close>

lemma grow_all:
  assumes inv: "grown adj roots ts" and proper: "proper (plain adj)" and m: "m \<le> length adj"
  shows "case foldl (grow_from adj wanted) (ts, roots) [0..<m] of (ts', roots') \<Rightarrow> grown adj roots' ts' \<and>
     (\<forall>i < m. wanted i \<longrightarrow> placed ts' i) \<and>
     (\<forall>r. r \<in> set roots' \<longleftrightarrow> r \<in> set roots \<or> r < m \<and> wanted r \<and> \<not> placed ts r \<and> (\<forall>u < r. wanted u \<longrightarrow> u \<notin> reach (plain adj) r))"
  using m
proof (induction m)
  case 0
  show ?case using inv by simp
next
  case (Suc m)
  let ?A = "plain adj"
  obtain t rs where run: "foldl (grow_from adj wanted) (ts, roots) [0..<m] = (t, rs)" by fastforce
  with Suc have g: "grown adj rs t" and w: "\<forall>i < m. wanted i \<longrightarrow> placed t i"
    and rs: "\<And>r. r \<in> set rs \<longleftrightarrow> r \<in> set roots \<or> r < m \<and> wanted r \<and> \<not> placed ts r \<and> (\<forall>u < r. wanted u \<longrightarrow> u \<notin> reach ?A r)"
    by simp_all
  have step: "foldl (grow_from adj wanted) (ts, roots) [0..<Suc m] = grow_from adj wanted (t, rs) m" by (simp add: run)
  have placed: "placed t v \<longleftrightarrow> (\<exists>r \<in> set rs. v \<in> reach ?A r)" "placed ts v \<longleftrightarrow> (\<exists>r \<in> set roots. v \<in> reach ?A r)" if "v < length adj" for v
    using g inv that by (simp_all add: grown_def)
  have mono: "placed t v" if "placed ts v" "v < length adj" for v using that placed rs by auto
  show ?case
  proof (cases "wanted m \<and> \<not> placed t m")
    case True
    then obtain t' where gr: "grow adj (t, rs) m = (t', rs @ [m])" "grown adj (rs @ [m]) t'"
      using grow_grown [OF g proper, of m] Suc.prems by (cases "grow adj (t, rs) m") auto
    have placed': "placed t' v \<longleftrightarrow> (\<exists>r \<in> set (rs @ [m]). v \<in> reach ?A r)" if "v < length adj" for v
      using gr(2) that unfolding grown_def by blast
    have "placed t' i" if "i < Suc m" "wanted i" for i
      using that w Suc.prems placed(1) [of i] placed' [of i] by (cases "i = m") auto
    moreover have "\<not> placed ts m \<and> (\<forall>u < m. wanted u \<longrightarrow> u \<notin> reach ?A m)"
    proof (intro conjI allI impI)
      show "\<not> placed ts m" using True mono [OF _ Suc_le_lessD [OF Suc.prems]] by blast
      fix u assume u: "u < m" "wanted u"
      then obtain r where r: "r \<in> set rs" "u \<in> reach ?A r" using w placed(1) [of u] Suc.prems by auto
      show "u \<notin> reach ?A m"
      proof
        assume "u \<in> reach ?A m"
        then have "m \<in> reach ?A r" using reach_eq [OF proper] reach_eq [OF proper r(2)] by auto
        then show False using True r(1) placed(1) [of m] Suc.prems by auto
      qed
    qed
    then have "r \<in> set (rs @ [m]) \<longleftrightarrow>
        r \<in> set roots \<or> r < Suc m \<and> wanted r \<and> \<not> placed ts r \<and> (\<forall>u < r. wanted u \<longrightarrow> u \<notin> reach ?A r)" for r
      using True rs [of r] by (auto simp: less_Suc_eq)
    ultimately show ?thesis using gr True unfolding step by (simp add: grow_from_def)
  next
    case False
    have "\<not> (\<not> placed ts m \<and> (\<forall>u < m. wanted u \<longrightarrow> u \<notin> reach ?A m))" if wm: "wanted m"
    proof -
      from wm False have "placed t m" by simp
      then obtain r where r: "r \<in> set rs" "m \<in> reach ?A r" using placed(1) [of m] Suc.prems by auto
      show ?thesis
      proof (cases "r \<in> set roots")
        case True
        with r placed(2) [of m] Suc.prems show ?thesis by auto
      next
        case False
        with r(1) rs have "r < m" "wanted r" by auto
        moreover have "r \<in> reach ?A m" using r(2) reach_sym [OF proper] by blast
        ultimately show ?thesis by blast
      qed
    qed
    then have "r \<in> set rs \<longleftrightarrow>
        r \<in> set roots \<or> r < Suc m \<and> wanted r \<and> \<not> placed ts r \<and> (\<forall>u < r. wanted u \<longrightarrow> u \<notin> reach ?A r)" for r
      using rs [of r] by (auto simp: less_Suc_eq)
    moreover have "placed t i" if "i < Suc m" "wanted i" for i using that w False by (auto simp: less_Suc_eq)
    moreover have "grow_from adj wanted (t, rs) m = (t, rs)" using False by (auto simp: grow_from_def)
    ultimately show ?thesis using g unfolding step by simp
  qed
qed

section \<open>The forest of a graph\<close>

definition blank :: "nat \<Rightarrow> tree_state" where
  "blank n = \<lparr>ts_parent = replicate n None, ts_parent_edge = replicate n None, ts_depth = replicate n None, ts_children = replicate n []\<rparr>"

definition is_source :: "dist_graph \<Rightarrow> nat \<Rightarrow> bool" where
  "is_source g i = sb_has_source (dg_buses g ! i)"

text \<open>A root of the drawing: the first source bus among the buses it is joined to, or their first bus when none has a source.\<close>

definition display_root :: "(string \<Rightarrow> string) \<Rightarrow> dist_graph \<Rightarrow> nat \<Rightarrow> bool" where
  "display_root lc g r \<longleftrightarrow> r < length (dg_buses g) \<and> (\<forall>u < length (dg_buses g). (r, u) \<in> (joined lc g)\<^sup>* \<longrightarrow>
     (if is_source g r then is_source g u \<longrightarrow> r \<le> u else \<not> is_source g u \<and> r \<le> u))"

lemma forest_of_grown:
  obtains ts where "forest_of lc g = \<lparr>ts_parent = ts_parent ts, ts_parent_edge = ts_parent_edge ts, ts_depth = ts_depth ts,
      ts_children = ts_children ts, fo_roots = fo_roots (forest_of lc g), fo_ends = edge_ends lc g\<rparr>"
    and "grown (adjacency lc g) (fo_roots (forest_of lc g)) ts" and "\<forall>v < length (dg_buses g). placed ts v"
    and "\<forall>r. r \<in> set (fo_roots (forest_of lc g)) \<longleftrightarrow> display_root lc g r"
proof -
  let ?n = "length (dg_buses g)" and ?adj = "adjacency lc g"
  let ?A = "plain ?adj"
  have reach: "v \<in> reach ?A r \<longleftrightarrow> (r, v) \<in> (joined lc g)\<^sup>*" for r v by (simp add: reach_def edges_adjacency)
  have len: "length ?adj = ?n" by (rule adjacency_facts)
  have g0: "grown ?adj [] (blank ?n)" by (auto simp: grown_def tree_inv_def sized_def blank_def len)
  obtain t1 rs1 where one: "foldl (grow_from ?adj (is_source g)) (blank ?n, []) [0..<?n] = (t1, rs1)" by fastforce
  obtain t2 rs2 where two: "foldl (grow_from ?adj (\<lambda>_. True)) (t1, rs1) [0..<?n] = (t2, rs2)" by fastforce
  have p0: "\<not> placed (blank ?n) v" if "v < ?n" for v using that by (simp add: blank_def)
  from grow_all [OF g0 proper_adjacency, of ?n "is_source g"] one p0
  have g1: "grown ?adj rs1 t1" and s1: "\<forall>i < ?n. is_source g i \<longrightarrow> placed t1 i"
    and r1: "r \<in> set rs1 \<longleftrightarrow> r < ?n \<and> is_source g r \<and> (\<forall>u < r. is_source g u \<longrightarrow> u \<notin> reach ?A r)" for r
    by (auto simp: len)
  from grow_all [OF g1 proper_adjacency, of ?n "\<lambda>_. True"] two
  have g2: "grown ?adj rs2 t2" and s2: "\<forall>i < ?n. placed t2 i"
    and r2: "r \<in> set rs2 \<longleftrightarrow> r \<in> set rs1 \<or> r < ?n \<and> \<not> placed t1 r \<and> (\<forall>u < r. u \<notin> reach ?A r)" for r
    by (auto simp: len)
  have p1: "placed t1 v \<longleftrightarrow> (\<exists>r \<in> set rs1. v \<in> reach ?A r)" if "v < ?n" for v using g1 that by (simp add: grown_def len)
  have eq: "forest_of lc g = \<lparr>ts_parent = ts_parent t2, ts_parent_edge = ts_parent_edge t2, ts_depth = ts_depth t2,
      ts_children = ts_children t2, fo_roots = rs2, fo_ends = edge_ends lc g\<rparr>"
    using one two by (simp add: forest_of_def Let_def blank_def is_source_def [abs_def])
  have dark: "\<not> placed t1 r \<longleftrightarrow> (\<forall>u < ?n. u \<in> reach ?A r \<longrightarrow> \<not> is_source g u)" if r: "r < ?n" for r
  proof
    assume n: "\<not> placed t1 r"
    show "\<forall>u < ?n. u \<in> reach ?A r \<longrightarrow> \<not> is_source g u"
    proof (intro allI impI notI)
      fix u assume u: "u < ?n" "u \<in> reach ?A r" "is_source g u"
      then obtain r0 where "r0 \<in> set rs1" "u \<in> reach ?A r0" using s1 p1 [of u] by auto
      then have "r \<in> reach ?A r0" using reach_eq [OF proper_adjacency] u(2) reach_self [of r ?A] by blast
      with n p1 [OF r] \<open>r0 \<in> set rs1\<close> show False by blast
    qed
  next
    assume d: "\<forall>u < ?n. u \<in> reach ?A r \<longrightarrow> \<not> is_source g u"
    show "\<not> placed t1 r"
    proof
      assume "placed t1 r"
      then obtain r0 where "r0 \<in> set rs1" "r \<in> reach ?A r0" using p1 [OF r] by auto
      then show False using r1 [of r0] d reach_sym [OF proper_adjacency] by blast
    qed
  qed
  have "r \<in> set rs2 \<longleftrightarrow> display_root lc g r" for r
  proof (cases "r < ?n")
    case True
    note dark = dark [OF True]
    have spec: "display_root lc g r \<longleftrightarrow> (\<forall>u < ?n. u \<in> reach ?A r \<longrightarrow>
        (if is_source g r then is_source g u \<longrightarrow> r \<le> u else \<not> is_source g u \<and> r \<le> u))"
      using True by (simp add: display_root_def reach)
    show ?thesis
    proof (cases "is_source g r")
      case src: True
      then have "placed t1 r" using s1 True by blast
      moreover have "(\<forall>u < r. is_source g u \<longrightarrow> u \<notin> reach ?A r) \<longleftrightarrow> (\<forall>u < ?n. u \<in> reach ?A r \<longrightarrow> is_source g u \<longrightarrow> r \<le> u)"
        using True by (metis le_less_linear less_trans not_le)
      ultimately show ?thesis using r1 [of r] r2 [of r] True src spec by simp
    next
      case no: False
      have "(\<forall>u < r. u \<notin> reach ?A r) \<longleftrightarrow> (\<forall>u < ?n. u \<in> reach ?A r \<longrightarrow> r \<le> u)"
        using True by (metis le_less_linear less_trans not_le)
      then show ?thesis using r1 [of r] r2 [of r] True no spec dark by auto
    qed
  next
    case False
    then show ?thesis using r1 [of r] r2 [of r] by (simp add: display_root_def)
  qed
  then show ?thesis using that [of t2] eq g2 s2 by simp
qed

text \<open>In a grown forest a depth is a shortest walk from the root.\<close>

lemma depth_walk:
  assumes g: "grown adj roots ts" and v: "v < length adj" "depth_at ts v = Some d"
  shows "\<exists>r \<in> set roots. (r, v) \<in> edges (plain adj) ^^ d"
  using v
proof (induction d arbitrary: v)
  case 0
  then have "v \<in> set roots" using g by (auto simp: grown_def tree_inv_def hangs_def split: if_splits)
  then show ?case by auto
next
  case (Suc d)
  have "v \<notin> set roots" using g Suc.prems by (auto simp: grown_def tree_inv_def)
  then have "hangs adj ts v" using g Suc.prems by (auto simp: grown_def tree_inv_def)
  then obtain p k where p: "p < length adj" "(v, k) \<in> set (adj ! p)" "depth_at ts p = Some d" using Suc.prems(2) by (auto simp: hangs_def)
  from Suc.IH [OF p(1,3)] obtain r where "r \<in> set roots" "(r, p) \<in> edges (plain adj) ^^ d" by blast
  moreover have "(p, v) \<in> edges (plain adj)" using p by (force simp: edges_plain)
  ultimately show ?case by auto
qed

lemma walk_depth:
  assumes g: "grown adj roots ts" and proper: "proper (plain adj)" and all: "\<forall>v < length adj. placed ts v"
    and r: "r \<in> set roots" and walk: "(r, v) \<in> edges (plain adj) ^^ m"
  shows "the (depth_at ts v) \<le> m"
  using walk
proof (induction m arbitrary: v)
  case 0
  then show ?case using g r by (auto simp: grown_def tree_inv_def)
next
  case (Suc m)
  then obtain u where u: "(r, u) \<in> edges (plain adj) ^^ m" "(u, v) \<in> edges (plain adj)" by auto
  then have "u < length adj" "v \<in> fst ` set (adj ! u)" by (auto simp: edges_plain)
  then have "\<exists>d. depth_at ts v = Some d \<and> d \<le> Suc (the (depth_at ts u))" using g all unfolding grown_def explored_def by blast
  with Suc.IH [OF u(1)] show ?case by auto
qed

lemma grown_distance:
  assumes g: "grown adj roots ts" and proper: "proper (plain adj)" and all: "\<forall>v < length adj. placed ts v" and v: "v < length adj"
  shows "\<exists>r \<in> set roots. \<exists>d. depth_at ts v = Some d \<and> (r, v) \<in> edges (plain adj) ^^ d \<and>
     (\<forall>r' \<in> set roots. \<forall>m. (r', v) \<in> edges (plain adj) ^^ m \<longrightarrow> r' = r \<and> d \<le> m)"
proof -
  from all v obtain d where d: "depth_at ts v = Some d" by auto
  from depth_walk [OF g v d] obtain r where r: "r \<in> set roots" "(r, v) \<in> edges (plain adj) ^^ d" by blast
  have "r' = r \<and> d \<le> m" if r': "r' \<in> set roots" "(r', v) \<in> edges (plain adj) ^^ m" for r' m
  proof
    have "v \<in> reach (plain adj) r" "v \<in> reach (plain adj) r'" using r(2) r'(2) by (auto simp: reach_def relpow_imp_rtrancl)
    then have "r' \<in> reach (plain adj) r" using reach_eq [OF proper] reach_self [of r' "plain adj"] by blast
    then show "r' = r" using g r(1) r'(1) by (simp add: grown_def)
    show "d \<le> m" using walk_depth [OF g proper all r'] d by simp
  qed
  with r d show ?thesis by blast
qed

text \<open>C36: The display forest is a breadth-first spanning forest. Its roots are, for each set of joined buses, the first source
  bus or, without a source, the first bus. Every bus belongs to one root, and its depth is the least number of closed branches from that root. A root is its
  own parent; any other bus hangs one level below its parent over the closed branch that is its parent edge. The children
  of a bus are the buses that name it as parent, each once.\<close>

theorem forest_breadth_first:
  "let f = forest_of lc g; n = length (dg_buses g); roots = fo_roots f in
     distinct roots \<and> set roots = {r. display_root lc g r} \<and>
     (\<forall>v < n. \<exists>r \<in> set roots. \<exists>d. ts_depth f ! v = Some d \<and> (r, v) \<in> joined lc g ^^ d \<and>
        (\<forall>r' \<in> set roots. \<forall>m. (r', v) \<in> joined lc g ^^ m \<longrightarrow> r' = r \<and> d \<le> m)) \<and>
     (\<forall>v < n. if v \<in> set roots then ts_parent f ! v = Some v \<and> ts_parent_edge f ! v = None
        else \<exists>p k. ts_parent f ! v = Some p \<and> ts_parent_edge f ! v = Some k \<and> joins lc g k p v \<and>
          ts_depth f ! v = map_option Suc (ts_depth f ! p)) \<and>
     (\<forall>u < n. distinct (ts_children f ! u) \<and> set (ts_children f ! u) = {v. v < n \<and> v \<notin> set roots \<and> ts_parent f ! v = Some u})"
proof -
  let ?n = "length (dg_buses g)" and ?adj = "adjacency lc g" and ?roots = "fo_roots (forest_of lc g)"
  obtain ts where eq: "forest_of lc g = \<lparr>ts_parent = ts_parent ts, ts_parent_edge = ts_parent_edge ts, ts_depth = ts_depth ts,
      ts_children = ts_children ts, fo_roots = ?roots, fo_ends = edge_ends lc g\<rparr>"
    and g: "grown ?adj ?roots ts" and all: "\<forall>v < ?n. placed ts v" and roots: "\<forall>r. r \<in> set ?roots \<longleftrightarrow> display_root lc g r"
    by (rule forest_of_grown)
  have f: "ts_parent (forest_of lc g) = ts_parent ts" "ts_parent_edge (forest_of lc g) = ts_parent_edge ts"
    "ts_depth (forest_of lc g) = ts_depth ts" "ts_children (forest_of lc g) = ts_children ts" by (subst eq, simp)+
  have tree: "tree_inv ?adj (set ?roots) ts" and distinct: "distinct ?roots" using g by (simp_all add: grown_def)
  have rts: "set ?roots = {r. display_root lc g r}" using roots by blast
  have dist: "\<exists>r \<in> set ?roots. \<exists>d. ts_depth ts ! v = Some d \<and> (r, v) \<in> joined lc g ^^ d \<and>
        (\<forall>r' \<in> set ?roots. \<forall>m. (r', v) \<in> joined lc g ^^ m \<longrightarrow> r' = r \<and> d \<le> m)" if "v < ?n" for v
    using grown_distance [OF g proper_adjacency, of v] all that by (simp add: edges_adjacency adjacency_facts(1))
  have par: "if v \<in> set ?roots then ts_parent ts ! v = Some v \<and> ts_parent_edge ts ! v = None
        else \<exists>p k. ts_parent ts ! v = Some p \<and> ts_parent_edge ts ! v = Some k \<and> joins lc g k p v \<and>
          ts_depth ts ! v = map_option Suc (ts_depth ts ! p)" if v: "v < ?n" for v
  proof (cases "v \<in> set ?roots")
    case True
    then show ?thesis using tree by (auto simp: tree_inv_def)
  next
    case False
    then have "hangs ?adj ts v" using tree all v by (auto simp: tree_inv_def adjacency_facts(1))
    then show ?thesis using False by (auto simp: hangs_def adjacency_facts)
  qed
  have kids: "distinct (ts_children ts ! u) \<and> set (ts_children ts ! u) = {v. v < ?n \<and> v \<notin> set ?roots \<and> ts_parent ts ! v = Some u}"
    if "u < ?n" for u using tree that by (simp add: tree_inv_def adjacency_facts(1))
  show ?thesis
    unfolding Let_def f using distinct rts dist par kids by blast
qed

definition feeder :: dist_graph where
  "feeder = (let bus = (\<lambda>i s. \<lparr>sb_id = i, sb_has_source = s, sb_terminal_attachments = [], sb_grounded = []\<rparr>)
     in \<lparr>dg_buses = [bus ''M'' False, bus ''S'' True, bus ''L'' False, bus ''X'' False],
         dg_edges = [\<lparr>se_from = ''S'', se_to = ''M'', se_closed = True\<rparr>, \<lparr>se_from = ''M'', se_to = ''L'', se_closed = True\<rparr>,
           \<lparr>se_from = ''L'', se_to = ''S'', se_closed = True\<rparr>, \<lparr>se_from = ''L'', se_to = ''X'', se_closed = False\<rparr>]\<rparr>)"

lemma feeder_forest:
  "forest_of (\<lambda>s. s) feeder = \<lparr>ts_parent = [Some 1, Some 1, Some 1, Some 3], ts_parent_edge = [Some 0, None, Some 2, None],
     ts_depth = [Some 1, Some 0, Some 1, Some 0], ts_children = [[], [0, 2], [], []],
     fo_roots = [1, 3], fo_ends = [Some (1, 0), Some (0, 2), Some (2, 1), Some (2, 3)]\<rparr>"
  by code_simp

theorem forest_breadth_first_witness:
  "joins (\<lambda>s. s) feeder 2 1 2 \<and> (1, 2) \<in> joined (\<lambda>s. s) feeder ^^ 1 \<and> (1, 2) \<notin> joined (\<lambda>s. s) feeder ^^ 0 \<and>
   (\<nexists>m. (3, 2) \<in> joined (\<lambda>s. s) feeder ^^ m) \<and> display_root (\<lambda>s. s) feeder 1 \<and> \<not> display_root (\<lambda>s. s) feeder 0"
proof -
  let ?g = "feeder" and ?lc = "\<lambda>s :: string. s"
  have n: "length (dg_buses feeder) = 4" by (simp add: feeder_def Let_def)
  note all = forest_breadth_first [where lc = ?lc and g = feeder, unfolded Let_def n feeder_forest, simplified display_forest.simps tree_state.simps]
  from all have roots: "{1, 3} = {r. display_root ?lc feeder r}" by simp
  have j: "joins ?lc feeder 2 1 2"
    using all [THEN conjunct2, THEN conjunct2, THEN conjunct2, THEN conjunct1, THEN spec, of 2] by simp
  then have e: "(1, 2) \<in> joined ?lc feeder ^^ 1" by (auto simp: joined_def)
  have "\<exists>r \<in> {1, 3}. \<forall>r' \<in> {1, 3}. \<forall>m. (r', 2) \<in> joined ?lc feeder ^^ m \<longrightarrow> r' = r \<and> 1 \<le> m"
    using all [THEN conjunct2, THEN conjunct2, THEN conjunct1, THEN spec, of 2] by fastforce
  with e have only: "\<forall>r' \<in> {1, 3}. \<forall>m. (r', 2) \<in> joined ?lc feeder ^^ m \<longrightarrow> r' = 1 \<and> 1 \<le> m" by (metis insertI1)
  then have "(1, 2) \<notin> joined ?lc feeder ^^ 0" "\<nexists>m. (3, 2) \<in> joined ?lc feeder ^^ m"
    by (metis insertI1 not_one_le_zero, metis insert_iff numeral_eq_one_iff semiring_norm(86))
  moreover have "display_root ?lc feeder 1" "\<not> display_root ?lc feeder 0" using roots by auto
  ultimately show ?thesis using j e by blast
qed

end
