(* ===== verification/Drawing.thy ===== *)
theory Drawing
  imports Schematic
begin

text \<open>
  The drawing over the display forest (\<open>src/crates/tellegen/src/schematic.rs\<close>): the two placements of the rows, the route of each
  edge and the columns sent to the browser. A panic of \<open>expect\<close> is an \<open>Inl\<close>; the two loops that walk the children return \<open>None\<close>
  where they would not end. Locale \<open>levelled\<close> is what the walks need of the children lists; it is interpreted on every forest.
\<close>

section \<open>Options and layout\<close>

datatype SchematicStrategy = LeafOrder | Tidy

record schematic_options =
  so_strategy :: SchematicStrategy
  so_dx :: f64
  so_dy :: f64
  so_attachment_gap :: f64

definition default_options :: schematic_options where
  "default_options = \<lparr>so_strategy = Tidy, so_dx = f64_of_int 120, so_dy = f64_of_int 28, so_attachment_gap = f64_of_int 22\<rparr>"

definition SCHEMATIC_LAYOUT_VERSION :: "32 word" where "SCHEMATIC_LAYOUT_VERSION = 1"
definition ROLE_TREE :: "8 word" where "ROLE_TREE = 0"
definition ROLE_LOOP :: "8 word" where "ROLE_LOOP = 1"
definition ROLE_OPEN :: "8 word" where "ROLE_OPEN = 2"

record schematic_layout =
  sl_version :: "32 word"
  sl_strategy :: SchematicStrategy
  sl_positions :: "f64 list"
  sl_segments :: "f64 list"
  sl_segment_edge :: "32 word list"
  sl_role :: "8 word list"
  sl_parent :: "32 word list"
  sl_parent_edge :: "64 word list"
  sl_depth :: "32 word list"
  sl_roots :: "32 word list"
  sl_bounds :: "f64 \<times> f64 \<times> f64 \<times> f64"
  sl_attachment_gap :: f64
  sl_attachment_slots :: "8 word list"

section \<open>Rows\<close>

text \<open>A subtree's extent per depth, relative to \<open>offset\<close>.\<close>

record contour =
  ct_rows :: "(f64 \<times> f64) list"
  ct_offset :: f64

definition contour_get :: "contour \<Rightarrow> nat \<Rightarrow> f64 \<times> f64" where
  "contour_get c i = (case ct_rows c ! i of (lo, hi) \<Rightarrow> (lo + ct_offset c, hi + ct_offset c))"

definition merge_row :: "contour \<Rightarrow> contour \<Rightarrow> nat \<Rightarrow> contour" where
  "merge_row other self i =
     (case (contour_get self i, contour_get other i) of ((a_lo, a_hi), (b_lo, b_hi)) \<Rightarrow>
        self\<lparr>ct_rows := (ct_rows self)[i := (f64_min a_lo b_lo - ct_offset self, f64_max a_hi b_hi - ct_offset self)]\<rparr>)"

definition contour_merge :: "contour \<Rightarrow> contour \<Rightarrow> contour" where
  "contour_merge self other =
     (case if length (ct_rows self) < length (ct_rows other) then (other, self) else (self, other) of
        (self, other) \<Rightarrow> foldl (merge_row other) self [0..<length (ct_rows other)])"

record row_state =
  rw_local :: "f64 list"
  rw_shift :: "f64 list"
  rw_contours :: "contour option list"
  rw_next_leaf :: f64

definition take_contour :: "string \<Rightarrow> nat \<Rightarrow> row_state \<Rightarrow> (string, contour \<times> row_state) result" where
  "take_contour expected u st =
     (case rw_contours st ! u of None \<Rightarrow> Inl expected | Some c \<Rightarrow> Inr (c, st\<lparr>rw_contours := (rw_contours st)[u := None]\<rparr>))"

definition leave_leaf_order :: "f64 \<Rightarrow> f64 list \<Rightarrow> nat list \<Rightarrow> nat \<Rightarrow> row_state \<Rightarrow> row_state" where
  "leave_leaf_order dy extent kids u st =
     (let y = (if kids = [] then rw_next_leaf st else (rw_local st ! hd kids + rw_local st ! last kids) / f64_two)
      in st\<lparr>rw_local := (rw_local st)[u := y], rw_next_leaf := f64_max (rw_next_leaf st) (y + extent ! u + dy)\<rparr>)"

definition pack_child :: "f64 \<Rightarrow> row_state \<times> contour option \<Rightarrow> nat \<Rightarrow> (string, row_state \<times> contour option) result" where
  "pack_child dy = (\<lambda>(st, merged) child.
     case take_contour ''child contour'' child st of Inl e \<Rightarrow> Inl e
     | Inr (contour, st) \<Rightarrow>
         (case merged of
            None \<Rightarrow> Inr (st, Some contour)
          | Some acc \<Rightarrow>
              let overlap = min (length (ct_rows acc)) (length (ct_rows contour));
                  s = foldl (\<lambda>s i. f64_max s (snd (contour_get acc i) - fst (contour_get contour i) + dy)) (f64_INFINITY True) [0..<overlap];
                  shift = f64_max s 0
              in Inr (st\<lparr>rw_shift := (rw_shift st)[child := shift]\<rparr>,
                      Some (contour_merge acc (contour\<lparr>ct_offset := ct_offset contour + shift\<rparr>)))))"

definition leave_tidy :: "f64 \<Rightarrow> f64 list \<Rightarrow> nat list \<Rightarrow> nat \<Rightarrow> row_state \<Rightarrow> (string, row_state) result" where
  "leave_tidy dy extent kids u st =
     (case try_fold (pack_child dy) (st, None) kids of Inl e \<Rightarrow> Inl e
      | Inr (st, merged) \<Rightarrow>
          let y = (if kids = [] then rw_local st ! u
                   else (rw_local st ! hd kids + rw_shift st ! hd kids + rw_local st ! last kids + rw_shift st ! last kids) / f64_two);
              contour = (case merged of None \<Rightarrow> \<lparr>ct_rows = [], ct_offset = 0\<rparr> | Some c \<Rightarrow> c);
              contour = contour\<lparr>ct_rows := (y - ct_offset contour, y + extent ! u - ct_offset contour) # ct_rows contour\<rparr>
          in Inr (st\<lparr>rw_local := (rw_local st)[u := y], rw_contours := (rw_contours st)[u := Some contour]\<rparr>))"

definition leave :: "SchematicStrategy \<Rightarrow> f64 \<Rightarrow> f64 list \<Rightarrow> nat list list \<Rightarrow> nat \<Rightarrow> row_state \<Rightarrow> (string, row_state) result" where
  "leave strategy dy extent children u st =
     (case strategy of
        LeafOrder \<Rightarrow> Inr (leave_leaf_order dy extent (children ! u) u st)
      | Tidy \<Rightarrow> leave_tidy dy extent (children ! u) u st)"

text \<open>The post-order loop; the top of the stack is the head of its list.\<close>

partial_function (option) post_order ::
  "(nat \<Rightarrow> 's \<Rightarrow> (string, 's) result) \<Rightarrow> nat list list \<Rightarrow> (nat \<times> nat) list \<Rightarrow> 's \<Rightarrow> (string, 's) result option" where
  "post_order at_leave children stack st =
     (case stack of [] \<Rightarrow> Some (Inr st)
      | (u, next) # rest \<Rightarrow>
          if next < length (children ! u) then post_order at_leave children ((children ! u ! next, 0) # (u, Suc next) # rest) st
          else (case at_leave u st of Inl e \<Rightarrow> Some (Inl e) | Inr st \<Rightarrow> post_order at_leave children rest st))"

declare post_order.simps [code]

definition root_place :: "f64 \<Rightarrow> contour \<Rightarrow> f64 \<Rightarrow> f64 \<times> f64" where
  "root_place dy contour bottom =
     (let rows = map (contour_get contour) [0..<length (ct_rows contour)];
          top = foldl f64_min (f64_INFINITY False) (map fst rows);
          low = foldl f64_max (f64_INFINITY True) (map snd rows);
          place = (if is_finite bottom then bottom + f64_two * dy - top else - top)
      in (place, low + place))"

fun place_components ::
  "SchematicStrategy \<Rightarrow> f64 \<Rightarrow> f64 list \<Rightarrow> nat list list \<Rightarrow> nat list \<Rightarrow> row_state \<times> f64 list \<times> f64 \<Rightarrow> (string, row_state \<times> f64 list) result option" where
  "place_components strategy dy extent children [] (st, component_shift, bottom) = Some (Inr (st, component_shift))"
| "place_components strategy dy extent children (root # roots) (st, component_shift, bottom) =
     (case post_order (leave strategy dy extent children) children [(root, 0)] st of None \<Rightarrow> None
      | Some (Inl e) \<Rightarrow> Some (Inl e)
      | Some (Inr st) \<Rightarrow>
          (case strategy of
             LeafOrder \<Rightarrow> place_components strategy dy extent children roots
               (st\<lparr>rw_next_leaf := rw_next_leaf st + dy\<rparr>, component_shift @ [0], bottom)
           | Tidy \<Rightarrow> (case take_contour ''root contour'' root st of Inl e \<Rightarrow> Some (Inl e)
               | Inr (contour, st) \<Rightarrow>
                   (case root_place dy contour bottom of (place, bottom) \<Rightarrow>
                      place_components strategy dy extent children roots (st, component_shift @ [place], bottom)))))"

partial_function (option) place_frames ::
  "nat list list \<Rightarrow> f64 list \<Rightarrow> f64 list \<Rightarrow> nat list \<Rightarrow> f64 list \<times> f64 list \<Rightarrow> (f64 list \<times> f64 list) option" where
  "place_frames children local shift queue fy =
     (case queue of [] \<Rightarrow> Some fy
      | u # queue \<Rightarrow>
          place_frames children local shift (queue @ children ! u)
            (foldl (\<lambda>frame child. frame[child := frame ! u + shift ! child]) (fst fy) (children ! u),
             (snd fy)[u := fst fy ! u + local ! u]))"

declare place_frames.simps [code]

definition place_root ::
  "nat list list \<Rightarrow> f64 list \<Rightarrow> f64 list \<Rightarrow> (f64 list \<times> f64 list) option \<Rightarrow> nat \<times> f64 \<Rightarrow> (f64 list \<times> f64 list) option" where
  "place_root children local shift acc = (\<lambda>(root, place).
     case acc of None \<Rightarrow> None | Some (frame, y) \<Rightarrow> place_frames children local shift [root] (frame[root := place], y))"

definition row_positions :: "display_forest \<Rightarrow> SchematicStrategy \<Rightarrow> f64 \<Rightarrow> f64 list \<Rightarrow> (string, f64 list) result option" where
  "row_positions f strategy dy extent =
     (let n = length (ts_parent f); zeros = replicate n 0;
          st = \<lparr>rw_local = zeros, rw_shift = zeros, rw_contours = replicate n None, rw_next_leaf = 0\<rparr>
      in case place_components strategy dy extent (ts_children f) (fo_roots f) (st, [], f64_INFINITY True) of None \<Rightarrow> None
         | Some (Inl e) \<Rightarrow> Some (Inl e)
         | Some (Inr (st, component_shift)) \<Rightarrow>
             map_option (\<lambda>(frame, y). Inr y)
               (foldl (place_root (ts_children f) (rw_local st) (rw_shift st)) (Some (zeros, zeros)) (zip (fo_roots f) component_shift)))"

section \<open>The layout\<close>

text \<open>One slot per distinct attachment kind and one for the solid earth, as a \<open>u8\<close>.\<close>

definition attachment_slots :: "sch_bus \<Rightarrow> 8 word" where
  "attachment_slots bus =
     (let kinds = remdups_adj (sort (concat (map snd (sb_terminal_attachments bus))))
      in word_of_nat (length kinds) + (if sb_grounded bus = [] then 0 else 1))"

definition as_u32 :: "nat option \<Rightarrow> 32 word" where
  "as_u32 i = (case i of None \<Rightarrow> - 1 | Some i \<Rightarrow> word_of_nat i)"

definition depth_f64 :: "nat option \<Rightarrow> f64" where
  "depth_f64 d = f64_of_int (case d of None \<Rightarrow> 2 ^ 64 - 1 | Some d \<Rightarrow> int d)"

definition is_tree_edge :: "display_forest \<Rightarrow> nat \<Rightarrow> nat \<Rightarrow> nat \<Rightarrow> bool" where
  "is_tree_edge f k a b \<longleftrightarrow> ts_parent_edge f ! a = Some k \<or> ts_parent_edge f ! b = Some k"

definition edge_role :: "display_forest \<Rightarrow> nat \<Rightarrow> sch_edge \<Rightarrow> 8 word" where
  "edge_role f k e =
     (case fo_ends f ! k of None \<Rightarrow> ROLE_OPEN
      | Some (a, b) \<Rightarrow> if \<not> se_closed e then ROLE_OPEN else if is_tree_edge f k a b then ROLE_TREE else ROLE_LOOP)"

definition edge_points :: "display_forest \<Rightarrow> schematic_options \<Rightarrow> f64 list \<Rightarrow> nat \<Rightarrow> sch_edge \<Rightarrow> (f64 \<times> f64) list" where
  "edge_points f options positions k e =
     (let at = (\<lambda>i. (positions ! (i * 2), positions ! (i * 2 + 1)))
      in case fo_ends f ! k of None \<Rightarrow> []
         | Some (a, b) \<Rightarrow>
             if is_tree_edge f k a b \<and> se_closed e
             then (case if ts_parent f ! b = Some a then (a, b) else (b, a) of (p, c) \<Rightarrow>
                     case (at p, at c) of ((xp, yp), (xc, yc)) \<Rightarrow>
                       let xm = xp + so_dx options / f64_two
                       in if f64_eq yp yc then [(xp, yp), (xc, yc)] else [(xp, yp), (xm, yp), (xm, yc), (xc, yc)])
             else [at a, at b])"

definition point_pairs :: "(f64 \<times> f64) list \<Rightarrow> ((f64 \<times> f64) \<times> f64 \<times> f64) list" where
  "point_pairs points = zip points (tl points)"

definition draw_edge ::
  "display_forest \<Rightarrow> schematic_options \<Rightarrow> f64 list \<Rightarrow> f64 list \<times> 32 word list \<Rightarrow> nat \<times> sch_edge \<Rightarrow> f64 list \<times> 32 word list" where
  "draw_edge f options positions = (\<lambda>(segments, segment_edge) (k, e).
     let pairs = point_pairs (edge_points f options positions k e)
     in (segments @ concat (map (\<lambda>((x0, y0), (x1, y1)). [x0, y0, x1, y1]) pairs),
         segment_edge @ replicate (length pairs) (word_of_nat k)))"

definition layout_bounds :: "f64 list \<Rightarrow> f64 list \<Rightarrow> f64 \<times> f64 \<times> f64 \<times> f64" where
  "layout_bounds positions extent =
     (if extent = [] then (0, 0, 1, 1)
      else foldl (\<lambda>(x0, y0, x1, y1) (i, below).
             let x = positions ! (i * 2); y = positions ! (i * 2 + 1)
             in (f64_min x0 x, f64_min y0 y, f64_max x1 x, f64_max y1 (y + below)))
           (f64_INFINITY False, f64_INFINITY False, f64_INFINITY True, f64_INFINITY True) (zip [0..<length extent] extent))"

definition extents :: "dist_graph \<Rightarrow> schematic_options \<Rightarrow> f64 list" where
  "extents g options = map (\<lambda>bus. f64_of_int (uint (attachment_slots bus)) * so_attachment_gap options) (dg_buses g)"

definition schematic_layout :: "(string \<Rightarrow> string) \<Rightarrow> dist_graph \<Rightarrow> schematic_options \<Rightarrow> (string, schematic_layout) result option" where
  "schematic_layout lc g options =
     (let f = forest_of lc g; extent = extents g options
      in case row_positions f (so_strategy options) (so_dy options) extent of None \<Rightarrow> None
         | Some (Inl e) \<Rightarrow> Some (Inl e)
         | Some (Inr y) \<Rightarrow>
             let positions = concat (map (\<lambda>(depth, row). [depth_f64 depth * so_dx options, row]) (zip (ts_depth f) y));
                 edges = zip [0..<length (dg_edges g)] (dg_edges g);
                 (segments, segment_edge) = foldl (draw_edge f options positions) ([], []) edges
             in Some (Inr \<lparr>sl_version = SCHEMATIC_LAYOUT_VERSION, sl_strategy = so_strategy options, sl_positions = positions,
                  sl_segments = segments, sl_segment_edge = segment_edge, sl_role = map (\<lambda>(k, e). edge_role f k e) edges,
                  sl_parent = map as_u32 (ts_parent f), sl_parent_edge = map (\<lambda>e. case e of None \<Rightarrow> - 1 | Some k \<Rightarrow> word_of_nat k) (ts_parent_edge f),
                  sl_depth = map as_u32 (ts_depth f), sl_roots = map (\<lambda>r. word_of_nat r) (fo_roots f),
                  sl_bounds = layout_bounds positions extent, sl_attachment_gap = so_attachment_gap options,
                  sl_attachment_slots = map attachment_slots (dg_buses g)\<rparr>))"

section \<open>Walks over the children\<close>

text \<open>The states after the kids of a list have been visited in turn.\<close>

fun visits_in_turn :: "('k \<Rightarrow> 's \<Rightarrow> 's \<Rightarrow> bool) \<Rightarrow> 'k list \<Rightarrow> 's \<Rightarrow> 's \<Rightarrow> bool" where
  "visits_in_turn P [] s s' \<longleftrightarrow> s' = s"
| "visits_in_turn P (k # ks) s s' \<longleftrightarrow> (\<exists>t. P k s t \<and> visits_in_turn P ks t s')"

fun weight :: "nat \<Rightarrow> nat list list \<Rightarrow> nat \<Rightarrow> nat" where
  "weight 0 children u = 0"
| "weight (Suc h) children u = Suc (\<Sum>c \<leftarrow> children ! u. weight h children c)"

text \<open>Children that lie one level below their only parent.\<close>

locale levelled =
  fixes children :: "nat list list" and level :: "nat \<Rightarrow> nat" and height :: nat
  assumes child_level: "u < length children \<Longrightarrow> c \<in> set (children ! u) \<Longrightarrow> c < length children \<and> level c = Suc (level u)"
    and level_height: "u < length children \<Longrightarrow> level u < height"
    and one_parent: "u < length children \<Longrightarrow> w < length children \<Longrightarrow> c \<in> set (children ! u) \<Longrightarrow> c \<in> set (children ! w) \<Longrightarrow> u = w"
    and children_distinct: "u < length children \<Longrightarrow> distinct (children ! u)"
begin

definition load :: "nat \<Rightarrow> nat" where
  "load u = weight (height - level u) children u"

definition below :: "nat \<Rightarrow> nat set" where
  "below u = {v. (u, v) \<in> {(u, c). u < length children \<and> c \<in> set (children ! u)}\<^sup>*}"

lemma load_step: "u < length children \<Longrightarrow> load u = Suc (\<Sum>c \<leftarrow> children ! u. load c)"
proof -
  assume u: "u < length children"
  then have h: "height - level u = Suc (height - Suc (level u))" using level_height [of u] by simp
  have "map (weight (height - Suc (level u)) children) (children ! u) = map load (children ! u)"
    using child_level [OF u] by (simp add: load_def)
  then show ?thesis unfolding load_def [of u] h by (simp only: weight.simps)
qed

lemma load_child: "u < length children \<Longrightarrow> c \<in> set (children ! u) \<Longrightarrow> load c < load u"
proof -
  assume "u < length children" and c: "c \<in> set (children ! u)"
  have "load c \<le> (\<Sum>c \<leftarrow> children ! u. load c)" using c by (intro member_le_sum_list) auto
  then show ?thesis using load_step [OF \<open>u < length children\<close>] by simp
qed

lemma below_step: "u < length children \<Longrightarrow> below u = insert u (\<Union>c \<in> set (children ! u). below c)"
  by (auto simp: below_def elim: converse_rtranclE intro: converse_rtrancl_into_rtrancl)

lemma below_self: "u \<in> below u"
  by (simp add: below_def)

lemma below_child: "p \<in> below u \<Longrightarrow> p < length children \<Longrightarrow> c \<in> set (children ! p) \<Longrightarrow> c \<in> below u"
  unfolding below_def mem_Collect_eq by (erule rtrancl_into_rtrancl) simp

lemma below_level: "v \<in> below u \<Longrightarrow> u < length children \<Longrightarrow> v < length children \<and> (v = u \<or> level u < level v)"
  unfolding below_def mem_Collect_eq
  by (induction rule: rtrancl_induct) (auto dest: child_level)

lemma below_apart: "v \<in> below a \<Longrightarrow> v \<in> below b \<Longrightarrow> a < length children \<Longrightarrow> b < length children \<Longrightarrow> level a = level b \<Longrightarrow> a = b"
proof -
  let ?C = "{(u, c). u < length children \<and> c \<in> set (children ! u)}"
  assume "v \<in> below a" and b: "v \<in> below b" and lt: "a < length children" "b < length children" and lv: "level a = level b"
  then have "(a, v) \<in> ?C\<^sup>*" by (simp add: below_def)
  then show "a = b" using b
  proof (induction rule: rtrancl_induct)
    case base
    then show ?case using below_level [of a b] lt lv by auto
  next
    case (step y z)
    have y: "y \<in> below a" using step.hyps(1) by (simp add: below_def)
    have "z \<noteq> b" using below_level [OF y lt(1)] step.hyps(2) child_level [of y z] lv by auto
    moreover have "(b, z) \<in> ?C\<^sup>*" using step.prems by (simp add: below_def)
    ultimately obtain x where x: "(b, x) \<in> ?C\<^sup>*" "(x, z) \<in> ?C" by (auto elim: rtranclE)
    then have "x = y" using step.hyps(2) one_parent by auto
    with x(1) show ?case using step.IH by (simp add: below_def)
  qed
qed

lemma post_order_visit:
  assumes leaving: "\<And>u s t. u < length children \<Longrightarrow> I s \<Longrightarrow> visits_in_turn P (children ! u) s t \<Longrightarrow> I t \<Longrightarrow> \<exists>s'. leave_u u t = Inr s' \<and> P u s s'"
    and kept: "\<And>u s s'. u < length children \<Longrightarrow> I s \<Longrightarrow> P u s s' \<Longrightarrow> I s'"
    and u: "u < length children" "I s"
  shows "\<exists>s'. P u s s' \<and> I s' \<and> (\<forall>rest. post_order leave_u children ((u, 0) # rest) s = post_order leave_u children rest s')"
  using u
proof (induction "load u" arbitrary: u s rule: less_induct)
  case less
  have kids: "\<exists>t. visits_in_turn P ks s t \<and> I t \<and>
      (\<forall>rest. post_order leave_u children ((u, length pre) # rest) s = post_order leave_u children ((u, length (children ! u)) # rest) t)"
    if "children ! u = pre @ ks" "I s" for pre ks s
    using that
  proof (induction ks arbitrary: pre s)
    case Nil
    then show ?case by simp
  next
    case (Cons k ks)
    have k: "k \<in> set (children ! u)" "children ! u ! length pre = k" "length pre < length (children ! u)"
      using Cons.prems(1) by simp_all
    then obtain t where t: "P k s t" "I t"
      "\<And>rest. post_order leave_u children ((k, 0) # rest) s = post_order leave_u children rest t"
      using less.hyps [OF load_child [OF less.prems(1) k(1)] _ Cons.prems(2)] child_level [OF less.prems(1) k(1)] by blast
    have "children ! u = (pre @ [k]) @ ks" using Cons.prems(1) by simp
    from Cons.IH [OF this t(2)] obtain t' where t': "visits_in_turn P ks t t'" "I t'"
      "\<And>rest. post_order leave_u children ((u, Suc (length pre)) # rest) t = post_order leave_u children ((u, length (children ! u)) # rest) t'"
      by auto
    have "post_order leave_u children ((u, length pre) # rest) s = post_order leave_u children ((u, length (children ! u)) # rest) t'" for rest
      using k by (subst post_order.simps) (simp add: t(3) t'(3))
    with t t' show ?case by auto
  qed
  from kids [of "[]" "children ! u" s] less.prems obtain t where t: "visits_in_turn P (children ! u) s t" "I t"
    "\<And>rest. post_order leave_u children ((u, 0) # rest) s = post_order leave_u children ((u, length (children ! u)) # rest) t" by auto
  obtain s' where s': "leave_u u t = Inr s'" "P u s s'" using leaving [OF less.prems t(1,2)] by blast
  have "post_order leave_u children ((u, 0) # rest) s = post_order leave_u children rest s'" for rest
    unfolding t(3) by (subst post_order.simps) (simp add: s'(1))
  with s'(2) kept [OF less.prems s'(2)] show ?case by blast
qed

lemma place_frames_ends:
  assumes "set queue \<subseteq> {..<length children}" "length (fst fy) = length children" "length (snd fy) = length children"
  shows "\<exists>fy'. place_frames children local shift queue fy = Some fy' \<and> length (fst fy') = length children \<and> length (snd fy') = length children"
  using assms
proof (induction "\<Sum>u \<leftarrow> queue. load u" arbitrary: queue fy rule: less_induct)
  case less
  show ?case
  proof (cases queue)
    case Nil
    with less.prems show ?thesis by (subst place_frames.simps) simp
  next
    case (Cons u rest)
    have u: "u < length children" using less.prems Cons by simp
    let ?f = "foldl (\<lambda>frame child. frame[child := frame ! u + shift ! child]) (fst fy) (children ! u)"
    have "length (foldl (\<lambda>frame child. frame[child := frame ! u + shift ! child]) f cs) = length f" for f :: "f64 list" and cs
      by (induction cs arbitrary: f) simp_all
    then have len: "length ?f = length children" using less.prems by simp
    have "(\<Sum>u \<leftarrow> rest @ children ! u. load u) < (\<Sum>u \<leftarrow> queue. load u)" using load_step [OF u] Cons by simp
    moreover have "set (rest @ children ! u) \<subseteq> {..<length children}" using less.prems Cons child_level [OF u] by auto
    ultimately obtain fy' where "place_frames children local shift (rest @ children ! u) (?f, (snd fy)[u := fst fy ! u + local ! u]) = Some fy'"
      "length (fst fy') = length children" "length (snd fy') = length children"
      using less.hyps [of "rest @ children ! u" "(?f, (snd fy)[u := fst fy ! u + local ! u])"] len less.prems by auto
    then show ?thesis unfolding Cons by (subst place_frames.simps) simp
  qed
qed

end

definition row_sized :: "nat \<Rightarrow> row_state \<Rightarrow> bool" where
  "row_sized n st \<longleftrightarrow> length (rw_local st) = n \<and> length (rw_shift st) = n \<and> length (rw_contours st) = n"

lemma pack_children:
  assumes "row_sized n st" "distinct kids" "set kids \<subseteq> {..<n}" "\<forall>k \<in> set kids. rw_contours st ! k \<noteq> None"
  shows "\<exists>st' merged'. try_fold (pack_child dy) (st, merged) kids = Inr (st', merged') \<and> row_sized n st' \<and>
     (\<forall>v. v \<notin> set kids \<longrightarrow> rw_contours st' ! v = rw_contours st ! v)"
  using assms
proof (induction kids arbitrary: st merged)
  case (Cons k kids)
  then obtain c where c: "rw_contours st ! k = Some c" by auto
  then obtain t m where t: "pack_child dy (st, merged) k = Inr (t, m)" "row_sized n t" "rw_contours t = (rw_contours st)[k := None]"
    using Cons.prems(1) by (cases merged) (auto simp: pack_child_def take_contour_def row_sized_def Let_def)
  have "rw_contours t ! v = rw_contours st ! v" if "v \<in> set kids" for v
    using that Cons.prems(2) by (cases "v = k") (simp_all add: t(3))
  then have "\<forall>v \<in> set kids. rw_contours t ! v \<noteq> None" using Cons.prems(4) by simp
  from Cons.IH [OF t(2) _ _ this, of m] Cons.prems obtain st' merged' where
    "try_fold (pack_child dy) (t, m) kids = Inr (st', merged')" "row_sized n st'"
    "\<forall>v. v \<notin> set kids \<longrightarrow> rw_contours st' ! v = rw_contours t ! v" by auto
  with t show ?case by auto
qed simp

context levelled
begin

definition packed :: "nat \<Rightarrow> row_state \<Rightarrow> row_state \<Rightarrow> bool" where
  "packed u s s' \<longleftrightarrow> row_sized (length children) s' \<and> rw_contours s' ! u \<noteq> None \<and>
     (\<forall>v < length children. level v \<le> level u \<longrightarrow> v \<noteq> u \<longrightarrow> rw_contours s' ! v = rw_contours s ! v)"

lemma packed_in_turn:
  assumes "visits_in_turn packed ks s t" "distinct ks" "\<forall>k \<in> set ks. k < length children \<and> level k = l"
  shows "(\<forall>k \<in> set ks. rw_contours t ! k \<noteq> None) \<and>
     (\<forall>v < length children. level v \<le> l \<longrightarrow> v \<notin> set ks \<longrightarrow> rw_contours t ! v = rw_contours s ! v)"
  using assms
proof (induction ks arbitrary: s)
  case (Cons k ks)
  then obtain r where r: "packed k s r" "visits_in_turn packed ks r t" by auto
  from Cons.IH [OF r(2)] Cons.prems have "(\<forall>k \<in> set ks. rw_contours t ! k \<noteq> None) \<and>
     (\<forall>v < length children. level v \<le> l \<longrightarrow> v \<notin> set ks \<longrightarrow> rw_contours t ! v = rw_contours r ! v)" by simp
  with r(1) Cons.prems show ?case by (auto simp: packed_def)
qed simp

lemma leave_packed:
  assumes u: "u < length children" and turn: "visits_in_turn packed (children ! u) s t" and t: "row_sized (length children) t"
  shows "\<exists>s'. leave Tidy dy extent children u t = Inr s' \<and> packed u s s'"
proof -
  have kids: "\<forall>k \<in> set (children ! u). k < length children \<and> level k = Suc (level u)" using child_level [OF u] by blast
  note after = packed_in_turn [OF turn children_distinct [OF u] kids]
  then obtain t' merged where p: "try_fold (pack_child dy) (t, None) (children ! u) = Inr (t', merged)" "row_sized (length children) t'"
    "\<forall>v. v \<notin> set (children ! u) \<longrightarrow> rw_contours t' ! v = rw_contours t ! v"
    using pack_children [OF t children_distinct [OF u], of dy None] kids by (auto simp: subset_iff)
  obtain s' where s': "leave Tidy dy extent children u t = Inr s'" "row_sized (length children) s'"
    "\<exists>c. rw_contours s' = (rw_contours t')[u := Some c]"
    using p(1,2) by (auto simp: leave_def leave_tidy_def Let_def row_sized_def)
  have same: "rw_contours s' ! v = rw_contours s ! v" if v: "v < length children" "level v \<le> level u" "v \<noteq> u" for v
  proof -
    have "v \<notin> set (children ! u)" using kids v(2) by auto
    then show ?thesis using s'(3) p(3) after v by auto
  qed
  have "rw_contours s' ! u \<noteq> None" using s'(3) p(2) u by (auto simp: row_sized_def)
  with s' same show ?thesis by (auto simp: packed_def)
qed

lemma tidy_visit:
  assumes "u < length children" "row_sized (length children) s"
  shows "\<exists>s'. packed u s s' \<and> (\<forall>rest. post_order (leave Tidy dy extent children) children ((u, 0) # rest) s =
     post_order (leave Tidy dy extent children) children rest s')"
proof -
  have "\<exists>s'. packed u s s' \<and> row_sized (length children) s' \<and> (\<forall>rest. post_order (leave Tidy dy extent children) children ((u, 0) # rest) s =
     post_order (leave Tidy dy extent children) children rest s')"
  proof (rule post_order_visit [where I = "row_sized (length children)" and P = packed, OF _ _ assms])
    fix u s t assume "u < length children" "visits_in_turn packed (children ! u) s t" "row_sized (length children) t"
    then show "\<exists>s'. leave Tidy dy extent children u t = Inr s' \<and> packed u s s'" by (rule leave_packed)
  qed (simp add: packed_def)
  then show ?thesis by blast
qed

lemma place_tidy:
  assumes "set roots \<subseteq> {..<length children}" "row_sized (length children) st"
  shows "\<exists>st' cs. place_components Tidy dy extent children roots (st, component_shift, bottom) = Some (Inr (st', component_shift @ cs)) \<and>
     length cs = length roots \<and> row_sized (length children) st'"
  using assms
proof (induction roots arbitrary: st component_shift bottom)
  case (Cons root roots)
  then obtain s where s: "packed root st s"
    "post_order (leave Tidy dy extent children) children [(root, 0)] st = post_order (leave Tidy dy extent children) children [] s"
    using tidy_visit [of root st dy extent] by auto
  then have run: "post_order (leave Tidy dy extent children) children [(root, 0)] st = Some (Inr s)"
    by (simp add: post_order.simps [of _ _ "[]"])
  obtain c where c: "rw_contours s ! root = Some c" using s(1) by (auto simp: packed_def)
  let ?s = "s\<lparr>rw_contours := (rw_contours s)[root := None]\<rparr>"
  obtain place b where pl: "root_place dy c bottom = (place, b)" by fastforce
  have "row_sized (length children) ?s" using s(1) by (simp add: packed_def row_sized_def)
  with Cons.IH [of ?s "component_shift @ [place]" b] Cons.prems obtain st' cs where
    "place_components Tidy dy extent children roots (?s, component_shift @ [place], b) = Some (Inr (st', (component_shift @ [place]) @ cs))"
    "length cs = length roots" "row_sized (length children) st'" by auto
  then show ?case by (intro exI [of _ st'] exI [of _ "place # cs"]) (simp add: run take_contour_def c pl)
qed simp

end

section \<open>Leaf order\<close>

text \<open>Row \<open>w\<close> starts below row \<open>v\<close>, its attachment symbols and the gap \<open>dy\<close>.\<close>

definition row_below :: "f64 \<Rightarrow> f64 list \<Rightarrow> f64 list \<Rightarrow> nat \<Rightarrow> nat \<Rightarrow> bool" where
  "row_below dy extent y v w \<longleftrightarrow> y ! v + extent ! v + dy \<le> y ! w"

context levelled
begin

definition leaves :: "nat \<Rightarrow> nat set" where
  "leaves u = {v \<in> below u. children ! v = []}"

text \<open>What a visit of \<open>u\<close> leaves in place: its leaves have rows between the old and the new \<open>next_leaf\<close>, clear of each other.\<close>

definition ordered :: "f64 \<Rightarrow> f64 list \<Rightarrow> nat set \<Rightarrow> row_state \<Rightarrow> row_state \<Rightarrow> bool" where
  "ordered dy extent V s s' \<longleftrightarrow> f64_pos (rw_next_leaf s') \<and> length (rw_local s') = length children \<and> rw_next_leaf s \<le> rw_next_leaf s' \<and>
     rw_shift s' = rw_shift s \<and> (\<forall>v. v \<notin> V \<longrightarrow> rw_local s' ! v = rw_local s ! v) \<and>
     (\<forall>v \<in> V. children ! v = [] \<longrightarrow> f64_pos (rw_local s' ! v) \<and> rw_next_leaf s \<le> rw_local s' ! v \<and>
        rw_local s' ! v + extent ! v + dy \<le> rw_next_leaf s') \<and>
     (\<forall>v \<in> V. \<forall>w \<in> V. children ! v = [] \<longrightarrow> children ! w = [] \<longrightarrow> v \<noteq> w \<longrightarrow>
        row_below dy extent (rw_local s') v w \<or> row_below dy extent (rw_local s') w v)"

lemma ordered_refl: "f64_pos (rw_next_leaf s) \<Longrightarrow> length (rw_local s) = length children \<Longrightarrow> ordered dy extent {} s s"
  by (simp add: ordered_def f64_pos_le)

lemma ordered_trans:
  assumes a: "ordered dy extent V s t" and b: "ordered dy extent W t r" and dis: "V \<inter> W = {}"
  shows "ordered dy extent (V \<union> W) s r"
proof -
  have V: "rw_local r ! v = rw_local t ! v" if "v \<in> V" for v using b dis that by (auto simp: ordered_def)
  have cross: "row_below dy extent (rw_local r) v w" if "v \<in> V" "w \<in> W" "children ! v = []" "children ! w = []" for v w
  proof -
    have "rw_local t ! v + extent ! v + dy \<le> rw_next_leaf t" using a that unfolding ordered_def by blast
    moreover have "rw_next_leaf t \<le> rw_local r ! w" using b that unfolding ordered_def by blast
    ultimately show ?thesis unfolding row_below_def V [OF that(1)] by (rule f64_le_trans)
  qed
  have inV: "row_below dy extent (rw_local r) v w \<or> row_below dy extent (rw_local r) w v"
    if "v \<in> V" "w \<in> V" "children ! v = []" "children ! w = []" "v \<noteq> w" for v w
    using a that unfolding ordered_def row_below_def V [OF that(1)] V [OF that(2)] by blast
  have inW: "row_below dy extent (rw_local r) v w \<or> row_below dy extent (rw_local r) w v"
    if "v \<in> W" "w \<in> W" "children ! v = []" "children ! w = []" "v \<noteq> w" for v w
    using b that unfolding ordered_def by blast
  have leafV: "f64_pos (rw_local r ! v) \<and> rw_next_leaf s \<le> rw_local r ! v \<and> rw_local r ! v + extent ! v + dy \<le> rw_next_leaf r"
    if "v \<in> V" "children ! v = []" for v
    unfolding V [OF that(1)] using a b that f64_le_trans unfolding ordered_def by blast
  have leafW: "f64_pos (rw_local r ! v) \<and> rw_next_leaf s \<le> rw_local r ! v \<and> rw_local r ! v + extent ! v + dy \<le> rw_next_leaf r"
    if "v \<in> W" "children ! v = []" for v
    using a b that f64_le_trans unfolding ordered_def by blast
  have same: "rw_local r ! v = rw_local s ! v" if "v \<notin> V \<union> W" for v using a b that by (simp add: ordered_def)
  have rest: "f64_pos (rw_next_leaf r)" "length (rw_local r) = length children" "rw_next_leaf s \<le> rw_next_leaf r" "rw_shift r = rw_shift s"
    using a b f64_le_trans by (auto simp: ordered_def)
  show ?thesis
    unfolding ordered_def using rest same leafV leafW inV inW cross by blast
qed

lemma ordered_in_turn:
  assumes "visits_in_turn (\<lambda>u. ordered dy extent (below u)) ks s t" "distinct ks" "\<forall>k \<in> set ks. k < length children \<and> level k = l"
    and "f64_pos (rw_next_leaf s)" "length (rw_local s) = length children"
  shows "ordered dy extent (\<Union>k \<in> set ks. below k) s t"
  using assms
proof (induction ks arbitrary: s)
  case Nil
  then show ?case using ordered_refl by simp
next
  case (Cons k ks)
  then obtain r where r: "ordered dy extent (below k) s r" "visits_in_turn (\<lambda>u. ordered dy extent (below u)) ks r t" by auto
  have "ordered dy extent (\<Union>k \<in> set ks. below k) r t"
    using Cons.IH [OF r(2)] Cons.prems r(1) by (simp add: ordered_def)
  moreover have "below k \<inter> (\<Union>k \<in> set ks. below k) = {}" using Cons.prems(2,3) below_apart by fastforce
  ultimately have "ordered dy extent (below k \<union> (\<Union>k \<in> set ks. below k)) s t" by (rule ordered_trans [OF r(1)])
  then show ?case by simp
qed

end

lemma f64_max_pos: "f64_pos x \<Longrightarrow> f64_pos (f64_max x y) \<and> x \<le> f64_max x y"
  using f64_mag_bounds(1) [of x] f64_mag_bounds(1) [of y]
  by (auto simp: f64_max_def f64_pos_def f64_le_iff f64_less_iff f64_key_def split: if_splits)

context levelled
begin

lemma leave_ordered:
  assumes dy: "f64_pos dy" and ext: "\<forall>v < length children. f64_pos (extent ! v)"
    and u: "u < length children" and s: "f64_pos (rw_next_leaf s)" "length (rw_local s) = length children"
    and turn: "visits_in_turn (\<lambda>u. ordered dy extent (below u)) (children ! u) s t"
  shows "\<exists>s'. leave LeafOrder dy extent children u t = Inr s' \<and> ordered dy extent (below u) s s'"
proof -
  let ?V = "\<Union>k \<in> set (children ! u). below k" and ?s = "leave_leaf_order dy extent (children ! u) u t"
  have kids: "\<forall>k \<in> set (children ! u). k < length children \<and> level k = Suc (level u)" using child_level [OF u] by blast
  have V: "ordered dy extent ?V s t" by (rule ordered_in_turn [OF turn children_distinct [OF u] kids s])
  have uV: "u \<notin> ?V" using kids below_level by fastforce
  have t: "f64_pos (rw_next_leaf t)" "length (rw_local t) = length children" using V by (auto simp: ordered_def)
  have "ordered dy extent {u} t ?s"
  proof (cases "children ! u = []")
    case True
    let ?y = "rw_next_leaf t + extent ! u + dy"
    have "f64_pos ?y" using t ext u dy by (simp add: f64_pos_add)
    note m = f64_pos_max [OF t(1) this]
    with t u show ?thesis by (simp add: ordered_def leave_leaf_order_def True Let_def f64_pos_le)
  next
    case False
    with t u f64_max_pos show ?thesis by (simp add: ordered_def leave_leaf_order_def Let_def)
  qed
  then have "ordered dy extent (?V \<union> {u}) s ?s" using ordered_trans [OF V] uV by blast
  then show ?thesis using below_step [OF u] by (simp add: leave_def)
qed

lemma leaf_order_visit:
  assumes "f64_pos dy" "\<forall>v < length children. f64_pos (extent ! v)" "u < length children" "f64_pos (rw_next_leaf s) \<and> length (rw_local s) = length children"
  shows "\<exists>s'. ordered dy extent (below u) s s' \<and> (\<forall>rest. post_order (leave LeafOrder dy extent children) children ((u, 0) # rest) s =
     post_order (leave LeafOrder dy extent children) children rest s')"
proof -
  let ?I = "\<lambda>s. f64_pos (rw_next_leaf s) \<and> length (rw_local s) = length children"
  have "\<exists>s'. ordered dy extent (below u) s s' \<and> ?I s' \<and> (\<forall>rest. post_order (leave LeafOrder dy extent children) children ((u, 0) # rest) s =
     post_order (leave LeafOrder dy extent children) children rest s')"
  proof (rule post_order_visit [where I = ?I and P = "\<lambda>u. ordered dy extent (below u)", OF _ _ assms(3,4)])
    fix u s t assume u: "u < length children" "?I s" and turn: "visits_in_turn (\<lambda>u. ordered dy extent (below u)) (children ! u) s t"
    then show "\<exists>s'. leave LeafOrder dy extent children u t = Inr s' \<and> ordered dy extent (below u) s s'"
      using leave_ordered [OF assms(1,2) u(1) _ _ turn] by blast
  qed (simp add: ordered_def)
  then show ?thesis by blast
qed

lemma ordered_advance: "f64_pos dy \<Longrightarrow> ordered dy extent V s t \<Longrightarrow> ordered dy extent V s (t\<lparr>rw_next_leaf := rw_next_leaf t + dy\<rparr>)"
proof -
  assume dy: "f64_pos dy" and o: "ordered dy extent V s t"
  then have n: "f64_pos (rw_next_leaf t + dy)" "rw_next_leaf t \<le> rw_next_leaf t + dy" by (simp_all add: ordered_def f64_pos_add)
  show ?thesis using o n f64_le_trans [OF _ n(2)] unfolding ordered_def row_below_def by simp
qed

lemma place_leaf_order:
  assumes dy: "f64_pos dy" and ext: "\<forall>v < length children. f64_pos (extent ! v)"
    and roots: "\<forall>r \<in> set roots. r < length children \<and> level r = 0" "distinct roots"
    and st: "f64_pos (rw_next_leaf st)" "length (rw_local st) = length children"
  shows "\<exists>st'. place_components LeafOrder dy extent children roots (st, component_shift, bottom) =
       Some (Inr (st', component_shift @ replicate (length roots) 0)) \<and> ordered dy extent (\<Union>r \<in> set roots. below r) st st'"
  using roots st
proof (induction roots arbitrary: st component_shift)
  case Nil
  then show ?case using ordered_refl by simp
next
  case (Cons root roots)
  then obtain s where s: "ordered dy extent (below root) st s"
    "post_order (leave LeafOrder dy extent children) children [(root, 0)] st = post_order (leave LeafOrder dy extent children) children [] s"
    using leaf_order_visit [OF dy ext, of root st] by auto
  then have run: "post_order (leave LeafOrder dy extent children) children [(root, 0)] st = Some (Inr s)"
    by (simp add: post_order.simps [of _ _ "[]"])
  let ?s = "s\<lparr>rw_next_leaf := rw_next_leaf s + dy\<rparr>"
  have o: "ordered dy extent (below root) st ?s" by (rule ordered_advance [OF dy s(1)])
  then have "f64_pos (rw_next_leaf ?s)" "length (rw_local ?s) = length children" unfolding ordered_def by blast+
  with Cons.IH [of ?s "component_shift @ [0]"] Cons.prems obtain st' where st':
    "place_components LeafOrder dy extent children roots (?s, component_shift @ [0], bottom) = Some (Inr (st', (component_shift @ [0]) @ replicate (length roots) 0))"
    "ordered dy extent (\<Union>r \<in> set roots. below r) ?s st'" by auto
  have "below root \<inter> (\<Union>r \<in> set roots. below r) = {}" using Cons.prems(1,2) below_apart by fastforce
  from ordered_trans [OF o st'(2) this] have "ordered dy extent (\<Union>r \<in> set (root # roots). below r) st st'" by simp
  with st'(1) show ?case by (intro exI [of _ st']) (simp add: run)
qed

text \<open>With no shifts every bus keeps its own row.\<close>

lemma zero_frame: "foldl (\<lambda>frame child. frame[child := frame ! u + replicate n 0 ! child]) (replicate n 0) cs = replicate n (0 :: f64)"
  if "u < n" "set cs \<subseteq> {..<n}"
  using that(2)
proof (induction cs)
  case (Cons c cs)
  have "(replicate n 0)[c := replicate n 0 ! u + replicate n 0 ! c] = replicate n (0 :: f64)"
    using Cons.prems that(1) by (intro nth_equalityI) (auto simp: nth_list_update f64_zero_add_pos)
  with Cons show ?case by simp
qed simp

lemma place_frames_zero:
  assumes "set queue \<subseteq> {..<length children}" "length y = length children"
  shows "\<exists>y'. place_frames children local (replicate (length children) 0) queue (replicate (length children) 0, y) =
       Some (replicate (length children) 0, y') \<and> length y' = length children \<and>
     (\<forall>v < length children. y' ! v = (if \<exists>u \<in> set queue. v \<in> below u then 0 + local ! v else y ! v))"
  using assms
proof (induction "\<Sum>u \<leftarrow> queue. load u" arbitrary: queue y rule: less_induct)
  case less
  let ?z = "replicate (length children) (0 :: f64)"
  show ?case
  proof (cases queue)
    case Nil
    with less.prems show ?thesis by (subst place_frames.simps) simp
  next
    case (Cons u rest)
    have u: "u < length children" using less.prems Cons by simp
    let ?y = "y[u := 0 + local ! u]"
    have sub: "set (children ! u) \<subseteq> {..<length children}" using child_level [OF u] by auto
    have "(\<Sum>u \<leftarrow> rest @ children ! u. load u) < (\<Sum>u \<leftarrow> queue. load u)" using load_step [OF u] Cons by simp
    moreover have "set (rest @ children ! u) \<subseteq> {..<length children}" using less.prems Cons sub by auto
    ultimately obtain y' where y': "place_frames children local ?z (rest @ children ! u) (?z, ?y) = Some (?z, y')" "length y' = length children"
      "\<forall>v < length children. y' ! v = (if \<exists>w \<in> set (rest @ children ! u). v \<in> below w then 0 + local ! v else ?y ! v)"
      using less.hyps [of "rest @ children ! u" ?y] less.prems by auto
    have "y' ! v = (if \<exists>w \<in> set queue. v \<in> below w then 0 + local ! v else y ! v)" if "v < length children" for v
      using y'(3) that Cons below_step [OF u] less.prems(2) by (auto simp: nth_list_update)
    then show ?thesis using y'(1,2) u unfolding Cons by (subst place_frames.simps) (auto simp: zero_frame [OF u sub])
  qed
qed

end

section \<open>The forest as a levelled tree\<close>

definition forest_height :: "display_forest \<Rightarrow> nat" where
  "forest_height f = Suc (\<Sum>d \<leftarrow> ts_depth f. the d)"

lemma forest_levelled:
  "levelled (ts_children (forest_of lc g)) (\<lambda>v. the (ts_depth (forest_of lc g) ! v)) (forest_height (forest_of lc g))"
  "length (ts_children (forest_of lc g)) = length (dg_buses g)" "length (ts_parent (forest_of lc g)) = length (dg_buses g)"
  "length (ts_depth (forest_of lc g)) = length (dg_buses g)" "length (ts_parent_edge (forest_of lc g)) = length (dg_buses g)"
  "\<forall>r \<in> set (fo_roots (forest_of lc g)). r < length (dg_buses g) \<and> the (ts_depth (forest_of lc g) ! r) = 0"
  "distinct (fo_roots (forest_of lc g))"
  "\<forall>v < length (dg_buses g). v \<in> set (fo_roots (forest_of lc g)) \<or> (\<exists>p < length (dg_buses g). v \<in> set (ts_children (forest_of lc g) ! p) \<and>
     the (ts_depth (forest_of lc g) ! v) = Suc (the (ts_depth (forest_of lc g) ! p)))"
proof -
  let ?n = "length (dg_buses g)" and ?adj = "adjacency lc g" and ?f = "forest_of lc g"
  obtain ts where eq: "?f = \<lparr>ts_parent = ts_parent ts, ts_parent_edge = ts_parent_edge ts, ts_depth = ts_depth ts,
      ts_children = ts_children ts, fo_roots = fo_roots ?f, fo_ends = edge_ends lc g\<rparr>"
    and g: "grown ?adj (fo_roots ?f) ts" and all: "\<forall>v < ?n. placed ts v" by (rule forest_of_grown)
  have f: "ts_parent ?f = ts_parent ts" "ts_parent_edge ?f = ts_parent_edge ts" "ts_depth ?f = ts_depth ts" "ts_children ?f = ts_children ts"
    by (subst eq, simp)+
  have tree: "tree_inv ?adj (set (fo_roots ?f)) ts" and "distinct (fo_roots ?f)" using g by (simp_all add: grown_def)
  then show "distinct (fo_roots ?f)" by simp
  have len: "length ?adj = ?n" by (rule adjacency_facts)
  show lens: "length (ts_children ?f) = ?n" "length (ts_parent ?f) = ?n" "length (ts_depth ?f) = ?n" "length (ts_parent_edge ?f) = ?n"
    using tree unfolding f by (simp_all add: tree_inv_def sized_def len)
  show "\<forall>r \<in> set (fo_roots ?f). r < ?n \<and> the (ts_depth ?f ! r) = 0" using tree unfolding f by (auto simp: tree_inv_def len)
  have kid: "c < ?n \<and> ts_parent ts ! c = Some u \<and> the (depth_at ts c) = Suc (the (depth_at ts u))" if "u < ?n" "c \<in> set (ts_children ts ! u)" for u c
  proof -
    from that tree have c: "c < ?n" "c \<notin> set (fo_roots ?f)" "ts_parent ts ! c = Some u" by (auto simp: tree_inv_def len)
    then have "hangs ?adj ts c" using tree all by (auto simp: tree_inv_def len)
    with c show ?thesis by (auto simp: hangs_def)
  qed
  show "\<forall>v < ?n. v \<in> set (fo_roots ?f) \<or> (\<exists>p < ?n. v \<in> set (ts_children ?f ! p) \<and> the (ts_depth ?f ! v) = Suc (the (ts_depth ?f ! p)))"
  proof (intro allI impI disjCI)
    fix v assume v: "v < ?n" "\<not> (\<exists>p < ?n. v \<in> set (ts_children ?f ! p) \<and> the (ts_depth ?f ! v) = Suc (the (ts_depth ?f ! p)))"
    show "v \<in> set (fo_roots ?f)"
    proof (rule ccontr)
      assume r: "v \<notin> set (fo_roots ?f)"
      then have "hangs ?adj ts v" using v(1) tree all by (auto simp: tree_inv_def len)
      then obtain p where p: "ts_parent ts ! v = Some p" "p < ?n" by (auto simp: hangs_def len)
      then have "v \<in> set (ts_children ts ! p)" using tree v(1) r by (auto simp: tree_inv_def len)
      with kid [OF p(2) this] p(2) v(2) show False unfolding f by auto
    qed
  qed
  show "levelled (ts_children ?f) (\<lambda>v. the (ts_depth ?f ! v)) (forest_height ?f)"
  proof
    fix u assume u: "u < length (ts_children ?f)"
    then show "distinct (ts_children ?f ! u)" using tree lens unfolding f by (simp add: tree_inv_def len)
    have "depth_at ts u \<in> set (ts_depth ts)" using u lens unfolding f by simp
    then have "the (depth_at ts u) \<le> (\<Sum>d \<leftarrow> ts_depth ts. the d)" by (intro member_le_sum_list) auto
    then show "the (ts_depth ?f ! u) < forest_height ?f" unfolding forest_height_def f by simp
    fix c assume c: "c \<in> set (ts_children ?f ! u)"
    show "c < length (ts_children ?f) \<and> the (ts_depth ?f ! c) = Suc (the (ts_depth ?f ! u))"
      using kid [of u c] u c lens unfolding f by simp
    fix w assume "w < length (ts_children ?f)" "c \<in> set (ts_children ?f ! w)"
    then show "u = w" using kid [of u c] kid [of w c] u c lens unfolding f by simp
  qed
qed

interpretation drawn: levelled "ts_children (forest_of lc g)" "\<lambda>v. the (ts_depth (forest_of lc g) ! v)" "forest_height (forest_of lc g)"
  for lc g
  by (rule forest_levelled)

lemma roots_cover:
  assumes "v < length (dg_buses g)"
  shows "\<exists>r \<in> set (fo_roots (forest_of lc g)). v \<in> drawn.below lc g r"
  using assms
proof (induction "the (ts_depth (forest_of lc g) ! v)" arbitrary: v)
  case 0
  then have "v \<in> set (fo_roots (forest_of lc g))" using forest_levelled(8) [of g lc] by auto
  then show ?case using drawn.below_self by blast
next
  case (Suc d)
  consider "v \<in> set (fo_roots (forest_of lc g))" | p where "p < length (dg_buses g)" "v \<in> set (ts_children (forest_of lc g) ! p)"
    "the (ts_depth (forest_of lc g) ! v) = Suc (the (ts_depth (forest_of lc g) ! p))"
    using forest_levelled(8) [of g lc] Suc.prems by blast
  then show ?case
  proof cases
    case 1
    then show ?thesis using drawn.below_self by blast
  next
    case 2
    then obtain r where "r \<in> set (fo_roots (forest_of lc g))" "p \<in> drawn.below lc g r" using Suc.hyps(1) [of p] Suc.hyps(2) by auto
    with 2 show ?thesis using drawn.below_child [of p lc g r v] forest_levelled(2) [of lc g] by auto
  qed
qed

section \<open>The drawing\<close>

lemma place_roots_end:
  assumes "set (map fst xs) \<subseteq> {..<length (dg_buses g)}" "length frame = length (dg_buses g)" "length y = length (dg_buses g)"
  shows "\<exists>frame' y'. foldl (place_root (ts_children (forest_of lc g)) local shift) (Some (frame, y)) xs = Some (frame', y') \<and>
     length frame' = length (dg_buses g) \<and> length y' = length (dg_buses g)"
  using assms
proof (induction xs arbitrary: frame y)
  case (Cons x xs)
  obtain r p where x: "x = (r, p)" by (cases x)
  obtain fy where fy: "place_frames (ts_children (forest_of lc g)) local shift [r] (frame[r := p], y) = Some fy"
    "length (fst fy) = length (dg_buses g)" "length (snd fy) = length (dg_buses g)"
    using drawn.place_frames_ends [of "[r]" lc g "(frame[r := p], y)" local shift] Cons.prems forest_levelled(2) [of lc g] by (auto simp: x)
  then have "place_root (ts_children (forest_of lc g)) local shift (Some (frame, y)) x = Some (fst fy, snd fy)" by (simp add: place_root_def x)
  with Cons.IH [of "fst fy" "snd fy"] Cons.prems fy show ?case by simp
qed simp

lemma replicate_update: "(replicate n x)[i := x] = replicate n x"
  by (cases "i < n") (simp_all add: list_update_same_conv list_update_beyond)

lemma place_roots_zero:
  assumes "set roots \<subseteq> {..<length (dg_buses g)}" "length y = length (dg_buses g)"
  shows "\<exists>y'. foldl (place_root (ts_children (forest_of lc g)) local (replicate (length (dg_buses g)) 0)) (Some (replicate (length (dg_buses g)) 0, y))
       (zip roots (replicate (length roots) 0)) = Some (replicate (length (dg_buses g)) 0, y') \<and> length y' = length (dg_buses g) \<and>
     (\<forall>v < length (dg_buses g). y' ! v = (if \<exists>r \<in> set roots. v \<in> drawn.below lc g r then 0 + local ! v else y ! v))"
  using assms
proof (induction roots arbitrary: y)
  case (Cons r roots)
  let ?n = "length (dg_buses g)" and ?ch = "ts_children (forest_of lc g)"
  let ?z = "replicate ?n (0 :: f64)"
  obtain t where t: "place_frames ?ch local ?z [r] (?z, y) = Some (?z, t)" "length t = ?n"
    "\<forall>v < ?n. t ! v = (if v \<in> drawn.below lc g r then 0 + local ! v else y ! v)"
    using drawn.place_frames_zero [of "[r]" lc g y local] Cons.prems unfolding forest_levelled(2) by auto
  have "place_root ?ch local ?z (Some (?z, y)) (r, 0) = Some (?z, t)"
    using t(1) Cons.prems(1) by (simp add: place_root_def replicate_update)
  moreover obtain y' where "foldl (place_root ?ch local ?z) (Some (?z, t)) (zip roots (replicate (length roots) 0)) = Some (?z, y')" "length y' = ?n"
    "\<forall>v < ?n. y' ! v = (if \<exists>r \<in> set roots. v \<in> drawn.below lc g r then 0 + local ! v else t ! v)"
    using Cons.IH [of t] Cons.prems t(2) by auto
  ultimately show ?case using t(3) by auto
qed simp

lemma row_positions_tidy:
  "\<exists>y. row_positions (forest_of lc g) Tidy dy extent = Some (Inr y) \<and> length y = length (dg_buses g)"
proof -
  let ?f = "forest_of lc g" and ?n = "length (dg_buses g)"
  let ?z = "replicate ?n (0 :: f64)"
  let ?st = "\<lparr>rw_local = ?z, rw_shift = ?z, rw_contours = replicate ?n None, rw_next_leaf = 0\<rparr>"
  have roots: "set (fo_roots ?f) \<subseteq> {..<?n}" using forest_levelled(6) [of lc g] by auto
  have "row_sized ?n ?st" by (simp add: row_sized_def)
  then obtain st cs where p: "place_components Tidy dy extent (ts_children ?f) (fo_roots ?f) (?st, [], f64_INFINITY True) = Some (Inr (st, cs))"
    "length cs = length (fo_roots ?f)"
    using drawn.place_tidy [of "fo_roots ?f" lc g ?st dy extent "[]" "f64_INFINITY True"] roots unfolding forest_levelled(2) by auto
  have "set (map fst (zip (fo_roots ?f) cs)) \<subseteq> {..<?n}" using roots p(2) by simp
  from place_roots_end [OF this, of ?z ?z lc "rw_local st" "rw_shift st"] p(1) show ?thesis
    unfolding row_positions_def forest_levelled(3) by (auto simp: Let_def)
qed

lemma row_positions_leaf_order:
  assumes dy: "f64_pos dy" and ext: "length extent = length (dg_buses g)" "\<forall>v < length (dg_buses g). f64_pos (extent ! v)"
  shows "\<exists>y. row_positions (forest_of lc g) LeafOrder dy extent = Some (Inr y) \<and> length y = length (dg_buses g) \<and>
     (\<forall>v < length (dg_buses g). \<forall>w < length (dg_buses g). ts_children (forest_of lc g) ! v = [] \<longrightarrow> ts_children (forest_of lc g) ! w = [] \<longrightarrow> v \<noteq> w \<longrightarrow>
        row_below dy extent y v w \<or> row_below dy extent y w v)"
proof -
  let ?f = "forest_of lc g" and ?n = "length (dg_buses g)"
  let ?z = "replicate ?n (0 :: f64)"
  let ?st = "\<lparr>rw_local = ?z, rw_shift = ?z, rw_contours = replicate ?n None, rw_next_leaf = 0\<rparr>"
  let ?V = "\<Union>r \<in> set (fo_roots ?f). drawn.below lc g r"
  have roots: "set (fo_roots ?f) \<subseteq> {..<?n}" using forest_levelled(6) [of lc g] by auto
  obtain st where p: "place_components LeafOrder dy extent (ts_children ?f) (fo_roots ?f) (?st, [], f64_INFINITY True) =
      Some (Inr (st, replicate (length (fo_roots ?f)) 0))" and o: "drawn.ordered lc g dy extent ?V ?st st"
    using drawn.place_leaf_order [OF dy, of lc g extent "fo_roots ?f" ?st "[]" "f64_INFINITY True"] ext forest_levelled(6,7) [of lc g]
    unfolding forest_levelled(2) by auto
  have shift: "rw_shift st = ?z" using o by (simp add: drawn.ordered_def)
  obtain y where y: "foldl (place_root (ts_children ?f) (rw_local st) ?z) (Some (?z, ?z)) (zip (fo_roots ?f) (replicate (length (fo_roots ?f)) 0)) = Some (?z, y)"
    "length y = ?n" "\<forall>v < ?n. y ! v = (if \<exists>r \<in> set (fo_roots ?f). v \<in> drawn.below lc g r then 0 + rw_local st ! v else ?z ! v)"
    using place_roots_zero [OF roots, of ?z lc "rw_local st"] by auto
  have V: "v \<in> ?V" if "v < ?n" for v using roots_cover [OF that, of lc] by auto
  have leaf: "y ! v = rw_local st ! v" if v: "v < ?n" "ts_children ?f ! v = []" for v
  proof -
    have "f64_pos (rw_local st ! v)" using o V [OF v(1)] v(2) unfolding drawn.ordered_def by blast
    then show ?thesis using y(3) v(1) roots_cover [OF v(1), of lc] by (simp add: f64_zero_add_pos)
  qed
  have "row_below dy extent y v w \<or> row_below dy extent y w v"
    if "v < ?n" "w < ?n" "ts_children ?f ! v = []" "ts_children ?f ! w = []" "v \<noteq> w" for v w
    using o V [OF that(1)] V [OF that(2)] that(3-5) unfolding drawn.ordered_def row_below_def leaf [OF that(1,3)] leaf [OF that(2,4)] by blast
  moreover have "row_positions ?f LeafOrder dy extent = Some (Inr y)"
    unfolding row_positions_def forest_levelled(3) using p y(1) shift by (simp add: Let_def)
  ultimately show ?thesis using y(2) by blast
qed

lemma place_leaf_order_ends:
  assumes "set roots \<subseteq> {..<length (dg_buses g)}"
  shows "\<exists>st' cs. place_components LeafOrder dy extent (ts_children (forest_of lc g)) roots (st, component_shift, bottom) = Some (Inr (st', component_shift @ cs)) \<and>
     length cs = length roots"
  using assms
proof (induction roots arbitrary: st component_shift)
  case (Cons root roots)
  let ?ch = "ts_children (forest_of lc g)"
  have "\<exists>s. True \<and> True \<and> (\<forall>rest. post_order (leave LeafOrder dy extent ?ch) ?ch ((root, 0) # rest) st = post_order (leave LeafOrder dy extent ?ch) ?ch rest s)"
    using Cons.prems forest_levelled(2) [of lc g]
    by (intro drawn.post_order_visit [where I = "\<lambda>_. True" and P = "\<lambda>_ _ _. True"]) (auto simp: leave_def)
  then obtain s where "post_order (leave LeafOrder dy extent ?ch) ?ch [(root, 0)] st = Some (Inr s)"
    by (auto simp: post_order.simps [of _ _ "[]"])
  with Cons.IH [of "s\<lparr>rw_next_leaf := rw_next_leaf s + dy\<rparr>" "component_shift @ [0]"] Cons.prems show ?case by fastforce
qed simp

lemma row_positions_end:
  "\<exists>y. row_positions (forest_of lc g) strategy dy extent = Some (Inr y) \<and> length y = length (dg_buses g)"
proof (cases strategy)
  case Tidy
  then show ?thesis using row_positions_tidy by simp
next
  case LeafOrder
  let ?f = "forest_of lc g" and ?n = "length (dg_buses g)"
  let ?z = "replicate ?n (0 :: f64)"
  let ?st = "\<lparr>rw_local = ?z, rw_shift = ?z, rw_contours = replicate ?n None, rw_next_leaf = 0\<rparr>"
  have roots: "set (fo_roots ?f) \<subseteq> {..<?n}" using forest_levelled(6) [of lc g] by auto
  obtain st cs where p: "place_components LeafOrder dy extent (ts_children ?f) (fo_roots ?f) (?st, [], f64_INFINITY True) = Some (Inr (st, cs))"
    "length cs = length (fo_roots ?f)"
    using place_leaf_order_ends [OF roots, of dy extent lc ?st "[]" "f64_INFINITY True"] by auto
  have "set (map fst (zip (fo_roots ?f) cs)) \<subseteq> {..<?n}" using roots p(2) by simp
  from place_roots_end [OF this, of ?z ?z lc "rw_local st" "rw_shift st"] p(1) show ?thesis
    unfolding row_positions_def forest_levelled(3) LeafOrder by (auto simp: Let_def)
qed

text \<open>A parent edge joins its bus to the parent of the bus, and no other bus has it.\<close>

lemma parent_edges:
  assumes v: "v < length (dg_buses g)" "ts_parent_edge (forest_of lc g) ! v = Some k"
  shows "\<exists>p. joins lc g k p v \<and> ts_parent (forest_of lc g) ! v = Some p \<and>
     the (ts_depth (forest_of lc g) ! v) = Suc (the (ts_depth (forest_of lc g) ! p))"
proof -
  let ?adj = "adjacency lc g" and ?f = "forest_of lc g"
  obtain ts where eq: "?f = \<lparr>ts_parent = ts_parent ts, ts_parent_edge = ts_parent_edge ts, ts_depth = ts_depth ts,
      ts_children = ts_children ts, fo_roots = fo_roots ?f, fo_ends = edge_ends lc g\<rparr>"
    and g: "grown ?adj (fo_roots ?f) ts" and all: "\<forall>v < length (dg_buses g). placed ts v" by (rule forest_of_grown)
  have f: "ts_parent ?f = ts_parent ts" "ts_parent_edge ?f = ts_parent_edge ts" "ts_depth ?f = ts_depth ts" by (subst eq, simp)+
  have tree: "tree_inv ?adj (set (fo_roots ?f)) ts" using g by (simp add: grown_def)
  then have "v \<notin> set (fo_roots ?f)" using v(2) unfolding f by (auto simp: tree_inv_def)
  then have "hangs ?adj ts v" using tree all v(1) by (auto simp: tree_inv_def adjacency_facts(1))
  then show ?thesis using v(2) unfolding f by (auto simp: hangs_def adjacency_facts)
qed

lemma root_parent_edge:
  "v < length (dg_buses g) \<Longrightarrow> v \<in> set (fo_roots (forest_of lc g)) \<longleftrightarrow> ts_parent_edge (forest_of lc g) ! v = None"
proof -
  assume v: "v < length (dg_buses g)"
  let ?adj = "adjacency lc g" and ?f = "forest_of lc g"
  obtain ts where eq: "?f = \<lparr>ts_parent = ts_parent ts, ts_parent_edge = ts_parent_edge ts, ts_depth = ts_depth ts,
      ts_children = ts_children ts, fo_roots = fo_roots ?f, fo_ends = edge_ends lc g\<rparr>"
    and g: "grown ?adj (fo_roots ?f) ts" and all: "\<forall>v < length (dg_buses g). placed ts v" by (rule forest_of_grown)
  have f: "ts_parent_edge ?f = ts_parent_edge ts" by (subst eq, simp)
  have "tree_inv ?adj (set (fo_roots ?f)) ts" using g by (simp add: grown_def)
  then show ?thesis using v all unfolding f by (auto simp: tree_inv_def adjacency_facts(1) hangs_def)
qed

lemma parent_edge_inj:
  assumes "v < length (dg_buses g)" "w < length (dg_buses g)"
    and "ts_parent_edge (forest_of lc g) ! v = Some k" "ts_parent_edge (forest_of lc g) ! w = Some k"
  shows "v = w"
proof (rule ccontr)
  assume ne: "v \<noteq> w"
  from parent_edges [OF assms(1,3)] parent_edges [OF assms(2,4)] obtain p q where
    "joins lc g k p v" "the (ts_depth (forest_of lc g) ! v) = Suc (the (ts_depth (forest_of lc g) ! p))"
    "joins lc g k q w" "the (ts_depth (forest_of lc g) ! w) = Suc (the (ts_depth (forest_of lc g) ! q))" by blast
  then have "p = w \<and> q = v" using ne unfolding joins_def by auto
  with \<open>the (ts_depth (forest_of lc g) ! v) = _\<close> \<open>the (ts_depth (forest_of lc g) ! w) = _\<close> show False by simp
qed

definition tree_branch :: "(string \<Rightarrow> string) \<Rightarrow> dist_graph \<Rightarrow> nat \<Rightarrow> bool" where
  "tree_branch lc g k \<longleftrightarrow> (\<exists>v < length (dg_buses g). ts_parent_edge (forest_of lc g) ! v = Some k)"

lemma tree_branch_count:
  "card {k. tree_branch lc g k} + length (fo_roots (forest_of lc g)) = length (dg_buses g)"
proof -
  define n where "n = length (dg_buses g)"
  define pe where "pe = (\<lambda>v. ts_parent_edge (forest_of lc g) ! v)"
  define R where "R = set (fo_roots (forest_of lc g))"
  have root: "v \<in> R \<longleftrightarrow> pe v = None" if "v < n" for v using root_parent_edge [of v g lc] that by (simp add: n_def pe_def R_def)
  have inj: "v = w" if "v < n" "w < n" "pe v = Some k" "pe w = Some k" for v w k
    using parent_edge_inj [of v g w lc k] that by (simp add: n_def pe_def)
  have R: "R \<subseteq> {..<n}" using forest_levelled(6) [of lc g] unfolding R_def n_def by blast
  let ?kids = "{..<n} - R"
  have "{k. tree_branch lc g k} = {k. \<exists>v < n. pe v = Some k}" by (simp add: tree_branch_def n_def pe_def)
  also have "\<dots> = (\<lambda>v. the (pe v)) ` ?kids"
  proof (intro set_eqI iffI)
    fix k assume "k \<in> {k. \<exists>v < n. pe v = Some k}"
    then obtain v where v: "v < n" "pe v = Some k" by blast
    with root [OF v(1)] have "v \<in> ?kids" "k = the (pe v)" by simp_all
    then show "k \<in> (\<lambda>v. the (pe v)) ` ?kids" by (rule rev_image_eqI)
  next
    fix k assume "k \<in> (\<lambda>v. the (pe v)) ` ?kids"
    then obtain v where v: "v < n" "v \<notin> R" "k = the (pe v)" by blast
    with root [OF v(1)] show "k \<in> {k. \<exists>v < n. pe v = Some k}" by auto
  qed
  finally have "{k. tree_branch lc g k} = (\<lambda>v. the (pe v)) ` ?kids" .
  moreover have "inj_on (\<lambda>v. the (pe v)) ?kids"
  proof (rule inj_onI)
    fix v w assume vw: "v \<in> ?kids" "w \<in> ?kids" "the (pe v) = the (pe w)"
    with root [of v] root [of w] obtain k where "pe v = Some k" "pe w = Some k" by auto
    with inj vw(1,2) show "v = w" by blast
  qed
  ultimately have "card {k. tree_branch lc g k} = n - card R" using R by (simp add: card_image card_Diff_subset finite_subset)
  moreover have "card R \<le> n" using card_mono [OF _ R] by simp
  moreover have "card R = length (fo_roots (forest_of lc g))" unfolding R_def by (rule distinct_card [OF forest_levelled(7)])
  ultimately show ?thesis by (simp add: n_def)
qed

text \<open>The role of an edge: a branch of the tree, a closed branch off the tree between known buses, or drawn as open.\<close>

definition expected_role :: "(string \<Rightarrow> string) \<Rightarrow> dist_graph \<Rightarrow> nat \<Rightarrow> 8 word" where
  "expected_role lc g k =
     (if tree_branch lc g k then ROLE_TREE
      else if se_closed (dg_edges g ! k) \<and> edge_ends lc g ! k \<noteq> None then ROLE_LOOP else ROLE_OPEN)"

lemma edge_role_expected:
  assumes k: "k < length (dg_edges g)"
  shows "edge_role (forest_of lc g) k (dg_edges g ! k) = expected_role lc g k"
proof -
  let ?f = "forest_of lc g"
  have ends: "fo_ends ?f = edge_ends lc g" by (simp add: forest_of_def Let_def split: prod.split)
  have tree: "tree_branch lc g k \<longleftrightarrow> (\<exists>a b. edge_ends lc g ! k = Some (a, b) \<and> se_closed (dg_edges g ! k) \<and> is_tree_edge ?f k a b)"
  proof
    assume "tree_branch lc g k"
    then obtain v where v: "v < length (dg_buses g)" "ts_parent_edge ?f ! v = Some k" by (auto simp: tree_branch_def)
    then show "\<exists>a b. edge_ends lc g ! k = Some (a, b) \<and> se_closed (dg_edges g ! k) \<and> is_tree_edge ?f k a b"
      using parent_edges [OF v] by (auto simp: joins_def is_tree_edge_def)
  qed (use edge_ends_bound [OF k, of lc] in \<open>auto simp: tree_branch_def is_tree_edge_def\<close>)
  show ?thesis
    by (cases "edge_ends lc g ! k") (auto simp: edge_role_def expected_role_def ends tree)
qed

lemma positions_nth:
  "length (concat (map (\<lambda>(d, row). [f d, row]) xs)) = 2 * length xs"
  "v < length xs \<Longrightarrow> concat (map (\<lambda>(d, row). [f d, row]) xs) ! (2 * v) = f (fst (xs ! v)) \<and>
     concat (map (\<lambda>(d, row). [f d, row]) xs) ! (2 * v + 1) = snd (xs ! v)"
proof (induction xs arbitrary: v)
  case (Cons x xs)
  { case 1 then show ?case using Cons(1) by (simp split: prod.split) }
  { case 2 then show ?case using Cons(2) [of "v - 1"] by (cases v) (auto split: prod.split) }
qed simp_all

lemma draw_edges_lengths:
  "length (fst s) = 4 * length (snd s) \<Longrightarrow> length (fst (foldl (draw_edge f options positions) s es)) = 4 * length (snd (foldl (draw_edge f options positions) s es))"
proof (induction es arbitrary: s)
  case (Cons e es)
  have "length (concat (map (\<lambda>((x0, y0), (x1, y1)). [x0, y0, x1, y1]) ps)) = 4 * length ps" for ps :: "((f64 \<times> f64) \<times> f64 \<times> f64) list"
    by (induction ps) (auto split: prod.split)
  then have "length (fst (draw_edge f options positions s e)) = 4 * length (snd (draw_edge f options positions s e))"
    using Cons.prems by (cases s; cases e) (simp add: draw_edge_def Let_def)
  with Cons.IH show ?case by simp
qed simp

lemma schematic_layout_result:
  obtains l y where "schematic_layout lc g options = Some (Inr l)"
    and "row_positions (forest_of lc g) (so_strategy options) (so_dy options) (extents g options) = Some (Inr y)"
    and "length y = length (dg_buses g)" and "length (sl_positions l) = 2 * length (dg_buses g)"
    and "\<And>v. v < length (dg_buses g) \<Longrightarrow> sl_positions l ! (2 * v) = depth_f64 (ts_depth (forest_of lc g) ! v) * so_dx options \<and>
       sl_positions l ! (2 * v + 1) = y ! v"
    and "sl_role l = map (expected_role lc g) [0..<length (dg_edges g)]" and "length (sl_segments l) = 4 * length (sl_segment_edge l)"
    and "length (sl_roots l) = length (fo_roots (forest_of lc g))"
proof -
  let ?f = "forest_of lc g"
  obtain y where y: "row_positions ?f (so_strategy options) (so_dy options) (extents g options) = Some (Inr y)" "length y = length (dg_buses g)"
    using row_positions_end by blast
  let ?xs = "zip (ts_depth ?f) y"
  let ?pos = "concat (map (\<lambda>(d, row). [depth_f64 d * so_dx options, row]) ?xs)"
  let ?edges = "zip [0..<length (dg_edges g)] (dg_edges g)"
  obtain sg se where d: "foldl (draw_edge ?f options ?pos) ([], []) ?edges = (sg, se)" by fastforce
  have "\<exists>l. schematic_layout lc g options = Some (Inr l) \<and> sl_positions l = ?pos \<and> sl_role l = map (\<lambda>(k, e). edge_role ?f k e) ?edges \<and>
      (sl_segments l, sl_segment_edge l) = (sg, se) \<and> length (sl_roots l) = length (fo_roots ?f)"
    unfolding schematic_layout_def Let_def y(1) by (simp add: d)
  then obtain l where l: "schematic_layout lc g options = Some (Inr l)" "sl_positions l = ?pos"
    "sl_role l = map (\<lambda>(k, e). edge_role ?f k e) ?edges" "(sl_segments l, sl_segment_edge l) = (sg, se)" "length (sl_roots l) = length (fo_roots ?f)" by blast
  have len: "length ?xs = length (dg_buses g)" using y(2) forest_levelled(4) [of lc g] by simp
  have "sl_role l = map (expected_role lc g) [0..<length (dg_edges g)]"
    unfolding l(3) by (intro nth_equalityI) (simp_all add: edge_role_expected)
  moreover have "length (sl_segments l) = 4 * length (sl_segment_edge l)"
    using draw_edges_lengths [of "([], [])" ?f options ?pos ?edges] l(4) by (simp add: d)
  moreover have "sl_positions l ! (2 * v) = depth_f64 (ts_depth ?f ! v) * so_dx options \<and> sl_positions l ! (2 * v + 1) = y ! v" if "v < length (dg_buses g)" for v
    using positions_nth(2) [of v ?xs "\<lambda>d. depth_f64 d * so_dx options"] that len y(2) forest_levelled(4) [of lc g] unfolding l(2) by simp
  ultimately show ?thesis using that l(1,2,5) y len positions_nth(1) [of "\<lambda>d. depth_f64 d * so_dx options" ?xs] by metis
qed

text \<open>C37: A drawing always comes out: neither loop over the children runs on and no \<open>expect\<close> of a contour fails, whatever the graph and
  the options. Every bus has a position whose abscissa is its depth, every edge has a role: a tree branch exactly when it is the parent edge
  of a bus, a loop when it is closed off the tree, open otherwise. The tree branches and the roots together count the buses.\<close>

theorem layout_returns:
  "\<exists>l. schematic_layout lc g options = Some (Inr l) \<and> length (sl_positions l) = 2 * length (dg_buses g) \<and>
     length (sl_segments l) = 4 * length (sl_segment_edge l) \<and>
     (\<forall>v < length (dg_buses g). sl_positions l ! (2 * v) = depth_f64 (ts_depth (forest_of lc g) ! v) * so_dx options) \<and>
     sl_role l = map (expected_role lc g) [0..<length (dg_edges g)] \<and>
     length (filter (\<lambda>r. r = ROLE_TREE) (sl_role l)) + length (sl_roots l) = length (dg_buses g)"
proof (rule schematic_layout_result [of lc g options])
  fix l y
  assume l: "schematic_layout lc g options = Some (Inr l)" "length (sl_positions l) = 2 * length (dg_buses g)"
    "\<And>v. v < length (dg_buses g) \<Longrightarrow> sl_positions l ! (2 * v) = depth_f64 (ts_depth (forest_of lc g) ! v) * so_dx options \<and>
       sl_positions l ! (2 * v + 1) = y ! v"
    "sl_role l = map (expected_role lc g) [0..<length (dg_edges g)]" "length (sl_segments l) = 4 * length (sl_segment_edge l)"
    "length (sl_roots l) = length (fo_roots (forest_of lc g))"
  have "tree_branch lc g k \<Longrightarrow> k < length (dg_edges g)" for k using parent_edges [of _ g lc k] by (auto simp: tree_branch_def joins_def)
  then have "{k. tree_branch lc g k} = {k. k < length (dg_edges g) \<and> expected_role lc g k = ROLE_TREE}"
    by (auto simp: expected_role_def ROLE_TREE_def ROLE_LOOP_def ROLE_OPEN_def)
  moreover have "length (filter (\<lambda>r. r = ROLE_TREE) (sl_role l)) = card {k. k < length (dg_edges g) \<and> expected_role lc g k = ROLE_TREE}"
    unfolding l(4) length_filter_conv_card by (intro arg_cong [where f = card]) auto
  ultimately have "length (filter (\<lambda>r. r = ROLE_TREE) (sl_role l)) + length (sl_roots l) = length (dg_buses g)"
    using tree_branch_count [of lc g] l(6) by simp
  with l show ?thesis by blast
qed


text \<open>The drawing of the feeder, in both placements.\<close>

theorem layout_returns_witness:
  "\<exists>l. schematic_layout (\<lambda>s. s) feeder default_options = Some (Inr l) \<and> length (sl_positions l) = 8 \<and>
     sl_positions l ! 4 = depth_f64 (Some 1) * so_dx default_options \<and> sl_role l = [ROLE_TREE, ROLE_LOOP, ROLE_TREE, ROLE_OPEN]"
proof -
  let ?lc = "\<lambda>s :: string. s"
  have n: "length (dg_buses feeder) = 4" "length (dg_edges feeder) = 4" by (simp_all add: feeder_def Let_def)
  obtain l where l: "schematic_layout ?lc feeder default_options = Some (Inr l)" "length (sl_positions l) = 2 * 4"
    "\<forall>v < 4. sl_positions l ! (2 * v) = depth_f64 (ts_depth (forest_of ?lc feeder) ! v) * so_dx default_options"
    "sl_role l = map (expected_role ?lc feeder) [0..<4]"
    using layout_returns [of ?lc feeder default_options] unfolding n by blast
  have "[0..<4] = [0, 1, 2, 3 :: nat]" by (simp add: upt_rec)
  moreover have "edge_ends ?lc feeder = [Some (1, 0), Some (0, 2), Some (2, 1), Some (2, 3)]" by code_simp
  moreover have "(\<exists>v < 4. P v) \<longleftrightarrow> P 0 \<or> P 1 \<or> P 2 \<or> P (3 :: nat)" for P by (auto simp: numeral_eq_Suc less_Suc_eq)
  ultimately have "sl_role l = [ROLE_TREE, ROLE_LOOP, ROLE_TREE, ROLE_OPEN]"
    unfolding l(4) by (simp add: expected_role_def tree_branch_def n feeder_forest) (simp add: feeder_def Let_def)
  moreover have "sl_positions l ! 4 = depth_f64 (Some 1) * so_dx default_options" using l(3) [THEN spec, of 2] by (simp add: feeder_forest)
  ultimately show ?thesis using l(1,2) by simp
qed


end
