(* ===== verification/DcOpf.thy ===== *)
theory DcOpf
  imports Edits
begin

text \<open>
  The DC OPF entry of \<open>src/crates/tellegen/src/api.rs\<close> around its interior point solve: edits and
  caller-supplied linear constraints applied to the prepared model, limit options, the lazy
  enforcement of thermal limits over repeated solves, and the assembly of the response. The solve
  itself is a parameter, one result per call, and every theorem holds for any such solver.
\<close>

section \<open>The prepared model and the request\<close>

record linear_row =
  lr_id :: string
  lr_flow :: "(nat \<times> f64) list"
  lr_generation :: "(nat \<times> f64) list"
  lower_mw :: "f64 option"
  upper_mw :: "f64 option"

record piecewise_cost =
  slopes :: "f64 list"
  intercepts :: "f64 list"

record dc_network =
  dc_n :: nat
  dc_m :: nat
  dc_k :: nat
  dc_br_from :: "nat list"
  dc_br_to :: "nat list"
  dc_gen_bus :: "nat list"
  fmax :: "f64 list"
  angmin :: "f64 list"
  angmax :: "f64 list"
  gmin :: "f64 list"
  gmax :: "f64 list"
  piecewise_costs :: "piecewise_cost option list"
  demand :: "f64 list"
  allow_shed :: bool
  economic :: bool
  generator_capability_active :: "bool list"
  thermal_limit_active :: "bool list"
  angle_bound_active :: "bool list"
  thermal_rated :: "bool list"
  bus_ids :: "nat list"
  branch_ids :: "nat list"
  branch_identities :: "string list"
  gen_ids :: "nat list"
  bus_source_rows :: "nat option list"
  branch_source_rows :: "nat option list"
  gen_source_rows :: "nat option list"
  bus_uids :: "string option list"
  branch_uids :: "string option list"
  gen_uids :: "string option list"
  linear_rows :: "linear_row list"
  base_mva :: f64
  dc_diagnostics :: "solve_diagnostic list"
  dc_rest :: string

record dc_solution =
  sol_va :: "f64 list"
  sol_pg :: "f64 list"
  sol_f :: "f64 list"
  psh :: "f64 list"
  nu_bal :: "f64 list"
  lam_ub :: "f64 list"
  lam_lb :: "f64 list"
  sol_objective :: f64
  iterations :: "string list"
  cost_epigraph :: "f64 option list"
  limit_rounds :: "limit_round_report list option"
  linear_values :: "f64 list"
  linear_duals :: "f64 list"
  sol_rest :: string

datatype ConstraintTermKind = BranchFlow | BusInjection | Generator

record constraint_term =
  term_kind :: ConstraintTermKind
  term_element :: ElementKey
  coefficient :: f64

record linear_constraint =
  lc_id :: string
  lc_terms :: "constraint_term list"
  lc_lower :: "f64 option"
  lc_upper :: "f64 option"

datatype ThermalLimits = All | Rated | Branches "ElementKey list"

record lazy_limits =
  max_rounds :: nat
  near_binding :: f64

record limit_options =
  angle_difference :: bool
  thermal :: ThermalLimits
  lazy :: "lazy_limits option"

datatype PowerFlowStart = Flat | Case

record solve_request =
  req_formulation :: Problem
  req_edits :: edits
  start :: PowerFlowStart
  constraints :: "linear_constraint list"
  limits :: "limit_options option"
  sensitivities :: "sens_request list"

section \<open>Requests a formulation refuses\<close>

definition reject_limit_options :: "solve_request \<Rightarrow> string \<Rightarrow> (string, unit) result" where
  "reject_limit_options req formulation =
     (case limits req of None \<Rightarrow> Inr ()
      | Some _ \<Rightarrow> Inl (''limit options apply only to dcopf, not '' @ formulation))"

definition reject_linear_constraints :: "linear_constraint list \<Rightarrow> string \<Rightarrow> (string, unit) result" where
  "reject_linear_constraints cs formulation =
     (if cs = [] then Inr () else Inl (''linear constraints are supported only by dcopf, not '' @ formulation))"

definition reject_case_start :: "solve_request \<Rightarrow> string \<Rightarrow> (string, unit) result" where
  "reject_case_start req formulation =
     (case start req of Flat \<Rightarrow> Inr ()
      | Case \<Rightarrow> Inl (''start '' @ show_key (Uid ''case'') @ '' applies only to acpf, not '' @ formulation))"

definition reject_rating_deltas :: "(ElementKey, f64) hmap \<Rightarrow> string \<Rightarrow> (string, unit) result" where
  "reject_rating_deltas rs formulation =
     (if rs = [] then Inr () else Inl (''branch rating edits are not supported by '' @ formulation))"

section \<open>Edits on the model\<close>

definition apply_demand_deltas :: "dc_network \<Rightarrow> (ElementKey, f64) hmap \<Rightarrow> (string, dc_network) result" where
  "apply_demand_deltas dc ds =
     and_then (apply_demand_vector (base_mva dc) (bus_ids dc) (bus_uids dc) (demand dc) ds)
       (\<lambda>d. Inr (dc\<lparr>demand := d\<rparr>))"

definition apply_rating_deltas :: "dc_network \<Rightarrow> (ElementKey, f64) hmap \<Rightarrow> (string, dc_network) result" where
  "apply_rating_deltas dc rs =
     and_then (apply_rating_vector (base_mva dc) (branch_ids dc) (branch_uids dc) (fmax dc) rs)
       (\<lambda>f. Inr (dc\<lparr>fmax := f\<rparr>))"

section \<open>Linear constraints\<close>

definition quote :: "string \<Rightarrow> string" where
  "quote s = [CHR 0x22] @ s @ [CHR 0x22]"

definition check_limits :: "(f64 \<Rightarrow> string) \<Rightarrow> linear_constraint \<Rightarrow> (string, unit) result" where
  "check_limits fmt c =
     (case (lc_lower c, lc_upper c) of
        (None, None) \<Rightarrow> Inl (''constraint '' @ quote (lc_id c) @ '' needs a lower limit, an upper limit, or both'')
      | (lo, up) \<Rightarrow>
          if (case lo of None \<Rightarrow> False | Some v \<Rightarrow> \<not> is_finite v) \<or> (case up of None \<Rightarrow> False | Some v \<Rightarrow> \<not> is_finite v)
          then Inl (''constraint '' @ quote (lc_id c) @ '' limits must be finite'')
          else (case (lo, up) of
                  (Some l, Some u) \<Rightarrow>
                    if u < l then Inl (''constraint '' @ quote (lc_id c) @ '' lower limit '' @ fmt l @
                                       '' exceeds its upper limit '' @ fmt u)
                    else Inr ()
                | _ \<Rightarrow> Inr ()))"

definition source_filter :: "nat option list \<Rightarrow> nat option \<Rightarrow> nat option" where
  "source_filter src i = (case i of None \<Rightarrow> None | Some k \<Rightarrow> if src ! k \<noteq> None then Some k else None)"

definition incident :: "dc_network \<Rightarrow> nat \<Rightarrow> (nat \<times> f64) list" where
  "incident dc i = concat (map (\<lambda>e. (if dc_br_from dc ! e = i then [(e, 1)] else []) @
                                   (if dc_br_to dc ! e = i then [(e, - 1)] else [])) [0..<dc_m dc])"

definition add_terms :: "(nat \<times> f64) list \<Rightarrow> (nat, f64) btree \<Rightarrow> (nat, f64) btree" where
  "add_terms ts m = fold (\<lambda>(k, c). bt_modify k 0 (\<lambda>v. v + c)) ts m"

text \<open>The columns one term weights: its flow contributions and its dispatch contributions.\<close>

definition term_columns ::
  "dc_network \<Rightarrow> bool \<Rightarrow> string \<Rightarrow> constraint_term \<Rightarrow> (string, (nat \<times> f64) list \<times> (nat \<times> f64) list) result" where
  "term_columns dc needs_uids cid t =
     (let key = term_element t; name = ''constraint '' @ quote cid
      in and_then (err_if (\<not> is_finite (coefficient t)) (name @ '' coefficient for '' @ show_key key @ '' must be finite'')) (\<lambda>_.
         case term_kind t of
           BranchFlow \<Rightarrow>
             and_then (ok_or (name @ '': unknown or out-of-service branch '' @ show_key key)
               (source_filter (branch_source_rows dc) (key_index (branch_ids dc) (branch_uids dc) needs_uids key)))
               (\<lambda>e. Inr ([(e, coefficient t)], []))
         | BusInjection \<Rightarrow>
             and_then (ok_or (name @ '': unknown or out-of-service bus '' @ show_key key)
               (source_filter (bus_source_rows dc) (key_index (bus_ids dc) (bus_uids dc) needs_uids key)))
               (\<lambda>i. Inr (map (\<lambda>(e, sign). (e, sign * coefficient t)) (incident dc i), []))
         | Generator \<Rightarrow>
             let named = (case key of Uid u \<Rightarrow> length (filter (\<lambda>c. c = Some u) (gen_uids dc)) | Id _ \<Rightarrow> 0)
             in and_then (err_if (1 < named)
                  (name @ '': generator uid '' @ show_key key @ '' names '' @ show_nat named @ '' generators'')) (\<lambda>_.
                and_then (ok_or (name @ '': unknown or out-of-service generator '' @ show_key key)
                  (source_filter (gen_source_rows dc) (key_index (gen_ids dc) (gen_uids dc) needs_uids key)))
                  (\<lambda>j. Inr ([], [(j, coefficient t)])))))"

definition add_term ::
  "dc_network \<Rightarrow> bool \<Rightarrow> string \<Rightarrow> (nat, f64) btree \<times> (nat, f64) btree \<Rightarrow> constraint_term
     \<Rightarrow> (string, (nat, f64) btree \<times> (nat, f64) btree) result" where
  "add_term dc needs_uids cid = (\<lambda>(flow, gen) t.
     and_then (term_columns dc needs_uids cid t) (\<lambda>(fs, gs). Inr (add_terms fs flow, add_terms gs gen)))"

definition nonzero :: "string \<Rightarrow> (nat, f64) btree \<Rightarrow> (string, (nat \<times> f64) list) result" where
  "nonzero cid ts =
     (let kept = filter (\<lambda>(_, c). \<not> f64_eq c 0) ts
      in and_then (err_if (\<exists>(_, c) \<in> set kept. \<not> is_finite c)
           (''constraint '' @ quote cid @ '' combined coefficients must be finite'')) (\<lambda>_. Inr kept))"

definition resolve_constraint ::
  "(f64 \<Rightarrow> string) \<Rightarrow> dc_network \<Rightarrow> bool \<Rightarrow> string list \<times> linear_row list \<Rightarrow> linear_constraint
     \<Rightarrow> (string, string list \<times> linear_row list) result" where
  "resolve_constraint fmt dc needs_uids = (\<lambda>(seen, rws) c.
     and_then (err_if (lc_id c = []) ''constraint id must not be empty'') (\<lambda>_.
     and_then (err_if (lc_id c \<in> set seen) (''duplicate constraint id '' @ quote (lc_id c))) (\<lambda>_.
     and_then (check_limits fmt c) (\<lambda>_.
     and_then (err_if (lc_terms c = []) (''constraint '' @ quote (lc_id c) @ '' has no terms'')) (\<lambda>_.
     and_then (try_fold (add_term dc needs_uids (lc_id c)) ([], []) (lc_terms c)) (\<lambda>(flow, gen).
     and_then (nonzero (lc_id c) flow) (\<lambda>flow.
     and_then (nonzero (lc_id c) gen) (\<lambda>gen.
     and_then (err_if (flow = [] \<and> gen = [])
        (''constraint '' @ quote (lc_id c) @ '' has no nonzero coefficient once its terms are combined'')) (\<lambda>_.
     Inr (seen @ [lc_id c],
          rws @ [\<lparr>lr_id = lc_id c, lr_flow = flow, lr_generation = gen,
                  lower_mw = lc_lower c, upper_mw = lc_upper c\<rparr>]))))))))))"

definition apply_linear_constraints ::
  "(f64 \<Rightarrow> string) \<Rightarrow> dc_network \<Rightarrow> linear_constraint list \<Rightarrow> (string, dc_network) result" where
  "apply_linear_constraints fmt dc cs =
     (if cs = [] then Inr (dc\<lparr>linear_rows := []\<rparr>)
      else let needs_uids = (\<exists>c \<in> set cs. \<exists>t \<in> set (lc_terms c). is_uid (term_element t))
           in and_then (try_fold (resolve_constraint fmt dc needs_uids) ([], []) cs)
                (\<lambda>(_, rws). Inr (dc\<lparr>linear_rows := rws\<rparr>)))"

section \<open>Limit options\<close>

fun and_mask :: "bool list \<Rightarrow> bool list \<Rightarrow> bool list" where
  "and_mask (a # as) (b # bs) = (a \<and> b) # and_mask as bs"
| "and_mask as bs = as"

definition select_branches :: "dc_network \<Rightarrow> ElementKey list \<Rightarrow> (string, bool list) result" where
  "select_branches dc keys =
     (let needs_uids = (\<exists>k \<in> set keys. is_uid k)
      in try_fold (\<lambda>selected key.
           and_then (ok_or (''unknown thermal limit branch '' @ show_key key)
             (key_index (branch_ids dc) (branch_uids dc) needs_uids key))
             (\<lambda>e. Inr (selected[e := True]))) (replicate (dc_m dc) False) keys)"

definition apply_limit_options :: "dc_network \<Rightarrow> limit_options \<Rightarrow> (string, dc_network \<times> bool list) result" where
  "apply_limit_options dc lim =
     (let dc1 = (if \<not> angle_difference lim
                 then dc\<lparr>angle_bound_active := map (\<lambda>_. False) (angle_bound_active dc)\<rparr> else dc)
      in and_then
           (case thermal lim of
              All \<Rightarrow> Inr (thermal_limit_active dc1)
            | Rated \<Rightarrow> Inr (and_mask (thermal_limit_active dc1) (thermal_rated dc1))
            | Branches keys \<Rightarrow>
                and_then (select_branches dc1 keys) (\<lambda>selected. Inr (and_mask (thermal_limit_active dc1) selected)))
           (\<lambda>active.
             let dc2 = dc1\<lparr>thermal_limit_active := active\<rparr>
             in and_then
                  (case lazy lim of None \<Rightarrow> Inr ()
                   | Some l \<Rightarrow>
                       and_then (err_if (max_rounds l = 0) ''lazy limits need at least one round'') (\<lambda>_.
                       err_if (\<not> (0 < near_binding l \<and> near_binding l \<le> 1)) ''lazy near_binding must be in (0, 1]''))
                  (\<lambda>_. Inr (dc2, active))))"

section \<open>Limit rounds\<close>

definition LIMIT_VIOLATION_TOL :: f64 where
  "LIMIT_VIOLATION_TOL = f64_1e_6"

definition branch_loading :: "dc_network \<Rightarrow> dc_solution \<Rightarrow> nat \<Rightarrow> f64" where
  "branch_loading dc sol e = \<bar>sol_f sol ! e\<bar> / fmax dc ! e"

definition limit_round :: "(dc_network \<Rightarrow> nat \<times> nat) \<Rightarrow> dc_network \<Rightarrow> dc_solution \<Rightarrow> bool list \<Rightarrow> limit_round_report" where
  "limit_round opf_size dc sol enforceable =
     (let es = filter (\<lambda>e. enforceable ! e \<and> \<not> fmax dc ! e \<le> 0) [0..<length enforceable]
      in \<lparr>enforced = length (filter id (thermal_limit_active dc)),
          violated = length (filter (\<lambda>e. 1 + LIMIT_VIOLATION_TOL < branch_loading dc sol e) es),
          added = 0,
          max_loading = foldl (\<lambda>m e. f64_max m (branch_loading dc sol e)) 0 es,
          lim_variables = fst (opf_size dc), lim_rows = snd (opf_size dc),
          ipm_iterations = length (iterations sol)\<rparr>)"

definition unenforced_loading :: "dc_network \<Rightarrow> dc_solution \<Rightarrow> bool list \<Rightarrow> nat \<Rightarrow> f64 option" where
  "unenforced_loading dc sol enforceable e =
     (if enforceable ! e \<and> \<not> thermal_limit_active dc ! e \<and> 0 < fmax dc ! e
      then Some (branch_loading dc sol e) else None)"

definition loaded_at :: "dc_network \<Rightarrow> dc_solution \<Rightarrow> bool list \<Rightarrow> f64 \<Rightarrow> nat list" where
  "loaded_at dc sol enforceable threshold =
     filter (\<lambda>e. case unenforced_loading dc sol enforceable e of None \<Rightarrow> False | Some l \<Rightarrow> threshold \<le> l) [0..<dc_m dc]"

definition met_loading :: f64 where
  "met_loading = 1 - LIMIT_VIOLATION_TOL"

function lazy_rounds ::
  "(nat \<Rightarrow> dc_network \<Rightarrow> (string, dc_solution) result) \<Rightarrow> (dc_network \<Rightarrow> nat \<times> nat) \<Rightarrow> bool list \<Rightarrow> lazy_limits
     \<Rightarrow> dc_network \<Rightarrow> limit_round_report list \<Rightarrow> (string, dc_network \<times> dc_solution) result" where
  "lazy_rounds solve opf_size enforceable lz dc rounds =
     (case solve (length rounds) dc of
        Inl e \<Rightarrow> Inl (''lazy limit round '' @ show_nat (length rounds + 1) @ '': '' @ e)
      | Inr sol \<Rightarrow>
          let round = limit_round opf_size dc sol enforceable;
              met_unenforced = length (loaded_at dc sol enforceable met_loading)
          in if violated round = 0 \<and> met_unenforced = 0
             then Inr (dc, sol\<lparr>limit_rounds := Some (rounds @ [round])\<rparr>)
             else if max_rounds lz \<le> length rounds + 1
             then Inl (if 0 < violated round
                       then ''lazy thermal limits still violate '' @ show_nat (violated round) @ '' limit(s) after '' @
                            show_nat (max_rounds lz) @ '' round(s)''
                       else ''lazy thermal limits still leave '' @ show_nat met_unenforced @
                            '' limit(s) at their limit unenforced after '' @ show_nat (max_rounds lz) @ '' round(s)'')
             else let joined = loaded_at dc sol enforceable (f64_min (near_binding lz) met_loading)
                  in lazy_rounds solve opf_size enforceable lz
                       (dc\<lparr>thermal_limit_active := fold (\<lambda>e act. act[e := True]) joined (thermal_limit_active dc)\<rparr>)
                       (rounds @ [round\<lparr>added := length joined\<rparr>]))"
  by pat_completeness auto
termination
  by (relation "measure (\<lambda>(_, _, _, lz, _, rounds). max_rounds lz - length rounds)") auto

declare lazy_rounds.simps [simp del]

definition solve_with_lazy_limits ::
  "(nat \<Rightarrow> dc_network \<Rightarrow> (string, dc_solution) result) \<Rightarrow> (dc_network \<Rightarrow> nat \<times> nat) \<Rightarrow> dc_network \<Rightarrow> bool list
     \<Rightarrow> lazy_limits \<Rightarrow> (string, dc_network \<times> dc_solution) result" where
  "solve_with_lazy_limits solve opf_size dc enforceable lz =
     lazy_rounds solve opf_size enforceable lz
       (dc\<lparr>thermal_limit_active := map (\<lambda>_. False) (thermal_limit_active dc)\<rparr>) []"

definition dc_opf_solved ::
  "(f64 \<Rightarrow> string) \<Rightarrow> (nat \<Rightarrow> dc_network \<Rightarrow> (string, dc_solution) result) \<Rightarrow> (dc_network \<Rightarrow> nat \<times> nat)
     \<Rightarrow> dc_network \<Rightarrow> solve_request \<Rightarrow> (string, dc_network \<times> dc_solution) result" where
  "dc_opf_solved fmt solve opf_size dc0 req =
     and_then (reject_case_start req ''dcopf'') (\<lambda>_.
     and_then (apply_demand_deltas (dc0\<lparr>allow_shed := False\<rparr>) (deltas (req_edits req))) (\<lambda>dc.
     and_then (apply_rating_deltas dc (rates (req_edits req))) (\<lambda>dc.
     and_then (apply_linear_constraints fmt dc (constraints req)) (\<lambda>dc.
     case limits req of
       None \<Rightarrow> and_then (solve 0 dc) (\<lambda>sol. Inr (dc, sol))
     | Some lim \<Rightarrow>
         and_then (apply_limit_options dc lim) (\<lambda>(dc, enforceable).
         case lazy lim of
           None \<Rightarrow> and_then (solve 0 dc) (\<lambda>sol.
             Inr (dc, sol\<lparr>limit_rounds := Some [(limit_round opf_size dc sol enforceable)\<lparr>added := 0\<rparr>]\<rparr>))
         | Some lz \<Rightarrow> solve_with_lazy_limits solve opf_size dc enforceable lz)))))"

section \<open>The response\<close>

definition uid_at :: "string option list \<Rightarrow> nat \<Rightarrow> string option" where
  "uid_at uids i = (if i < length uids then uids ! i else None)"

definition zip_bus :: "nat list \<Rightarrow> string option list \<Rightarrow> f64 list \<Rightarrow> bus_scalar list" where
  "zip_bus ids uids vals =
     map (\<lambda>i. \<lparr>bs_bus = ids ! i, bs_uid = uid_at uids i, bs_value = vals ! i\<rparr>) [0..<min (length ids) (length vals)]"

definition zip_gen_pg :: "dc_network \<Rightarrow> f64 list \<Rightarrow> f64 \<Rightarrow> gen_dispatch list" where
  "zip_gen_pg dc pgs base =
     map (\<lambda>j. \<lparr>gd_gen = gen_ids dc ! j, gd_bus = Some (bus_ids dc ! (dc_gen_bus dc ! j)), pg = pgs ! j * base, qg = None\<rparr>)
       [0..<min (length (gen_ids dc)) (length pgs)]"

definition dc_branch_flows ::
  "nat list \<Rightarrow> string option list \<Rightarrow> f64 list \<Rightarrow> f64 list \<Rightarrow> f64 \<Rightarrow> branch_flow list" where
  "dc_branch_flows ids uids f fm base =
     map (\<lambda>e. \<lparr>bf_branch = ids ! e, bf_uid = uid_at uids e, pf = f ! e * base,
               loading = (if 0 < fm ! e then \<bar>f ! e\<bar> / fm ! e else 0), qf = None, pt = None, qt = None\<rparr>)
       [0..<length ids]"

definition is_equality :: "linear_row \<Rightarrow> bool" where
  "is_equality row = (case (lower_mw row, upper_mw row) of (Some l, Some u) \<Rightarrow> f64_eq l u | _ \<Rightarrow> False)"

definition at_limit :: "f64 \<Rightarrow> f64 option \<Rightarrow> bool" where
  "at_limit v limit = (case limit of None \<Rightarrow> False | Some l \<Rightarrow> \<bar>v - l\<bar> \<le> f64_1e_6 * (1 + \<bar>l\<bar>))"

definition linear_constraint_results :: "dc_network \<Rightarrow> dc_solution \<Rightarrow> bool \<Rightarrow> constraint_result list" where
  "linear_constraint_results dc sol econ =
     map (\<lambda>(row, (value, dual)).
        let v = value * base_mva dc
        in \<lparr>cr_id = lr_id row, cr_value = v, cr_lower = lower_mw row, cr_upper = upper_mw row,
            shadow_price = (if econ then Some (dual / base_mva dc) else None),
            binding = (is_equality row \<or> at_limit v (lower_mw row) \<or> at_limit v (upper_mw row))\<rparr>)
       (zip (linear_rows dc) (zip (linear_values sol) (linear_duals sol)))"

definition nodal_marginal_values :: "dc_solution \<Rightarrow> f64 \<Rightarrow> f64 list" where
  "nodal_marginal_values sol base = map (\<lambda>v. v / base) (nu_bal sol)"

text \<open>The sensitivity cells are computed elsewhere; with the status and iterations they fill the opaque rest.\<close>

definition dc_opf_assemble ::
  "(dc_network \<Rightarrow> dc_solution \<Rightarrow> sens_request list \<Rightarrow> (string, string) result)
     \<Rightarrow> dc_network \<Rightarrow> dc_solution \<Rightarrow> solve_request \<Rightarrow> (string, solve_response) result" where
  "dc_opf_assemble run_cells dc sol req =
     (let base = base_mva dc
      in and_then (err_if (\<not> economic dc \<and> (\<exists>c \<in> set (sensitivities req). case sr_operand c of Price _ \<Rightarrow> True | _ \<Rightarrow> False))
           ''price sensitivity requires a network_generator_cost objective'') (\<lambda>_.
         and_then (run_cells dc sol (sensitivities req)) (\<lambda>cells.
         Inr \<lparr>resp_formulation = DcOpf, resp_objective = Some (sol_objective sol),
              lmp = (if economic dc then Some (zip_bus (bus_ids dc) (bus_uids dc) (nodal_marginal_values sol base)) else None),
              lmp_q = None, vm = None, va = Some (zip_bus (bus_ids dc) (bus_uids dc) (sol_va sol)), resp_w = None,
              wr = None, wi = None, injections = None,
              flows = Some (dc_branch_flows (branch_ids dc) (branch_uids dc) (sol_f sol) (fmax dc) base),
              dispatch = Some (zip_gen_pg dc (sol_pg sol) base),
              resp_constraints = (if linear_rows dc \<noteq> [] then Some (linear_constraint_results dc sol (economic dc)) else None),
              resp_diagnostics = dc_diagnostics dc, resp_limit_rounds = limit_rounds sol, resp_rest = cells\<rparr>)))"

definition dc_opf_response where
  "dc_opf_response fmt solve opf_size run_cells dc req =
     and_then (dc_opf_solved fmt solve opf_size dc req) (\<lambda>(dc, sol). dc_opf_assemble run_cells dc sol req)"

section \<open>Lazy rounds\<close>

lemma fold_set_True:
  "length (fold (\<lambda>e act. act[e := True]) es act) = length act \<and>
   (\<forall>j < length act. fold (\<lambda>e act. act[e := True]) es act ! j \<longleftrightarrow> act ! j \<or> j \<in> set es)"
proof (induction es arbitrary: act)
  case (Cons e es)
  have "j < length act \<Longrightarrow> act[e := True] ! j \<longleftrightarrow> act ! j \<or> j = e" for j
    by (cases "j = e") simp_all
  with Cons.IH [of "act[e := True]"] show ?case by auto
qed simp

lemma loaded_at_enforceable: "e \<in> set (loaded_at dc sol enf t) \<Longrightarrow> e < dc_m dc \<and> enf ! e"
  by (auto simp: loaded_at_def unenforced_loading_def split: if_splits)

text \<open>The mask grows by limits the request allows, and the run ends with a solve of the final mask.\<close>

definition lazy_outcome ::
  "(nat \<Rightarrow> dc_network \<Rightarrow> (string, dc_solution) result) \<Rightarrow> (dc_network \<Rightarrow> nat \<times> nat) \<Rightarrow> bool list \<Rightarrow> lazy_limits
     \<Rightarrow> dc_network \<Rightarrow> nat \<Rightarrow> dc_network \<times> dc_solution \<Rightarrow> bool" where
  "lazy_outcome solve opf_size enf lz dc k0 = (\<lambda>(dc', sol'). \<exists>mask sol k rs.
     dc' = dc\<lparr>thermal_limit_active := mask\<rparr> \<and> length mask = length (thermal_limit_active dc) \<and>
     (\<forall>e < length mask. thermal_limit_active dc ! e \<longrightarrow> mask ! e) \<and>
     (\<forall>e < length mask. mask ! e \<longrightarrow> thermal_limit_active dc ! e \<or> enf ! e) \<and>
     solve k dc' = Inr sol \<and> sol' = sol\<lparr>limit_rounds := Some rs\<rparr> \<and> length rs = Suc k \<and> k < max (Suc k0) (max_rounds lz) \<and>
     violated (limit_round opf_size dc' sol enf) = 0 \<and> loaded_at dc' sol enf met_loading = [])"

lemma lazy_outcome_grow:
  assumes "lazy_outcome solve opf_size enf lz (dc\<lparr>thermal_limit_active := act\<rparr>) (Suc k0) out"
    and "length act = length (thermal_limit_active dc)"
    and "\<forall>e < length act. thermal_limit_active dc ! e \<longrightarrow> act ! e"
    and "\<forall>e < length act. act ! e \<longrightarrow> thermal_limit_active dc ! e \<or> enf ! e"
    and "Suc k0 < max_rounds lz"
  shows "lazy_outcome solve opf_size enf lz dc k0 out"
proof -
  obtain dc' sol' where out: "out = (dc', sol')" by (cases out)
  from assms(1) obtain mask sol k rs where
    o: "dc' = dc\<lparr>thermal_limit_active := mask\<rparr>" "length mask = length act"
    "\<forall>e < length mask. act ! e \<longrightarrow> mask ! e" "\<forall>e < length mask. mask ! e \<longrightarrow> act ! e \<or> enf ! e"
    "solve k dc' = Inr sol" "sol' = sol\<lparr>limit_rounds := Some rs\<rparr>" "length rs = Suc k" "k < max (Suc (Suc k0)) (max_rounds lz)"
    "violated (limit_round opf_size dc' sol enf) = 0" "loaded_at dc' sol enf met_loading = []"
    by (auto simp: lazy_outcome_def out)
  have "k < max (Suc k0) (max_rounds lz)" using o(8) assms(5) by simp
  then show ?thesis unfolding lazy_outcome_def out prod.case
    using o assms(2-4) by (intro exI [of _ mask] exI [of _ sol] exI [of _ k] exI [of _ rs] conjI) auto
qed

lemma lazy_rounds_outcome:
  assumes "lazy_rounds solve opf_size enf lz dc rounds = Inr out"
  shows "lazy_outcome solve opf_size enf lz dc (length rounds) out"
  using assms
proof (induction solve opf_size enf lz dc rounds rule: lazy_rounds.induct)
  case (1 solve opf_size enf lz dc rounds)
  note step = "1.prems" [unfolded lazy_rounds.simps [of solve opf_size enf lz dc rounds]]
  obtain sol where sol: "solve (length rounds) dc = Inr sol"
    using step by (cases "solve (length rounds) dc") simp_all
  note step = step [unfolded sol sum.case Let_def]
  let ?round = "limit_round opf_size dc sol enf" and ?met = "loaded_at dc sol enf met_loading"
  show ?case
  proof (cases "violated ?round = 0 \<and> length ?met = 0")
    case True
    then have out: "out = (dc, sol\<lparr>limit_rounds := Some (rounds @ [?round])\<rparr>)"
      using step by (simp only: if_P) simp
    show ?thesis using True sol unfolding lazy_outcome_def out prod.case
      by (intro exI [of _ "thermal_limit_active dc"] exI [of _ sol] exI [of _ "length rounds"]
          exI [of _ "rounds @ [?round]"]) simp
  next
    case False
    let ?act = "fold (\<lambda>e act. act[e := True]) (loaded_at dc sol enf (f64_min (near_binding lz) met_loading)) (thermal_limit_active dc)"
    let ?rs = "rounds @ [?round\<lparr>added := length (loaded_at dc sol enf (f64_min (near_binding lz) met_loading))\<rparr>]"
    have more: "\<not> max_rounds lz \<le> length rounds + 1"
      and rec: "lazy_rounds solve opf_size enf lz (dc\<lparr>thermal_limit_active := ?act\<rparr>) ?rs = Inr out"
      using step [unfolded if_not_P [OF False]] by (simp_all only: split: if_splits) simp_all
    have "lazy_outcome solve opf_size enf lz (dc\<lparr>thermal_limit_active := ?act\<rparr>) (Suc (length rounds)) out"
      using "1.IH" [OF sol refl refl False more refl rec] by simp
    then show ?thesis
    proof (rule lazy_outcome_grow)
      note act = fold_set_True [of "loaded_at dc sol enf (f64_min (near_binding lz) met_loading)" "thermal_limit_active dc"]
      show "length ?act = length (thermal_limit_active dc)" using act by blast
      show "\<forall>e < length ?act. thermal_limit_active dc ! e \<longrightarrow> ?act ! e" using act by simp
      show "\<forall>e < length ?act. ?act ! e \<longrightarrow> thermal_limit_active dc ! e \<or> enf ! e"
        using act loaded_at_enforceable by fastforce
      show "Suc (length rounds) < max_rounds lz" using more by simp
    qed
  qed
qed

section \<open>Limit options\<close>

lemma and_mask_nth:
  "length (and_mask a b) = length a" "i < length a \<Longrightarrow> and_mask a b ! i \<longleftrightarrow> a ! i \<and> (i < length b \<longrightarrow> b ! i)"
proof -
  show "length (and_mask a b) = length a" by (induction a b rule: and_mask.induct) simp_all
  show "i < length a \<Longrightarrow> and_mask a b ! i \<longleftrightarrow> a ! i \<and> (i < length b \<longrightarrow> b ! i)"
    by (induction a b arbitrary: i rule: and_mask.induct) (auto simp: nth_Cons split: nat.splits)
qed

lemma select_branches_nth:
  assumes "select_branches dc keys = Inr sel"
  shows "length sel = dc_m dc \<and> (\<forall>e < dc_m dc. sel ! e \<longleftrightarrow>
     (\<exists>k \<in> set keys. key_index (branch_ids dc) (branch_uids dc) (\<exists>k \<in> set keys. is_uid k) k = Some e))"
proof -
  let ?idx = "key_index (branch_ids dc) (branch_uids dc) (\<exists>k \<in> set keys. is_uid k)"
  let ?f = "\<lambda>selected key. and_then (ok_or (''unknown thermal limit branch '' @ show_key key) (?idx key)) (\<lambda>e. Inr (selected[e := True]))"
  have "try_fold ?f v ks = Inr w \<Longrightarrow> length w = length v \<and> (\<forall>e < length v. w ! e \<longleftrightarrow> v ! e \<or> (\<exists>k \<in> set ks. ?idx k = Some e))"
    for v ks w
  proof (induction ks arbitrary: v)
    case (Cons k ks)
    then obtain i where i: "?idx k = Some i" "try_fold ?f (v[i := True]) ks = Inr w" by (auto simp: result_simps)
    have upd: "e < length v \<Longrightarrow> v[i := True] ! e \<longleftrightarrow> v ! e \<or> i = e" for e by (cases "e = i") simp_all
    from Cons.IH [OF i(2)] show ?case using i(1) upd by auto
  qed simp
  from this [of "replicate (dc_m dc) False" keys sel] assms show ?thesis by (simp add: select_branches_def Let_def)
qed

definition limit_selected :: "dc_network \<Rightarrow> ThermalLimits \<Rightarrow> nat \<Rightarrow> bool" where
  "limit_selected dc th e =
     (case th of All \<Rightarrow> True
      | Rated \<Rightarrow> e < length (thermal_rated dc) \<longrightarrow> thermal_rated dc ! e
      | Branches keys \<Rightarrow> e < dc_m dc \<longrightarrow>
          (\<exists>k \<in> set keys. key_index (branch_ids dc) (branch_uids dc) (\<exists>k \<in> set keys. is_uid k) k = Some e))"

lemma apply_limit_options_Inr:
  assumes "apply_limit_options dc lim = Inr (dc', enf)"
  shows "enf = thermal_limit_active dc'"
    and "length enf = length (thermal_limit_active dc)"
    and "e < length enf \<Longrightarrow> enf ! e \<longleftrightarrow> thermal_limit_active dc ! e \<and> limit_selected dc (thermal lim) e"
    and "dc' = dc\<lparr>angle_bound_active := (if angle_difference lim then angle_bound_active dc else map (\<lambda>_. False) (angle_bound_active dc)),
                 thermal_limit_active := enf\<rparr>"
    and "lazy lim = Some lz \<Longrightarrow> 0 < max_rounds lz \<and> 0 < near_binding lz \<and> near_binding lz \<le> 1"
proof -
  define dc1 where "dc1 = (if \<not> angle_difference lim
      then dc\<lparr>angle_bound_active := map (\<lambda>_. False) (angle_bound_active dc)\<rparr> else dc)"
  have same: "thermal_limit_active dc1 = thermal_limit_active dc" "thermal_rated dc1 = thermal_rated dc"
    "dc_m dc1 = dc_m dc" "branch_ids dc1 = branch_ids dc" "branch_uids dc1 = branch_uids dc" by (simp_all add: dc1_def)
  from assms have sel: "(case thermal lim of All \<Rightarrow> Inr (thermal_limit_active dc1)
            | Rated \<Rightarrow> Inr (and_mask (thermal_limit_active dc1) (thermal_rated dc1))
            | Branches keys \<Rightarrow>
                and_then (select_branches dc1 keys) (\<lambda>selected. Inr (and_mask (thermal_limit_active dc1) selected))) = Inr enf"
    and dc': "dc' = dc1\<lparr>thermal_limit_active := enf\<rparr>"
    and lz: "(case lazy lim of None \<Rightarrow> Inr ()
                   | Some l \<Rightarrow>
                       and_then (err_if (max_rounds l = 0) ''lazy limits need at least one round'') (\<lambda>_.
                       err_if (\<not> (0 < near_binding l \<and> near_binding l \<le> 1)) ''lazy near_binding must be in (0, 1]'')) = Inr ()"
    unfolding apply_limit_options_def Let_def dc1_def [symmetric] and_then_Inr by auto
  show "enf = thermal_limit_active dc'" by (simp add: dc')
  show "dc' = dc\<lparr>angle_bound_active := (if angle_difference lim then angle_bound_active dc else map (\<lambda>_. False) (angle_bound_active dc)),
                 thermal_limit_active := enf\<rparr>" by (simp add: dc' dc1_def)
  show "lazy lim = Some lz \<Longrightarrow> 0 < max_rounds lz \<and> 0 < near_binding lz \<and> near_binding lz \<le> 1"
    using lz by (auto simp: result_simps)
  have "length enf = length (thermal_limit_active dc) \<and>
     (\<forall>e < length enf. enf ! e \<longleftrightarrow> thermal_limit_active dc ! e \<and> limit_selected dc (thermal lim) e)"
  proof (cases "thermal lim")
    case (Branches keys)
    then obtain s where s: "select_branches dc1 keys = Inr s" "enf = and_mask (thermal_limit_active dc) s"
      using sel by (auto simp: result_simps same)
    from select_branches_nth [OF s(1)] show ?thesis
      by (auto simp: s(2) and_mask_nth limit_selected_def Branches same)
  qed (use sel in \<open>auto simp: and_mask_nth limit_selected_def same\<close>)
  then show "length enf = length (thermal_limit_active dc)"
    "e < length enf \<Longrightarrow> enf ! e \<longleftrightarrow> thermal_limit_active dc ! e \<and> limit_selected dc (thermal lim) e" by blast+
qed

section \<open>Resolved constraints\<close>

text \<open>The combined coefficient of one column: its contributions added in term order, absent when they cancel.\<close>

definition column_steps :: "(nat \<times> f64) list \<Rightarrow> nat \<Rightarrow> f64 list" where
  "column_steps ts k = map snd (filter (\<lambda>(j, _). j = k) ts)"

definition column_value :: "(nat \<times> f64) list \<Rightarrow> nat \<Rightarrow> f64 option" where
  "column_value ts k =
     (case running_total None (column_steps ts k) of None \<Rightarrow> None | Some v \<Rightarrow> if f64_eq v 0 then None else Some v)"

lemma add_terms_lookup:
  "bt_ok m \<Longrightarrow> bt_ok (add_terms ts m) \<and> map_of (add_terms ts m) k = running_total (map_of m k) (column_steps ts k)"
proof (induction ts arbitrary: m)
  case (Cons x ts)
  obtain j c where x: "x = (j, c)" by (cases x)
  have "bt_ok (bt_modify j 0 (\<lambda>v. v + c) m)" using Cons.prems by (rule bt_ok_modify)
  with Cons.IH [of "bt_modify j 0 (\<lambda>v. v + c) m"] show ?case
    by (auto simp: x add_terms_def column_steps_def map_of_bt_modify running_total_def split: option.splits)
qed (simp add: add_terms_def column_steps_def running_total_def)

lemma add_terms_append: "add_terms (xs @ ys) m = add_terms ys (add_terms xs m)"
  by (simp add: add_terms_def)

lemma add_term_fold:
  "try_fold (add_term dc nu cid) (flow, gen) ts = Inr (flow', gen') \<longleftrightarrow>
     (\<exists>cols. try_map (term_columns dc nu cid) ts = Inr cols \<and>
        flow' = add_terms (concat (map fst cols)) flow \<and> gen' = add_terms (concat (map snd cols)) gen)"
proof (induction ts arbitrary: flow gen)
  case Nil
  show ?case by (auto simp: add_terms_def)
next
  case (Cons t ts)
  show ?case
  proof (cases "term_columns dc nu cid t")
    case (Inl e)
    then show ?thesis by (simp add: add_term_def)
  next
    case (Inr fg)
    obtain f g where fg: "fg = (f, g)" by (cases fg)
    have "try_fold (add_term dc nu cid) (flow, gen) (t # ts) =
        try_fold (add_term dc nu cid) (add_terms f flow, add_terms g gen) ts" by (simp add: add_term_def Inr fg)
    then show ?thesis by (auto simp: Cons.IH Inr fg and_then_Inr add_terms_append)
  qed
qed

lemma nonzero_Inr:
  assumes "nonzero cid m = Inr kept" "bt_ok m"
  shows "bt_ok kept" "map_of kept k = (case map_of m k of None \<Rightarrow> None | Some v \<Rightarrow> if f64_eq v 0 then None else Some v)"
    "\<forall>(k, c) \<in> set kept. is_finite c \<and> \<not> f64_eq c 0"
proof -
  let ?kept = "filter (\<lambda>(_, c). \<not> f64_eq c 0) m"
  have run: "nonzero cid m = and_then (err_if (\<exists>(_, c) \<in> set ?kept. \<not> is_finite c)
      (''constraint '' @ quote cid @ '' combined coefficients must be finite'')) (\<lambda>_. Inr ?kept)"
    by (simp only: nonzero_def Let_def)
  have fin: "\<not> (\<exists>(_, c) \<in> set ?kept. \<not> is_finite c)"
    using assms(1) unfolding run by (cases "\<exists>(_, c) \<in> set ?kept. \<not> is_finite c") simp_all
  have kept: "kept = ?kept" using assms(1) unfolding run by (simp only: fin err_if_simps and_then_simps sum.inject)
  show ok: "bt_ok kept" unfolding kept using assms(2) by (rule bt_ok_filter)
  show "\<forall>(k, c) \<in> set kept. is_finite c \<and> \<not> f64_eq c 0" using fin unfolding kept by auto
  have "map_of kept k = Some v \<longleftrightarrow> map_of m k = Some v \<and> \<not> f64_eq v 0" for v
    unfolding bt_ok_map_of_set [OF ok, symmetric] bt_ok_map_of_set [OF assms(2), symmetric] by (simp add: kept)
  then have each: "\<And>v. map_of kept k = Some v \<longleftrightarrow> map_of m k = Some v \<and> \<not> f64_eq v 0" .
  show "map_of kept k = (case map_of m k of None \<Rightarrow> None | Some v \<Rightarrow> if f64_eq v 0 then None else Some v)"
  proof (cases "map_of m k")
    case None
    then have "map_of kept k = None" using each by (metis option.exhaust option.distinct(1))
    with None show ?thesis by simp
  next
    case (Some v)
    show ?thesis
    proof (cases "f64_eq v 0")
      case True
      then have "map_of kept k = None" using Some each by (metis option.exhaust option.inject)
      with Some True show ?thesis by simp
    next
      case False
      then show ?thesis using Some each [of v] by simp
    qed
  qed
qed

definition limits_ok :: "linear_constraint \<Rightarrow> bool" where
  "limits_ok c \<longleftrightarrow> (lc_lower c \<noteq> None \<or> lc_upper c \<noteq> None) \<and>
     (\<forall>v \<in> set_option (lc_lower c) \<union> set_option (lc_upper c). is_finite v) \<and>
     (\<forall>l u. lc_lower c = Some l \<longrightarrow> lc_upper c = Some u \<longrightarrow> \<not> u < l)"

lemma check_limits_Inr: "check_limits fmt c = Inr () \<longleftrightarrow> limits_ok c"
  by (cases "lc_lower c"; cases "lc_upper c") (auto simp: check_limits_def limits_ok_def)

definition row_resolves :: "dc_network \<Rightarrow> bool \<Rightarrow> linear_constraint \<Rightarrow> linear_row \<Rightarrow> bool" where
  "row_resolves dc nu c row \<longleftrightarrow>
     lr_id row = lc_id c \<and> lower_mw row = lc_lower c \<and> upper_mw row = lc_upper c \<and>
     bt_ok (lr_flow row) \<and> bt_ok (lr_generation row) \<and> (lr_flow row \<noteq> [] \<or> lr_generation row \<noteq> []) \<and>
     (\<forall>(k, v) \<in> set (lr_flow row @ lr_generation row). is_finite v \<and> \<not> f64_eq v 0) \<and>
     (\<exists>cols. try_map (term_columns dc nu (lc_id c)) (lc_terms c) = Inr cols \<and>
        (\<forall>k. map_of (lr_flow row) k = column_value (concat (map fst cols)) k \<and>
             map_of (lr_generation row) k = column_value (concat (map snd cols)) k))"

lemma resolve_constraint_Inr:
  assumes "resolve_constraint fmt dc nu (seen, rws) c = Inr (seen', rws')"
  shows "seen' = seen @ [lc_id c] \<and> lc_id c \<noteq> [] \<and> lc_id c \<notin> set seen \<and> limits_ok c \<and>
     (\<exists>row. rws' = rws @ [row] \<and> row_resolves dc nu c row)"
proof -
  from assms obtain flow gen fl ge where
    r: "lc_id c \<noteq> []" "lc_id c \<notin> set seen" "check_limits fmt c = Inr ()"
    "try_fold (add_term dc nu (lc_id c)) ([], []) (lc_terms c) = Inr (flow, gen)"
    "nonzero (lc_id c) flow = Inr fl" "nonzero (lc_id c) gen = Inr ge" "\<not> (fl = [] \<and> ge = [])"
    "seen' = seen @ [lc_id c]"
    "rws' = rws @ [\<lparr>lr_id = lc_id c, lr_flow = fl, lr_generation = ge, lower_mw = lc_lower c, upper_mw = lc_upper c\<rparr>]"
    by (auto simp: resolve_constraint_def result_simps)
  from r(4) obtain cols where cols: "try_map (term_columns dc nu (lc_id c)) (lc_terms c) = Inr cols"
    "flow = add_terms (concat (map fst cols)) []" "gen = add_terms (concat (map snd cols)) []"
    unfolding add_term_fold by blast
  have ok: "bt_ok flow" "bt_ok gen" using add_terms_lookup [of "[]"] by (simp_all add: cols)
  have "map_of fl k = column_value (concat (map fst cols)) k" "map_of ge k = column_value (concat (map snd cols)) k" for k
    using nonzero_Inr(2) [OF r(5) ok(1), of k] nonzero_Inr(2) [OF r(6) ok(2), of k] add_terms_lookup [of "[]"]
    by (simp_all add: cols column_value_def)
  then have "row_resolves dc nu c \<lparr>lr_id = lc_id c, lr_flow = fl, lr_generation = ge, lower_mw = lc_lower c, upper_mw = lc_upper c\<rparr>"
    using nonzero_Inr(1,3) [OF r(5) ok(1)] nonzero_Inr(1,3) [OF r(6) ok(2)] r(7) cols(1) by (auto simp: row_resolves_def)
  with r show ?thesis by (simp add: check_limits_Inr)
qed

lemma resolve_constraints_fold:
  assumes "try_fold (resolve_constraint fmt dc nu) (seen, rws) cs = Inr (seen', rws')"
  shows "seen' = seen @ map lc_id cs \<and> [] \<notin> set (map lc_id cs) \<and>
     (distinct seen \<longrightarrow> distinct seen') \<and> (\<forall>c \<in> set cs. limits_ok c) \<and>
     (\<exists>new. rws' = rws @ new \<and> list_all2 (row_resolves dc nu) cs new)"
  using assms
proof (induction cs arbitrary: seen rws)
  case (Cons c cs)
  from Cons.prems obtain s r where sr: "resolve_constraint fmt dc nu (seen, rws) c = Inr (s, r)"
    "try_fold (resolve_constraint fmt dc nu) (s, r) cs = Inr (seen', rws')"
    by (auto simp: and_then_Inr)
  from resolve_constraint_Inr [OF sr(1)] obtain row where
    step: "s = seen @ [lc_id c]" "lc_id c \<noteq> []" "lc_id c \<notin> set seen" "limits_ok c" "r = rws @ [row]" "row_resolves dc nu c row"
    by blast
  from Cons.IH [OF sr(2)] obtain new where
    IH: "seen' = s @ map lc_id cs" "[] \<notin> set (map lc_id cs)" "distinct s \<longrightarrow> distinct seen'" "\<forall>c \<in> set cs. limits_ok c"
    "rws' = r @ new" "list_all2 (row_resolves dc nu) cs new" by blast
  from IH step show ?case by (auto intro!: exI [of _ "row # new"])
qed auto

text \<open>What a finished solve promises of the model it returns, whichever way the limits were enforced.\<close>

lemma limit_round_clear:
  assumes "violated (limit_round opf_size dc sol enf) = 0" "e < length enf" "enf ! e" "\<not> fmax dc ! e \<le> 0"
  shows "\<not> 1 + LIMIT_VIOLATION_TOL < branch_loading dc sol e"
  using assms by (auto simp: limit_round_def Let_def filter_empty_conv)

lemma loaded_at_clear:
  assumes "loaded_at dc sol enf t = []" "e < dc_m dc" "enf ! e" "\<not> thermal_limit_active dc ! e" "0 < fmax dc ! e"
  shows "\<not> t \<le> branch_loading dc sol e"
  using assms(1) [unfolded loaded_at_def filter_empty_conv, rule_format, of e] assms(2-)
  by (simp add: unenforced_loading_def)

lemma linear_constraints_rows:
  assumes "apply_linear_constraints fmt dc cs = Inr dc'"
  shows "\<exists>rws. dc' = dc\<lparr>linear_rows := rws\<rparr> \<and>
    list_all2 (row_resolves dc (\<exists>c \<in> set cs. \<exists>t \<in> set (lc_terms c). is_uid (term_element t))) cs rws \<and>
    distinct (map lc_id cs) \<and> [] \<notin> set (map lc_id cs) \<and> (\<forall>c \<in> set cs. limits_ok c)"
proof (cases "cs = []")
  case True
  then have "dc' = dc\<lparr>linear_rows := []\<rparr>" using assms by (simp add: apply_linear_constraints_def)
  with True show ?thesis by auto
next
  case False
  let ?nu = "\<exists>c \<in> set cs. \<exists>t \<in> set (lc_terms c). is_uid (term_element t)"
  from assms False obtain s rws where run: "try_fold (resolve_constraint fmt dc ?nu) ([], []) cs = Inr (s, rws)"
    and dc': "dc' = dc\<lparr>linear_rows := rws\<rparr>"
    by (auto simp: apply_linear_constraints_def Let_def and_then_Inr)
  from resolve_constraints_fold [OF run] show ?thesis by (auto simp: dc')
qed

lemma lazy_limits_same:
  assumes "solve_with_lazy_limits solve opf_size dc enf lz = Inr (dc', sol')"
  shows "\<exists>mask k s. dc' = dc\<lparr>thermal_limit_active := mask\<rparr> \<and> solve k dc' = Inr s \<and> sol'\<lparr>limit_rounds := limit_rounds s\<rparr> = s"
proof -
  from lazy_rounds_outcome [OF assms [unfolded solve_with_lazy_limits_def]] obtain mask s k rs where
    *: "dc' = dc\<lparr>thermal_limit_active := map (\<lambda>_. False) (thermal_limit_active dc), thermal_limit_active := mask\<rparr>"
       "solve k dc' = Inr s" "sol' = s\<lparr>limit_rounds := Some rs\<rparr>"
    unfolding lazy_outcome_def prod.case by blast
  then have "dc' = dc\<lparr>thermal_limit_active := mask\<rparr>" by simp
  note * = this *(2,3)
  from * show ?thesis by (intro exI [of _ mask] exI [of _ k] exI [of _ s] conjI) simp_all
qed

lemma solved_tail:
  assumes "(case limits req of None \<Rightarrow> and_then (solve 0 d) (\<lambda>sol. Inr (d, sol))
     | Some lim \<Rightarrow>
         and_then (apply_limit_options d lim) (\<lambda>(dc, enforceable).
         case lazy lim of
           None \<Rightarrow> and_then (solve 0 dc) (\<lambda>sol.
             Inr (dc, sol\<lparr>limit_rounds := Some [(limit_round opf_size dc sol enforceable)\<lparr>added := 0\<rparr>]\<rparr>))
         | Some lz \<Rightarrow> solve_with_lazy_limits solve opf_size dc enforceable lz)) = Inr (dc, sol)"
  shows "(\<exists>ang act. dc = d\<lparr>angle_bound_active := ang, thermal_limit_active := act\<rparr>) \<and>
     (\<exists>k s. solve k dc = Inr s \<and> sol\<lparr>limit_rounds := limit_rounds s\<rparr> = s)"
proof (cases "limits req")
  case None
  then have *: "dc = d" "solve 0 dc = Inr sol" using assms by (auto simp: and_then_Inr)
  show ?thesis
    by (rule conjI, rule exI [of _ "angle_bound_active d"], rule exI [of _ "thermal_limit_active d"], simp add: *(1),
        rule exI [of _ 0], rule exI [of _ sol], simp add: *(2))
next
  case (Some lim)
  with assms obtain d' enf where o: "apply_limit_options d lim = Inr (d', enf)"
    and rest: "(case lazy lim of
           None \<Rightarrow> and_then (solve 0 d') (\<lambda>sol.
             Inr (d', sol\<lparr>limit_rounds := Some [(limit_round opf_size d' sol enf)\<lparr>added := 0\<rparr>]\<rparr>))
         | Some lz \<Rightarrow> solve_with_lazy_limits solve opf_size d' enf lz) = Inr (dc, sol)"
    by (auto simp: and_then_Inr)
  note d' = apply_limit_options_Inr(4) [OF o]
  show ?thesis
  proof (cases "lazy lim")
    case None
    with rest obtain s where "dc = d'" "solve 0 dc = Inr s" "sol\<lparr>limit_rounds := limit_rounds s\<rparr> = s"
      by (auto simp: and_then_Inr)
    then show ?thesis using d' by blast
  next
    case (Some lz)
    with rest lazy_limits_same [of solve opf_size d' enf lz dc sol] obtain mask k s where
      "dc = d'\<lparr>thermal_limit_active := mask\<rparr>" "solve k dc = Inr s" "sol\<lparr>limit_rounds := limit_rounds s\<rparr> = s" by auto
    moreover have "d'\<lparr>thermal_limit_active := mask\<rparr> = d\<lparr>angle_bound_active := angle_bound_active d', thermal_limit_active := mask\<rparr>"
      by (subst (1 2) d') simp
    ultimately show ?thesis by (intro conjI exI [of _ "angle_bound_active d'"] exI [of _ mask] exI [of _ k] exI [of _ s]) simp_all
  qed
qed

section \<open>Properties\<close>

text \<open>C11: lazy enforcement of thermal limits ends within the stated number of solves, and its result is
  sound for every limit the request allows: the returned solution was computed on exactly the
  returned model, which differs from the input only in the enforced mask; only allowed limits are
  enforced; no allowed limit is violated beyond the tolerance, and each one left out is strictly
  below it. One round is reported per solve.\<close>

theorem lazy_limits_sound:
  assumes ok: "solve_with_lazy_limits solve opf_size dc enf lz = Inr (dc', sol')"
    and len: "length enf = dc_m dc" "length (thermal_limit_active dc) = dc_m dc"
  shows "\<exists>sol k rs. solve k dc' = Inr sol \<and> sol' = sol\<lparr>limit_rounds := Some rs\<rparr> \<and> length rs = Suc k \<and>
       k < max 1 (max_rounds lz) \<and>
       dc'\<lparr>thermal_limit_active := thermal_limit_active dc\<rparr> = dc \<and>
       (\<forall>e < dc_m dc. thermal_limit_active dc' ! e \<longrightarrow> enf ! e) \<and>
       (\<forall>e < dc_m dc. enf ! e \<longrightarrow> \<not> fmax dc ! e \<le> 0 \<longrightarrow> \<not> 1 + LIMIT_VIOLATION_TOL < branch_loading dc' sol e) \<and>
       (\<forall>e < dc_m dc. enf ! e \<longrightarrow> 0 < fmax dc ! e \<longrightarrow>
          thermal_limit_active dc' ! e \<or> \<not> 1 - LIMIT_VIOLATION_TOL \<le> branch_loading dc' sol e)"
proof -
  let ?dc = "dc\<lparr>thermal_limit_active := map (\<lambda>_. False) (thermal_limit_active dc)\<rparr>"
  from lazy_rounds_outcome [of solve opf_size enf lz ?dc "[]"] ok
  have out: "lazy_outcome solve opf_size enf lz ?dc 0 (dc', sol')" by (simp add: solve_with_lazy_limits_def)
  then obtain mask sol k rs where
    o: "dc' = ?dc\<lparr>thermal_limit_active := mask\<rparr>" "length mask = length (thermal_limit_active ?dc)"
    "\<forall>e < length mask. mask ! e \<longrightarrow> thermal_limit_active ?dc ! e \<or> enf ! e"
    and s: "solve k dc' = Inr sol" "sol' = sol\<lparr>limit_rounds := Some rs\<rparr>" "length rs = Suc k" "k < max (Suc 0) (max_rounds lz)"
    and clear: "violated (limit_round opf_size dc' sol enf) = 0" "loaded_at dc' sol enf met_loading = []"
    unfolding lazy_outcome_def prod.case by blast
  have sel: "fmax dc' = fmax dc" "dc_m dc' = dc_m dc" "thermal_limit_active dc' = mask"
    "dc'\<lparr>thermal_limit_active := thermal_limit_active dc\<rparr> = dc" by (simp_all add: o(1))
  have mask: "thermal_limit_active dc' ! e \<longrightarrow> enf ! e" if "e < dc_m dc" for e using o(2,3) that len(2) sel(3) by simp
  have viol: "\<not> 1 + LIMIT_VIOLATION_TOL < branch_loading dc' sol e"
    if "e < dc_m dc" "enf ! e" "\<not> fmax dc ! e \<le> 0" for e
    using limit_round_clear [OF clear(1), of e] that len(1) sel(1) by simp
  have met: "thermal_limit_active dc' ! e \<or> \<not> 1 - LIMIT_VIOLATION_TOL \<le> branch_loading dc' sol e"
    if "e < dc_m dc" "enf ! e" "0 < fmax dc ! e" for e
    using loaded_at_clear [OF clear(2), of e] that sel(1,2) by (auto simp: met_loading_def)
  show ?thesis
    by (intro exI [of _ sol] exI [of _ k] exI [of _ rs] conjI s sel(4) allI impI mask viol met) (use s(4) in simp)
qed

definition witness_dc :: dc_network where
  "witness_dc = \<lparr>dc_n = 2, dc_m = 1, dc_k = 1, dc_br_from = [0], dc_br_to = [1], dc_gen_bus = [0], fmax = [1], angmin = [- 1], angmax = [1], gmin = [0],
     gmax = [1], piecewise_costs = [None], demand = [0, 1],
     allow_shed = True, economic = True, generator_capability_active = [True], thermal_limit_active = [True], angle_bound_active = [True], thermal_rated = [False],
     bus_ids = [1, 2], branch_ids = [1], branch_identities = [''branches:0''], gen_ids = [1], bus_source_rows = [Some 0, Some 1], branch_source_rows = [Some 0],
     gen_source_rows = [Some 0], bus_uids = [None, None], branch_uids = [None], gen_uids = [None], linear_rows = [],
     base_mva = 1, dc_diagnostics = [], dc_rest = []\<rparr>"

definition witness_solution :: dc_solution where
  "witness_solution = \<lparr>sol_va = [0, 0], sol_pg = [0], sol_f = [0], psh = [0, 0], nu_bal = [0, 0], lam_ub = [0],
     lam_lb = [0], sol_objective = 0, iterations = [], cost_epigraph = [None],
     limit_rounds = None, linear_values = [], linear_duals = [], sol_rest = []\<rparr>"

definition witness_solve :: "nat \<Rightarrow> dc_network \<Rightarrow> (string, dc_solution) result" where
  "witness_solve k dc = Inr witness_solution"

theorem lazy_limits_sound_witness:
  "\<exists>dc' sol'. solve_with_lazy_limits witness_solve (\<lambda>_. (0, 0)) witness_dc [True] \<lparr>max_rounds = 2, near_binding = 1\<rparr> = Inr (dc', sol') \<and>
     dc'\<lparr>thermal_limit_active := [True]\<rparr> = witness_dc"
proof -
  have "is_ok (solve_with_lazy_limits witness_solve (\<lambda>_. (0, 0)) witness_dc [True] \<lparr>max_rounds = 2, near_binding = 1\<rparr>)"
    by code_simp
  then obtain dc' sol' where ok: "solve_with_lazy_limits witness_solve (\<lambda>_. (0, 0)) witness_dc [True] \<lparr>max_rounds = 2, near_binding = 1\<rparr> = Inr (dc', sol')"
    using is_ok_obtain by fastforce
  have "length [True] = dc_m witness_dc" "length (thermal_limit_active witness_dc) = dc_m witness_dc"
    "thermal_limit_active witness_dc = [True]" by (simp_all add: witness_dc_def)
  with lazy_limits_sound [OF ok] ok show ?thesis by metis
qed

text \<open>Limit options only ever drop limits: the thermal limits a request allows are the declared ones
  that its policy selects (all, the rated ones, or those of the named branches), the angle rows are
  kept or all dropped, nothing else of the model moves, and lazy settings are accepted only with a
  positive round bound and a near-binding fraction in \<open>(0, 1]\<close>.\<close>

theorem limit_options_select:
  assumes "apply_limit_options dc lim = Inr (dc', enf)"
  shows "length enf = length (thermal_limit_active dc) \<and>
    (\<forall>e < length enf. enf ! e \<longleftrightarrow> thermal_limit_active dc ! e \<and> limit_selected dc (thermal lim) e) \<and>
    dc' = dc\<lparr>angle_bound_active := (if angle_difference lim then angle_bound_active dc else map (\<lambda>_. False) (angle_bound_active dc)),
             thermal_limit_active := enf\<rparr> \<and>
    (\<forall>lz. lazy lim = Some lz \<longrightarrow> 0 < max_rounds lz \<and> 0 < near_binding lz \<and> near_binding lz \<le> 1)"
  using apply_limit_options_Inr [OF assms] by blast

theorem limit_options_select_witness:
  "\<exists>dc'. apply_limit_options witness_dc \<lparr>angle_difference = False, thermal = Rated, lazy = None\<rparr> = Inr (dc', [False]) \<and>
     angle_bound_active dc' = [False]"
proof -
  have "map_sum id snd (apply_limit_options witness_dc \<lparr>angle_difference = False, thermal = Rated, lazy = None\<rparr>) = Inr [False]"
    by code_simp
  then obtain dc' where ok: "apply_limit_options witness_dc \<lparr>angle_difference = False, thermal = Rated, lazy = None\<rparr> = Inr (dc', [False])"
    by (cases "apply_limit_options witness_dc \<lparr>angle_difference = False, thermal = Rated, lazy = None\<rparr>") auto
  with limit_options_select [OF ok] show ?thesis by (auto simp: witness_dc_def)
qed



text \<open>the DC OPF entry returns a model and a solution of that very model: the solution is the solver's
  answer on the returned model, apart from the reported rounds. The model never sheds load, carries
  the demand and rating edits of the request and its constraints as rows, and a request for a case
  start is refused.\<close>

theorem dc_opf_solved_model:
  assumes "dc_opf_solved fmt solve opf_size dc0 req = Inr (dc, sol)"
  shows "start req = Flat \<and> \<not> allow_shed dc \<and>
    apply_demand_vector (base_mva dc0) (bus_ids dc0) (bus_uids dc0) (demand dc0) (deltas (req_edits req)) = Inr (demand dc) \<and>
    apply_rating_vector (base_mva dc0) (branch_ids dc0) (branch_uids dc0) (fmax dc0) (rates (req_edits req)) = Inr (fmax dc) \<and>
    length (linear_rows dc) = length (constraints req) \<and>
    (\<exists>k s. solve k dc = Inr s \<and> sol\<lparr>limit_rounds := limit_rounds s\<rparr> = s)"
proof -
  from assms obtain d1 d2 d3 where
    s: "reject_case_start req ''dcopf'' = Inr ()" "apply_demand_deltas (dc0\<lparr>allow_shed := False\<rparr>) (deltas (req_edits req)) = Inr d1"
    "apply_rating_deltas d1 (rates (req_edits req)) = Inr d2" "apply_linear_constraints fmt d2 (constraints req) = Inr d3"
    and tail: "(case limits req of None \<Rightarrow> and_then (solve 0 d3) (\<lambda>sol. Inr (d3, sol))
     | Some lim \<Rightarrow>
         and_then (apply_limit_options d3 lim) (\<lambda>(dc, enforceable).
         case lazy lim of
           None \<Rightarrow> and_then (solve 0 dc) (\<lambda>sol.
             Inr (dc, sol\<lparr>limit_rounds := Some [(limit_round opf_size dc sol enforceable)\<lparr>added := 0\<rparr>]\<rparr>))
         | Some lz \<Rightarrow> solve_with_lazy_limits solve opf_size dc enforceable lz)) = Inr (dc, sol)"
    unfolding dc_opf_solved_def and_then_Inr by auto
  obtain dem where dem: "apply_demand_vector (base_mva dc0) (bus_ids dc0) (bus_uids dc0) (demand dc0) (deltas (req_edits req)) = Inr dem"
    "d1 = dc0\<lparr>allow_shed := False, demand := dem\<rparr>"
    using s(2) by (auto simp: apply_demand_deltas_def and_then_Inr)
  obtain fm where fm: "apply_rating_vector (base_mva dc0) (branch_ids dc0) (branch_uids dc0) (fmax dc0) (rates (req_edits req)) = Inr fm"
    "d2 = d1\<lparr>fmax := fm\<rparr>"
    using s(3) by (auto simp: apply_rating_deltas_def and_then_Inr dem(2))
  from linear_constraints_rows [OF s(4)] obtain rws where rws: "d3 = d2\<lparr>linear_rows := rws\<rparr>" "length rws = length (constraints req)"
    by (auto dest: list_all2_lengthD)
  from solved_tail [OF tail] obtain ang act where "dc = d3\<lparr>angle_bound_active := ang, thermal_limit_active := act\<rparr>"
    and solved: "\<exists>k s. solve k dc = Inr s \<and> sol\<lparr>limit_rounds := limit_rounds s\<rparr> = s" by blast
  then have "allow_shed dc = False" "demand dc = dem" "fmax dc = fm" "linear_rows dc = rws"
    by (simp_all add: rws fm(2) dem(2))
  moreover have "start req = Flat" using s(1) by (cases "start req") (simp_all add: reject_case_start_def)
  ultimately show ?thesis using dem(1) fm(1) rws(2) solved by simp
qed

definition witness_request :: solve_request where
  "witness_request = \<lparr>req_formulation = DcOpf, req_edits = \<lparr>deltas = [], rates = []\<rparr>, start = Flat, constraints = [],
     limits = None, sensitivities = []\<rparr>"

theorem dc_opf_solved_model_witness:
  "\<exists>dc sol. dc_opf_solved (\<lambda>_. []) witness_solve (\<lambda>_. (0, 0)) witness_dc witness_request = Inr (dc, sol) \<and> \<not> allow_shed dc"
proof -
  have "is_ok (dc_opf_solved (\<lambda>_. []) witness_solve (\<lambda>_. (0, 0)) witness_dc witness_request)" by code_simp
  then obtain dc sol where ok: "dc_opf_solved (\<lambda>_. []) witness_solve (\<lambda>_. (0, 0)) witness_dc witness_request = Inr (dc, sol)"
    using is_ok_obtain by fastforce
  from dc_opf_solved_model [OF ok] ok show ?thesis by blast
qed

end
