(* ===== verification/Objective.thy ===== *)
theory Objective
  imports Edits
begin

text \<open>
  Outer objectives and feasible interventions of a Study
  (\<open>src/crates/tellegen/src/objective.rs\<close>): the objective expression with its bounded validation
  walk, its value and chain-rule seed at an exact response, the decision space with its validation,
  and the feasibility of a vector of changes. Identifier lengths count bytes, one per character.
\<close>

section \<open>Objectives and decisions\<close>

record observable_weight =
  ow_element :: ElementKey
  ow_weight :: f64

datatype StudyObjective =
    WeightedObservable Operand "observable_weight list"
  | Sum "StudyObjective list"
  | Scale f64 StudyObjective
  | SquaredTarget f64 StudyObjective
  | InterventionPenalty string f64 f64

datatype Intervention = BranchRating | ActiveDemand

fun intervention_parameter :: "Intervention \<Rightarrow> Parameter" where
  "intervention_parameter BranchRating = LineLimit"
| "intervention_parameter ActiveDemand = Demand Active"

definition intervention_units :: "Intervention \<Rightarrow> Problem \<Rightarrow> string" where
  "intervention_units i p = (if i = BranchRating \<and> p = Socwr then ''MVA'' else ''MW'')"

record decision_variable =
  dv_id :: string
  dv_element :: ElementKey
  intervention :: Intervention
  lower :: f64
  upper :: f64
  increment :: f64
  budget_weight :: f64

datatype DemandConstraint = Placement f64 | Redistribution

record decision_space =
  ds_variables :: "decision_variable list"
  total_budget :: f64
  max_changed_elements :: nat
  ds_demand :: "DemandConstraint option"

record objective_evaluation =
  ev_value :: f64
  observables :: "(Operand \<times> ElementKey \<times> f64) list"
  direct :: "(string, f64) btree"

definition ev_constant :: "f64 \<Rightarrow> objective_evaluation" where
  "ev_constant v = \<lparr>ev_value = v, observables = [], direct = []\<rparr>"

definition scale_derivative :: "f64 \<Rightarrow> objective_evaluation \<Rightarrow> objective_evaluation" where
  "scale_derivative k ev = ev\<lparr>observables := map (\<lambda>(o1, e, w). (o1, e, w * k)) (observables ev),
                             direct := map (\<lambda>(d, v). (d, v * k)) (direct ev)\<rparr>"

definition ev_finite :: "objective_evaluation \<Rightarrow> bool" where
  "ev_finite ev \<longleftrightarrow> is_finite (ev_value ev) \<and> (\<forall>(_, _, w) \<in> set (observables ev). is_finite w) \<and>
     (\<forall>(_, v) \<in> set (direct ev). is_finite v)"

section \<open>Validation of an objective\<close>

fun walk :: "string set \<Rightarrow> StudyObjective \<Rightarrow> nat \<Rightarrow> nat \<Rightarrow> (string, nat) result"
and walk_terms :: "string set \<Rightarrow> StudyObjective list \<Rightarrow> nat \<Rightarrow> nat \<Rightarrow> (string, nat) result" where
  "walk ids expr depth cnt =
     (let cnt = cnt + 1
      in if 16 < depth \<or> 65536 < cnt then Inl ''objective exceeds 16 levels or 65536 terms''
         else case expr of
           WeightedObservable _ weights \<Rightarrow>
             let cnt = cnt + length weights
             in if weights = [] \<or> 65536 < cnt \<or> (\<exists>w \<in> set weights. \<not> is_finite (ow_weight w))
                then Inl ''observable weights must be nonempty, finite and bounded'' else Inr cnt
         | Sum terms \<Rightarrow>
             if terms = [] then Inl ''objective sum requires a term'' else walk_terms ids terms (depth + 1) cnt
         | Scale factor expression \<Rightarrow>
             if \<not> is_finite factor then Inl ''objective scale must be finite'' else walk ids expression (depth + 1) cnt
         | SquaredTarget target expression \<Rightarrow>
             if \<not> is_finite target then Inl ''objective target must be finite'' else walk ids expression (depth + 1) cnt
         | InterventionPenalty decision linear quadratic \<Rightarrow>
             if decision \<notin> ids \<or> \<not> is_finite linear \<or> \<not> is_finite quadratic
             then Inl ''intervention penalty requires a declared decision and finite coefficients'' else Inr cnt)"
| "walk_terms ids [] depth cnt = Inr cnt"
| "walk_terms ids (t # ts) depth cnt = and_then (walk ids t depth cnt) (walk_terms ids ts depth)"

declare walk.simps [simp del]

definition validate_objective :: "StudyObjective \<Rightarrow> decision_space \<Rightarrow> (string, unit) result" where
  "validate_objective obj space =
     and_then (walk (set (map dv_id (ds_variables space))) obj 0 0) (\<lambda>_. Inr ())"

section \<open>Evaluation\<close>

definition show_power :: "Power \<Rightarrow> string" where
  "show_power p = (case p of Active \<Rightarrow> ''Active'' | Reactive \<Rightarrow> ''Reactive'')"

definition show_operand :: "Operand \<Rightarrow> string" where
  "show_operand o1 =
     (case o1 of
        Price p \<Rightarrow> ''Price('' @ show_power p @ '')''
      | Dispatch p \<Rightarrow> ''Dispatch('' @ show_power p @ '')''
      | Flow p e \<Rightarrow> ''Flow { power: '' @ show_power p @ '', end: '' @ (case e of From \<Rightarrow> ''From'' | To \<Rightarrow> ''To'') @ '' }''
      | Voltage k \<Rightarrow> ''Voltage('' @ (case k of Magnitude \<Rightarrow> ''Magnitude'' | Angle \<Rightarrow> ''Angle'' | Squared \<Rightarrow> ''Squared''
            | ProductReal \<Rightarrow> ''ProductReal'' | ProductImag \<Rightarrow> ''ProductImag'') @ '')'')"

definition bus_value :: "nat \<Rightarrow> bus_scalar list option \<Rightarrow> f64 option" where
  "bus_value i vs = Option.bind vs (\<lambda>v. map_option bs_value (find (\<lambda>b. bs_bus b = i) v))"

definition observable_value :: "solve_response \<Rightarrow> Operand \<Rightarrow> nat \<Rightarrow> f64 option" where
  "observable_value resp operand i =
     (case operand of
        Price Active \<Rightarrow> bus_value i (lmp resp)
      | Price Reactive \<Rightarrow> bus_value i (lmp_q resp)
      | Voltage Magnitude \<Rightarrow> bus_value i (vm resp)
      | Voltage Angle \<Rightarrow> bus_value i (va resp)
      | Voltage Squared \<Rightarrow> bus_value i (resp_w resp)
      | Voltage k \<Rightarrow>
          Option.bind (if k = ProductReal then wr resp else wi resp)
            (\<lambda>v. map_option brs_value (find (\<lambda>b. brs_branch b = i) v))
      | Dispatch p \<Rightarrow>
          Option.bind (dispatch resp) (\<lambda>v. Option.bind (find (\<lambda>g. gd_gen g = i) v)
            (\<lambda>g. case p of Active \<Rightarrow> Some (pg g) | Reactive \<Rightarrow> qg g))
      | Flow p e \<Rightarrow>
          Option.bind (flows resp) (\<lambda>v. Option.bind (find (\<lambda>b. bf_branch b = i) v)
            (\<lambda>b. case (p, e) of
                (Active, From) \<Rightarrow> Some (pf b)
              | (Active, To) \<Rightarrow> (case pt b of Some x \<Rightarrow> Some x
                  | None \<Rightarrow> if resp_formulation resp = DcOpf then Some (- pf b) else None)
              | (Reactive, From) \<Rightarrow> qf b
              | (Reactive, To) \<Rightarrow> qt b)))"

definition observable :: "solve_response \<Rightarrow> network \<Rightarrow> Operand \<Rightarrow> ElementKey \<Rightarrow> (string, f64) result" where
  "observable resp net operand key =
     and_then (source_element_id net (operand_axis operand) key) (\<lambda>i.
     ok_or (show_operand operand @ '' is unavailable for '' @ show_key key @ '' in this exact solution'')
       (case observable_value resp operand i of None \<Rightarrow> None | Some v \<Rightarrow> if is_finite v then Some v else None))"

definition weigh :: "solve_response \<Rightarrow> network \<Rightarrow> Operand \<Rightarrow> objective_evaluation \<Rightarrow> observable_weight
     \<Rightarrow> (string, objective_evaluation) result" where
  "weigh resp net operand out tm =
     and_then (observable resp net operand (ow_element tm)) (\<lambda>value.
     and_then (if operand = Voltage Magnitude \<and> resp_formulation resp = Socwr
               then (if value \<le> 0 then Inl ''voltage magnitude derivative is singular at zero squared voltage''
                     else Inr (Voltage Squared, ow_weight tm / (f64_two * value)))
               else Inr (operand, ow_weight tm)) (\<lambda>(seed, weight).
     Inr (out\<lparr>ev_value := ev_value out + ow_weight tm * value,
              observables := observables out @ [(seed, ow_element tm, weight)]\<rparr>)))"

definition merge_eval :: "objective_evaluation \<Rightarrow> objective_evaluation \<Rightarrow> objective_evaluation" where
  "merge_eval out child =
     \<lparr>ev_value = ev_value out + ev_value child, observables = observables out @ observables child,
      direct = fold (\<lambda>(k, v). bt_modify k 0 (\<lambda>x. x + v)) (direct child) (direct out)\<rparr>"

definition finish_eval :: "objective_evaluation \<Rightarrow> (string, objective_evaluation) result" where
  "finish_eval out =
     and_then (err_if (\<not> ev_finite out) ''objective or derivative overflowed; adjust weights and units'')
       (\<lambda>_. Inr (out\<lparr>observables := filter (\<lambda>(_, _, w). \<not> f64_eq w 0) (observables out)\<rparr>))"

fun evaluate :: "solve_response \<Rightarrow> network \<Rightarrow> (string, f64) btree \<Rightarrow> StudyObjective \<Rightarrow> (string, objective_evaluation) result"
and evaluate_terms :: "solve_response \<Rightarrow> network \<Rightarrow> (string, f64) btree \<Rightarrow> objective_evaluation \<Rightarrow> StudyObjective list
     \<Rightarrow> (string, objective_evaluation) result" where
  "evaluate resp net us (WeightedObservable operand weights) =
     and_then (try_fold (weigh resp net operand) (ev_constant 0) weights) finish_eval"
| "evaluate resp net us (Sum terms) = and_then (evaluate_terms resp net us (ev_constant 0) terms) finish_eval"
| "evaluate resp net us (Scale factor expression) =
     and_then (evaluate resp net us expression) (\<lambda>child.
       finish_eval (scale_derivative factor (child\<lparr>ev_value := ev_value child * factor\<rparr>)))"
| "evaluate resp net us (SquaredTarget target expression) =
     and_then (evaluate resp net us expression) (\<lambda>child.
       let residual = ev_value child - target
       in finish_eval (scale_derivative (f64_two * residual) (child\<lparr>ev_value := residual * residual\<rparr>)))"
| "evaluate resp net us (InterventionPenalty decision linear quadratic) =
     and_then (ok_or (''missing intervention '' @ decision) (map_of us decision)) (\<lambda>u.
       finish_eval ((ev_constant (linear * u + quadratic * u * u))
         \<lparr>direct := [(decision, linear + f64_two * quadratic * u)]\<rparr>))"
| "evaluate_terms resp net us out [] = Inr out"
| "evaluate_terms resp net us out (t # ts) =
     and_then (evaluate resp net us t) (\<lambda>child. evaluate_terms resp net us (merge_eval out child) ts)"

section \<open>The decision space\<close>

definition show_intervention :: "Intervention \<Rightarrow> string" where
  "show_intervention i = (case i of BranchRating \<Rightarrow> ''BranchRating'' | ActiveDemand \<Rightarrow> ''ActiveDemand'')"

record space_scan =
  sc_ids :: "string list"
  sc_targets :: "(string \<times> ElementKey) list"
  sc_demands :: nat

definition check_variable :: "Problem \<Rightarrow> space_scan \<Rightarrow> decision_variable \<Rightarrow> (string, space_scan) result" where
  "check_variable formulation sc v =
     and_then (err_if (dv_id v = [] \<or> 128 < length (dv_id v) \<or> dv_id v \<in> set (sc_ids sc) \<or>
                       (show_intervention (intervention v), dv_element v) \<in> set (sc_targets sc))
        ''decision identities and targets must be nonempty and unique'') (\<lambda>_.
     and_then (err_if ((\<exists>x \<in> set [lower v, upper v, increment v, budget_weight v]. \<not> is_finite x) \<or>
                       upper v < lower v \<or> increment v \<le> 0 \<or> budget_weight v < 0)
        (''invalid bounds, increment or budget weight for '' @ dv_id v)) (\<lambda>_.
     and_then (err_if (intervention v = BranchRating \<and> \<not> (formulation = DcOpf \<or> formulation = Socwr))
        ''rating planning requires a DC OPF or SOCWR formulation'') (\<lambda>_.
     Inr \<lparr>sc_ids = dv_id v # sc_ids sc,
          sc_targets = (show_intervention (intervention v), dv_element v) # sc_targets sc,
          sc_demands = (if intervention v = ActiveDemand then sc_demands sc + 1 else sc_demands sc)\<rparr>)))"

definition check_demand_total :: "decision_space \<Rightarrow> nat \<Rightarrow> (string, unit) result" where
  "check_demand_total space demands =
     (case ds_demand space of
        Some (Placement increase_mw) \<Rightarrow>
          err_if (demands = 0 \<or> \<not> is_finite increase_mw \<or> increase_mw \<le> 0 \<or>
                  (\<exists>v \<in> set (ds_variables space). intervention v = ActiveDemand \<and> lower v < 0))
            ''placement requires demand variables, a positive total and nonnegative changes''
      | Some Redistribution \<Rightarrow> err_if (demands < 2) ''redistribution requires at least two demand decisions''
      | None \<Rightarrow> err_if (0 < demands) ''demand planning requires an explicit total constraint'')"

text \<open>\<open>conic\<close> states whether the build has the SOCWR solver.\<close>

definition validate_space :: "bool \<Rightarrow> decision_space \<Rightarrow> Problem \<Rightarrow> (string, unit) result" where
  "validate_space conic space formulation =
     and_then (err_if (ds_variables space = [] \<or> 65536 < length (ds_variables space))
        ''decision space requires 1 to 65536 variables'') (\<lambda>_.
     and_then (err_if (\<not> is_finite (total_budget space) \<or> total_budget space < 0 \<or> max_changed_elements space = 0 \<or>
                       length (ds_variables space) < max_changed_elements space)
        ''decision budget and cardinality are invalid'') (\<lambda>_.
     and_then (try_fold (check_variable formulation) \<lparr>sc_ids = [], sc_targets = [], sc_demands = 0\<rparr> (ds_variables space)) (\<lambda>sc.
     and_then (err_if (formulation = DcPf \<or> formulation = Acopf \<or> (formulation = Socwr \<and> \<not> conic))
        ''this build does not support differentiable planning for the formulation'') (\<lambda>_.
     check_demand_total space (sc_demands sc)))))"

definition in_variable :: "f64 \<Rightarrow> decision_variable \<Rightarrow> f64 \<Rightarrow> bool" where
  "in_variable tolerance v x \<longleftrightarrow>
     \<not> (\<not> is_finite x \<or> x < lower v - tolerance \<or> upper v + tolerance < x \<or>
        tolerance < \<bar>x / increment v - f64_round (x / increment v)\<bar> * increment v)"

fun limits_scan :: "f64 \<Rightarrow> f64 \<Rightarrow> nat \<Rightarrow> (decision_variable \<times> f64) list \<Rightarrow> (f64 \<times> nat) option" where
  "limits_scan tolerance budget cnt [] = Some (budget, cnt)"
| "limits_scan tolerance budget cnt ((v, x) # rest) =
     (if in_variable tolerance v x
      then limits_scan tolerance (budget + budget_weight v * \<bar>x\<bar>) (cnt + (if tolerance < \<bar>x\<bar> then 1 else 0)) rest
      else None)"

definition within_limits :: "decision_space \<Rightarrow> f64 list \<Rightarrow> f64 \<Rightarrow> bool" where
  "within_limits space changes tolerance =
     (if length changes \<noteq> length (ds_variables space) \<or> \<not> is_finite tolerance \<or> tolerance < 0 then False
      else case limits_scan tolerance 0 0 (zip (ds_variables space) changes) of
             None \<Rightarrow> False
           | Some (budget, cnt) \<Rightarrow> budget \<le> total_budget space + tolerance \<and> cnt \<le> max_changed_elements space)"

definition demand_change :: "decision_space \<Rightarrow> f64 list \<Rightarrow> f64" where
  "demand_change space changes =
     f64_sum (map snd (filter (\<lambda>(v, _). intervention v = ActiveDemand) (zip (ds_variables space) changes)))"

definition feasible :: "decision_space \<Rightarrow> f64 list \<Rightarrow> f64 \<Rightarrow> bool" where
  "feasible space changes tolerance \<longleftrightarrow>
     (let total = (case ds_demand space of Some (Placement mw) \<Rightarrow> mw | _ \<Rightarrow> 0)
      in within_limits space changes tolerance \<and> \<bar>demand_change space changes - total\<bar> \<le> tolerance)"

section \<open>What a validated objective is\<close>

fun obj_size :: "StudyObjective \<Rightarrow> nat" and terms_size :: "StudyObjective list \<Rightarrow> nat" where
  "obj_size (WeightedObservable _ ws) = 1 + length ws"
| "obj_size (Sum ts) = 1 + terms_size ts"
| "obj_size (Scale _ e) = 1 + obj_size e"
| "obj_size (SquaredTarget _ e) = 1 + obj_size e"
| "obj_size (InterventionPenalty _ _ _) = 1"
| "terms_size [] = 0"
| "terms_size (t # ts) = obj_size t + terms_size ts"

fun obj_depth :: "StudyObjective \<Rightarrow> nat" and terms_depth :: "StudyObjective list \<Rightarrow> nat" where
  "obj_depth (Sum ts) = 1 + terms_depth ts"
| "obj_depth (Scale _ e) = 1 + obj_depth e"
| "obj_depth (SquaredTarget _ e) = 1 + obj_depth e"
| "obj_depth _ = 0"
| "terms_depth [] = 0"
| "terms_depth (t # ts) = max (obj_depth t) (terms_depth ts)"

fun obj_ok :: "string set \<Rightarrow> StudyObjective \<Rightarrow> bool" where
  "obj_ok ids (WeightedObservable _ ws) \<longleftrightarrow> ws \<noteq> [] \<and> (\<forall>w \<in> set ws. is_finite (ow_weight w))"
| "obj_ok ids (Sum ts) \<longleftrightarrow> ts \<noteq> [] \<and> (\<forall>t \<in> set ts. obj_ok ids t)"
| "obj_ok ids (Scale k e) \<longleftrightarrow> is_finite k \<and> obj_ok ids e"
| "obj_ok ids (SquaredTarget k e) \<longleftrightarrow> is_finite k \<and> obj_ok ids e"
| "obj_ok ids (InterventionPenalty d l q) \<longleftrightarrow> d \<in> ids \<and> is_finite l \<and> is_finite q"

lemma terms_depth_bound: "ts \<noteq> [] \<Longrightarrow> (\<forall>t \<in> set ts. d + obj_depth t \<le> b) \<longleftrightarrow> d + terms_depth ts \<le> b"
proof (induction ts)
  case (Cons t ts)
  then show ?case by (cases "ts = []") auto
qed simp

lemma obj_size_pos: "0 < obj_size e"
  by (cases e) simp_all

lemma walk_Inr:
  "walk ids e d c = Inr c' \<longleftrightarrow> obj_ok ids e \<and> d + obj_depth e \<le> 16 \<and> c + obj_size e \<le> 65536 \<and> c' = c + obj_size e"
  "c \<le> 65536 \<Longrightarrow> walk_terms ids ts d c = Inr c' \<longleftrightarrow>
     (\<forall>t \<in> set ts. obj_ok ids t \<and> d + obj_depth t \<le> 16) \<and> c + terms_size ts \<le> 65536 \<and> c' = c + terms_size ts"
proof (induction ids e d c and ids ts d c arbitrary: c' and c' rule: walk_walk_terms.induct)
  case (1 ids e d c)
  show ?case
  proof (cases "16 < d \<or> 65536 < c + 1")
    case True
    then show ?thesis using obj_size_pos [of e] by (auto simp: walk.simps [of ids e])
  next
    case False
    note w = walk.simps [of ids e d c, unfolded Let_def if_not_P [OF False]]
    from False have dc: "d \<le> 16" "c + 1 \<le> 65536" by simp_all
    show ?thesis
    proof (cases e)
      case (WeightedObservable o1 ws)
      show ?thesis unfolding w using dc by (auto simp: WeightedObservable)
    next
      case (Sum ts)
      show ?thesis
      proof (cases "ts = []")
        case False': False
        have "walk ids e d c = walk_terms ids ts (d + 1) (c + 1)" by (subst w) (simp add: Sum False')
        then show ?thesis using "1.IH"(1) [OF refl False Sum False' dc(2)] terms_depth_bound [OF False', of "d + 1" 16] False'
          by (auto simp: Sum)
      qed (unfold w, simp add: Sum)
    next
      case (Scale k t)
      show ?thesis
      proof (cases "is_finite k")
        case True
        have "walk ids e d c = walk ids t (d + 1) (c + 1)" by (subst w) (simp add: Scale True)
        then show ?thesis using "1.IH"(2) [OF refl False Scale] True by (auto simp: Scale)
      qed (unfold w, simp add: Scale)
    next
      case (SquaredTarget k t)
      show ?thesis
      proof (cases "is_finite k")
        case True
        have "walk ids e d c = walk ids t (d + 1) (c + 1)" by (subst w) (simp add: SquaredTarget True)
        then show ?thesis using "1.IH"(3) [OF refl False SquaredTarget] True by (auto simp: SquaredTarget)
      qed (unfold w, simp add: SquaredTarget)
    next
      case (InterventionPenalty x l q)
      show ?thesis unfolding w using dc by (auto simp: InterventionPenalty)
    qed
  qed
next
  case (3 ids t ts d c)
  show ?case
  proof (cases "obj_ok ids t \<and> d + obj_depth t \<le> 16 \<and> c + obj_size t \<le> 65536")
    case True
    then have "walk ids t d c = Inr (c + obj_size t)" using "3.IH"(1) by blast
    then show ?thesis using "3.IH"(2) [of "c + obj_size t"] True by auto
  next
    case False
    then show ?thesis using "3.IH"(1) by (auto simp: and_then_Inr)
  qed
qed auto

section \<open>What a validated decision space is\<close>

definition variable_ok :: "Problem \<Rightarrow> decision_variable \<Rightarrow> bool" where
  "variable_ok formulation v \<longleftrightarrow> dv_id v \<noteq> [] \<and> length (dv_id v) \<le> 128 \<and>
     is_finite (lower v) \<and> is_finite (upper v) \<and> is_finite (increment v) \<and> is_finite (budget_weight v) \<and>
     lower v \<le> upper v \<and> 0 < increment v \<and> 0 \<le> budget_weight v \<and>
     (intervention v = BranchRating \<longrightarrow> formulation \<in> {DcOpf, Socwr})"

lemma finite_not_nan: "is_finite x \<Longrightarrow> \<not> is_nan x"
  by (simp add: is_finite_def is_nan_def)

abbreviation target :: "decision_variable \<Rightarrow> Intervention \<times> ElementKey" where
  "target v \<equiv> (intervention v, dv_element v)"

lemma show_intervention_inject: "show_intervention i = show_intervention j \<longleftrightarrow> i = j"
  by (cases i; cases j) (simp_all add: show_intervention_def)

definition scan_of :: "decision_variable list \<Rightarrow> space_scan" where
  "scan_of vs = \<lparr>sc_ids = rev (map dv_id vs),
     sc_targets = rev (map (\<lambda>v. (show_intervention (intervention v), dv_element v)) vs),
     sc_demands = length (filter (\<lambda>v. intervention v = ActiveDemand) vs)\<rparr>"

lemma check_variable_Inr:
  "check_variable formulation (scan_of vs) v = Inr sc \<longleftrightarrow>
     variable_ok formulation v \<and> dv_id v \<notin> set (map dv_id vs) \<and> target v \<notin> set (map target vs) \<and> sc = scan_of (vs @ [v])"
proof -
  have nan: "is_finite x \<Longrightarrow> is_finite y \<Longrightarrow> \<not> x < y \<longleftrightarrow> y \<le> x" for x y
    by (simp add: f64_not_less finite_not_nan)
  have zero: "is_finite (0 :: f64)" by code_simp
  have le: "is_finite x \<Longrightarrow> \<not> x \<le> 0 \<longleftrightarrow> 0 < x" for x :: f64
    using f64_not_less [of 0 x] finite_not_nan zero by blast
  show ?thesis
    using nan [of "upper v" "lower v"] le [of "increment v"] nan [OF _ zero, of "budget_weight v"]
    by (auto simp: check_variable_def variable_ok_def scan_of_def result_simps show_intervention_inject)
qed

lemma check_variables_fold:
  "try_fold (check_variable formulation) (scan_of us) vs = Inr sc \<longleftrightarrow>
     (\<forall>v \<in> set vs. variable_ok formulation v) \<and> distinct (map dv_id vs) \<and> distinct (map target vs) \<and>
     set (map dv_id us) \<inter> set (map dv_id vs) = {} \<and> set (map target us) \<inter> set (map target vs) = {} \<and>
     sc = scan_of (us @ vs)"
proof (induction vs arbitrary: us)
  case (Cons v vs)
  have "try_fold (check_variable formulation) (scan_of us) (v # vs) = Inr sc \<longleftrightarrow>
     (variable_ok formulation v \<and> dv_id v \<notin> set (map dv_id us) \<and> target v \<notin> set (map target us)) \<and>
     try_fold (check_variable formulation) (scan_of (us @ [v])) vs = Inr sc"
    by (auto simp: and_then_Inr check_variable_Inr)
  also have "\<dots> \<longleftrightarrow> (\<forall>u \<in> set (v # vs). variable_ok formulation u) \<and> distinct (map dv_id (v # vs)) \<and> distinct (map target (v # vs)) \<and>
     set (map dv_id us) \<inter> set (map dv_id (v # vs)) = {} \<and> set (map target us) \<inter> set (map target (v # vs)) = {} \<and>
     sc = scan_of (us @ v # vs)"
    unfolding Cons.IH by auto
  finally show ?case .
qed auto

definition demand_total_ok :: "decision_space \<Rightarrow> bool" where
  "demand_total_ok space \<longleftrightarrow>
     (let ds = filter (\<lambda>v. intervention v = ActiveDemand) (ds_variables space)
      in case ds_demand space of
           None \<Rightarrow> ds = []
         | Some Redistribution \<Rightarrow> 2 \<le> length ds
         | Some (Placement mw) \<Rightarrow> ds \<noteq> [] \<and> is_finite mw \<and> \<not> mw \<le> 0 \<and> (\<forall>v \<in> set ds. \<not> lower v < 0))"

lemma check_demand_total_Inr:
  "check_demand_total space (length (filter (\<lambda>v. intervention v = ActiveDemand) (ds_variables space))) = Inr () \<longleftrightarrow>
     demand_total_ok space"
  by (auto simp: check_demand_total_def demand_total_ok_def Let_def result_simps split: option.splits DemandConstraint.splits)

section \<open>What an evaluation returns\<close>

fun seeds :: "Problem \<Rightarrow> StudyObjective \<Rightarrow> (Operand \<times> ElementKey) set" where
  "seeds p (WeightedObservable o1 ws) =
     (\<lambda>w. (if o1 = Voltage Magnitude \<and> p = Socwr then Voltage Squared else o1, ow_element w)) ` set ws"
| "seeds p (Sum ts) = (\<Union>t \<in> set ts. seeds p t)"
| "seeds p (Scale _ e) = seeds p e"
| "seeds p (SquaredTarget _ e) = seeds p e"
| "seeds p (InterventionPenalty _ _ _) = {}"

fun decisions :: "StudyObjective \<Rightarrow> string set" where
  "decisions (WeightedObservable _ _) = {}"
| "decisions (Sum ts) = (\<Union>t \<in> set ts. decisions t)"
| "decisions (Scale _ e) = decisions e"
| "decisions (SquaredTarget _ e) = decisions e"
| "decisions (InterventionPenalty d _ _) = {d}"

definition names :: "(Operand \<times> ElementKey) set \<Rightarrow> string set \<Rightarrow> objective_evaluation \<Rightarrow> bool" where
  "names S D ev \<longleftrightarrow> (\<forall>(o1, k, w) \<in> set (observables ev). (o1, k) \<in> S) \<and> bt_ok (direct ev) \<and> (\<forall>(d, v) \<in> set (direct ev). d \<in> D)"

lemma names_mono: "names S D ev \<Longrightarrow> S \<subseteq> S' \<Longrightarrow> D \<subseteq> D' \<Longrightarrow> names S' D' ev"
  by (fastforce simp: names_def)

lemma names_scale: "names S D ev \<Longrightarrow> names S D (scale_derivative k (ev\<lparr>ev_value := v\<rparr>))"
proof -
  have keys: "map fst (map (\<lambda>(d, v). (d, v * k)) m) = map fst m" for m :: "(string, f64) btree"
    by (induction m) auto
  assume "names S D ev"
  then show ?thesis unfolding names_def scale_derivative_def
    by (simp add: keys [unfolded map_map comp_def]) (auto simp: case_prod_beta comp_def)
qed

lemma names_finish: "finish_eval ev = Inr ev' \<Longrightarrow> names S D ev \<Longrightarrow> names S D ev'"
  by (auto simp: finish_eval_def names_def result_simps)

lemma fold_modify_keys:
  "bt_ok m \<Longrightarrow> bt_ok (fold (\<lambda>(k, v). bt_modify k 0 (\<lambda>x. x + v)) xs m) \<and>
     fst ` set (fold (\<lambda>(k, v). bt_modify k 0 (\<lambda>x. x + v)) xs m) = fst ` set m \<union> fst ` set xs" for m :: "(string, f64) btree"
proof (induction xs arbitrary: m)
  case (Cons x xs)
  obtain k v where x: "x = (k, v)" by (cases x)
  let ?m = "bt_modify k 0 (\<lambda>x. x + v) m"
  have "bt_ok ?m" "fst ` set ?m = insert k (fst ` set m)"
    using Cons.prems by (simp_all only: bt_ok_modify bt_modify_def set_bt_insert bt_ok_insert)
  with Cons.IH [of ?m] show ?case by (auto simp: x)
qed simp

lemma names_merge:
  assumes "names S D out" "names S D child"
  shows "names S D (merge_eval out child)"
proof -
  let ?d = "fold (\<lambda>(k, v). bt_modify k 0 (\<lambda>x. x + v)) (direct child) (direct out)"
  have d: "bt_ok ?d" "fst ` set ?d = fst ` set (direct out) \<union> fst ` set (direct child)"
    using fold_modify_keys [of "direct out" "direct child"] assms(1) by (simp_all add: names_def)
  have "k \<in> D" if "(k, v) \<in> set ?d" for k v
  proof -
    have "k \<in> fst ` set ?d" using that by force
    then show ?thesis using assms unfolding d(2) by (auto simp: names_def)
  qed
  with d(1) assms show ?thesis by (auto simp: names_def merge_eval_def)
qed

lemma weigh_names:
  assumes "weigh resp net o1 out w = Inr out'" "names S D out"
    and "(if o1 = Voltage Magnitude \<and> resp_formulation resp = Socwr then Voltage Squared else o1, ow_element w) \<in> S"
  shows "names S D out'"
  using assms by (auto simp: weigh_def names_def result_simps split: if_splits)

lemma evaluate_names:
  "evaluate resp net us obj = Inr ev \<Longrightarrow> names (seeds (resp_formulation resp) obj) (decisions obj \<inter> dom (map_of us)) ev"
  "evaluate_terms resp net us out ts = Inr ev \<Longrightarrow> names S D out \<Longrightarrow>
     (\<Union>t \<in> set ts. seeds (resp_formulation resp) t) \<subseteq> S \<Longrightarrow> (\<Union>t \<in> set ts. decisions t) \<inter> dom (map_of us) \<subseteq> D \<Longrightarrow> names S D ev"
proof (induction resp net us obj and resp net us out ts arbitrary: ev and ev S D rule: evaluate_evaluate_terms.induct)
  case (1 resp net us o1 ws)
  let ?S = "seeds (resp_formulation resp) (WeightedObservable o1 ws)"
  from "1.prems" obtain out where out: "try_fold (weigh resp net o1) (ev_constant 0) ws = Inr out" "finish_eval out = Inr ev"
    by (auto simp: and_then_Inr)
  have "names ?S {} out"
    by (rule try_fold_invariant [where I = "names ?S {}", OF out(1)])
      (auto simp: ev_constant_def names_def [of _ _ "\<lparr>ev_value = _, observables = _, direct = _\<rparr>"] elim!: weigh_names)
  then show ?case using names_finish [OF out(2)] by (simp add: names_mono)
next
  case (2 resp net us ts)
  from "2.prems" obtain out where out: "evaluate_terms resp net us (ev_constant 0) ts = Inr out" "finish_eval out = Inr ev"
    by (auto simp: and_then_Inr)
  have "names (seeds (resp_formulation resp) (Sum ts)) (decisions (Sum ts) \<inter> dom (map_of us)) out"
    by (rule "2.IH" [OF out(1)]) (auto simp: names_def ev_constant_def)
  then show ?case by (rule names_finish [OF out(2)])
next
  case (3 resp net us k e)
  then obtain child where child: "evaluate resp net us e = Inr child"
    "finish_eval (scale_derivative k (child\<lparr>ev_value := ev_value child * k\<rparr>)) = Inr ev" by (auto simp: and_then_Inr)
  have "names (seeds (resp_formulation resp) e) (decisions e \<inter> dom (map_of us)) child" by (rule "3.IH" [OF child(1)])
  then show ?case unfolding seeds.simps decisions.simps by (intro names_finish [OF child(2)] names_scale)
next
  case (4 resp net us k e)
  then obtain child where child: "evaluate resp net us e = Inr child"
    "finish_eval (scale_derivative (f64_two * (ev_value child - k))
       (child\<lparr>ev_value := (ev_value child - k) * (ev_value child - k)\<rparr>)) = Inr ev" by (auto simp: and_then_Inr Let_def)
  have "names (seeds (resp_formulation resp) e) (decisions e \<inter> dom (map_of us)) child" by (rule "4.IH" [OF child(1)])
  then show ?case unfolding seeds.simps decisions.simps by (intro names_finish [OF child(2)] names_scale)
next
  case (5 resp net us d l q)
  then obtain u where u: "map_of us d = Some u" "finish_eval ((ev_constant (l * u + q * u * u))
         \<lparr>direct := [(d, l + f64_two * q * u)]\<rparr>) = Inr ev" by (auto simp: result_simps)
  show ?case by (rule names_finish [OF u(2)]) (use u(1) in \<open>auto simp: names_def ev_constant_def\<close>)
next
  case (7 resp net us out t ts)
  from "7.prems"(1) obtain child where child: "evaluate resp net us t = Inr child"
    "evaluate_terms resp net us (merge_eval out child) ts = Inr ev" by (auto simp: and_then_Inr)
  have "names S D child"
    by (rule names_mono [OF "7.IH"(1) [OF child(1)]]) (use "7.prems"(3,4) in auto)
  then have "names S D (merge_eval out child)" by (rule names_merge [OF "7.prems"(2)])
  then show ?case
    by (rule "7.IH"(2) [OF child]) (use "7.prems"(3,4) in auto)
qed auto

lemma evaluate_finished: "evaluate resp net us obj = Inr ev \<Longrightarrow> \<exists>out. finish_eval out = Inr ev"
  by (cases obj) (auto simp: and_then_Inr Let_def)

lemma finish_eval_finite:
  "finish_eval out = Inr ev \<Longrightarrow> ev_finite ev \<and> (\<forall>(o1, k, w) \<in> set (observables ev). \<not> f64_eq w 0)"
  by (auto simp: finish_eval_def ev_finite_def result_simps)

section \<open>Properties\<close>

text \<open>C31: the running depth and term counters of the validation walk accept exactly the objectives that are at
  most 16 levels deep, hold at most 65536 nodes and weights, have no empty sum or weight list, only
  finite coefficients, and penalize only declared decisions.\<close>

theorem validate_objective_exact:
  "validate_objective obj space = Inr () \<longleftrightarrow>
     obj_ok (set (map dv_id (ds_variables space))) obj \<and> obj_depth obj \<le> 16 \<and> obj_size obj \<le> 65536"
  by (auto simp: validate_objective_def and_then_Inr walk_Inr(1))

text \<open>C32: a decision space is accepted exactly when it has 1 to 65536 well-formed variables with unique ids and
  unique targets, a finite nonnegative budget, a cardinality between one and the number of
  variables, a formulation the build can differentiate, and a demand total that fits its demand
  variables.\<close>

theorem validate_space_exact:
  "validate_space conic space formulation = Inr () \<longleftrightarrow>
     0 < length (ds_variables space) \<and> length (ds_variables space) \<le> 65536 \<and>
     is_finite (total_budget space) \<and> \<not> total_budget space < 0 \<and>
     0 < max_changed_elements space \<and> max_changed_elements space \<le> length (ds_variables space) \<and>
     (\<forall>v. v \<in> set (ds_variables space) \<longrightarrow> variable_ok formulation v) \<and>
     distinct (map dv_id (ds_variables space)) \<and> distinct (map target (ds_variables space)) \<and>
     formulation \<noteq> DcPf \<and> formulation \<noteq> Acopf \<and> (formulation = Socwr \<longrightarrow> conic) \<and> demand_total_ok space"
proof -
  have init: "\<lparr>sc_ids = [], sc_targets = [], sc_demands = 0\<rparr> = scan_of []" by (simp add: scan_of_def)
  have "validate_space conic space formulation = Inr () \<longleftrightarrow>
     \<not> (ds_variables space = [] \<or> 65536 < length (ds_variables space)) \<and>
     \<not> (\<not> is_finite (total_budget space) \<or> total_budget space < 0 \<or> max_changed_elements space = 0 \<or>
        length (ds_variables space) < max_changed_elements space) \<and>
     (\<forall>v \<in> set (ds_variables space). variable_ok formulation v) \<and>
     distinct (map dv_id (ds_variables space)) \<and> distinct (map target (ds_variables space)) \<and>
     \<not> (formulation = DcPf \<or> formulation = Acopf \<or> (formulation = Socwr \<and> \<not> conic)) \<and>
     check_demand_total space (sc_demands (scan_of (ds_variables space))) = Inr ()"
    unfolding validate_space_def init and_then_Inr err_if_Inr check_variables_fold by auto
  then show ?thesis
    by (auto simp: scan_of_def check_demand_total_Inr not_less)
qed

theorem validate_space_exact_witness:
  "validate_space False \<lparr>ds_variables = [\<lparr>dv_id = ''u'', dv_element = Id 1, intervention = BranchRating, lower = 0, upper = 1,
      increment = 1, budget_weight = 0\<rparr>], total_budget = 1, max_changed_elements = 1, ds_demand = None\<rparr> DcOpf = Inr () \<and>
   variable_ok DcOpf \<lparr>dv_id = ''u'', dv_element = Id 1, intervention = BranchRating, lower = 0, upper = 1,
      increment = 1, budget_weight = 0\<rparr>"
  (is "validate_space False ?space DcOpf = Inr () \<and> _")
proof -
  have ok: "validate_space False ?space DcOpf = Inr ()" by code_simp
  show ?thesis using ok validate_space_exact [of False ?space DcOpf] by simp
qed

text \<open>an evaluation that succeeds is fully finite and refers only to what the objective names: every
  observable seed is a weighted observable of the objective (a SOCWR voltage magnitude seeds its
  squared voltage) with a finite nonzero weight, and direct derivatives are finite, at most one per
  decision, for decisions that the objective penalizes and the caller supplied.\<close>

theorem evaluate_finite_and_named:
  assumes "evaluate resp net us obj = Inr ev"
  shows "is_finite (ev_value ev) \<and>
    (\<forall>(o1, k, w) \<in> set (observables ev). is_finite w \<and> \<not> f64_eq w 0 \<and> (o1, k) \<in> seeds (resp_formulation resp) obj) \<and>
    distinct (map fst (direct ev)) \<and>
    (\<forall>(d, v) \<in> set (direct ev). is_finite v \<and> d \<in> decisions obj \<and> map_of us d \<noteq> None)"
proof -
  from evaluate_finished [OF assms] obtain out where "finish_eval out = Inr ev" by blast
  from finish_eval_finite [OF this] evaluate_names(1) [OF assms] bt_ok_distinct [of "direct ev"] show ?thesis
    by (fastforce simp: names_def ev_finite_def)
qed

theorem evaluate_finite_and_named_witness:
  "\<exists>ev. evaluate \<lparr>resp_formulation = DcOpf, resp_objective = None, lmp = None, lmp_q = None, vm = None, va = None,
      resp_w = None, wr = None, wi = None, injections = None, flows = None, dispatch = None, resp_constraints = None,
      resp_diagnostics = [], resp_limit_rounds = None, resp_rest = []\<rparr> witness_net [(''u'', 1)] (InterventionPenalty ''u'' 1 0) = Inr ev \<and>
     is_finite (ev_value ev)"
  (is "\<exists>ev. ?run = Inr ev \<and> _")
proof -
  have "is_ok ?run" by code_simp
  then obtain ev where ok: "?run = Inr ev" using is_ok_obtain by blast
  have "is_finite (ev_value ev)" using evaluate_finite_and_named [OF ok] by (rule conjunct1)
  with ok show ?thesis by (intro exI [of _ ev] conjI)
qed

end
