(* ===== verification/Session.thy ===== *)
theory Session
  imports DcOpf Objective
begin

text \<open>
  The live Study (\<open>src/crates/tellegen/src/study.rs\<close>, \<open>history.rs\<close>): a base network, an
  ordered edit log with its commit boundaries, the caller's linear constraints and the committed
  solve. The theory models construction, the commits, constraint changes, materialization, the
  saved modules with their history, and outer goals at the committed state. A state-changing
  operation returns the outcome together with the Study after it. Model preparation, solves,
  sensitivity systems and every PowerIO call are fields of an \<open>engine\<close>, a parameter of each
  operation; the solver's vectors are taken to have one entry per bus and branch of its model.
\<close>

section \<open>PowerIO values and modules\<close>

record dc_instance =
  dci_network :: network
  dci_rest :: string

datatype ac_bus_specification = Pq f64 string | Pv f64 string | OtherSpecification string

record ac_pf_instance =
  pfi_network :: network
  specifications :: "ac_bus_specification list"
  initial_point :: "string option"

record ac_opf_instance =
  opi_network :: network
  opi_rest :: string

datatype pio_value =
    BalancedNetworkValue network
  | DcOpfInstanceValue dc_instance
  | AcPfInstanceValue ac_pf_instance
  | AcOpfInstanceValue ac_opf_instance
  | DcOpfSolutionValue string
  | AcPfSolutionValue string
  | SocwrOpfSolutionValue string
  | OtherValue string

datatype json_number_or_key = KeyJson ElementKey | NumberJson f64

record history_entry =
  he_id :: string
  he_name :: string
  he_parameters :: "(string, json_number_or_key) btree"

record pio_module =
  pm_value :: pio_value
  pm_history :: "history_entry list"
  pm_rest :: string

section \<open>The committed solve\<close>

datatype ('a, 'c) solved = DcState dc_network dc_solution | AcPfState 'a | ConicState 'c

record sens_matrix =
  sm_values :: "f64 list list"
  sm_rows :: "(ElementId \<times> nat) list"
  sm_units :: string

record solve_spec =
  eps :: f64
  refine_iters :: nat
  tol_factor :: f64

text \<open>What the Study uses of \<open>dyn Differentiable\<close> and of the sensitivity driver on it.\<close>

record diff_system =
  parameter_len :: "Parameter \<Rightarrow> nat option"
  operand_len :: "Operand \<Rightarrow> nat option"
  operand_selector :: "Operand \<Rightarrow> (string, nat list) result"
  element_id :: "Axis \<Rightarrow> nat \<Rightarrow> ElementId"
  sys_solve_spec :: solve_spec
  run_cells :: "sens_request list \<Rightarrow> (string, sens_matrix list) result"
  functional_gradient :: "(Operand \<times> (nat \<times> f64) list) list \<Rightarrow> (Parameter \<times> nat) list \<Rightarrow> (string, f64 list) result"

text \<open>
  The numerics and the PowerIO calls behind a Study: model preparation, solves, sensitivity systems,
  instance constructors, emission and serialization. Every theorem holds for any such engine.
\<close>

record ('a, 'c) engine =
  conic :: bool
  e_fmt :: "f64 \<Rightarrow> string"
  e_load_new :: "nat \<Rightarrow> f64 \<Rightarrow> f64 \<Rightarrow> load"
  dc_from_network :: "network \<Rightarrow> (string, dc_instance) result"
  dc_with_network :: "dc_instance \<Rightarrow> network \<Rightarrow> (string, dc_instance) result"
  acpf_from_network :: "network \<Rightarrow> (string, ac_pf_instance) result"
  acpf_with_network :: "ac_pf_instance \<Rightarrow> network \<Rightarrow> (string, ac_pf_instance) result"
  acpf_new :: "network \<Rightarrow> ac_bus_specification list \<Rightarrow> (string, ac_pf_instance) result"
  acopf_from_network :: "network \<Rightarrow> (string, ac_opf_instance) result"
  acopf_with_network :: "ac_opf_instance \<Rightarrow> network \<Rightarrow> (string, ac_opf_instance) result"
  dc_prepare :: "dc_instance \<Rightarrow> (string, dc_network) result"
  dc_solve :: "nat \<Rightarrow> dc_network \<Rightarrow> (string, dc_solution) result"
  dc_size :: "dc_network \<Rightarrow> nat \<times> nat"
  dc_cells :: "dc_network \<Rightarrow> dc_solution \<Rightarrow> sens_request list \<Rightarrow> (string, string) result"
  ac_pf_solve :: "ac_pf_instance \<Rightarrow> solve_request \<Rightarrow> (string, 'a) result"
  ac_pf_assemble :: "'a \<Rightarrow> solve_request \<Rightarrow> (string, solve_response) result"
  socwr_solve :: "ac_opf_instance \<Rightarrow> solve_request \<Rightarrow> (string, 'c) result"
  socwr_assemble :: "'c \<Rightarrow> solve_request \<Rightarrow> (string, solve_response) result"
  socwr_economic :: "'c \<Rightarrow> bool"
  socwr_duals :: "'c \<Rightarrow> f64 list"
  socwr_base :: "'c \<Rightarrow> f64"
  socwr_bounds :: "'c \<Rightarrow> (string \<times> f64 \<times> f64) list"
  system_of :: "('a, 'c) solved \<Rightarrow> (string, diff_system) result"
  emit_dc :: "dc_instance \<Rightarrow> dc_network \<Rightarrow> dc_solution \<Rightarrow> (string, string) result"
  emit_ac_pf :: "ac_pf_instance \<Rightarrow> 'a \<Rightarrow> (string, string) result"
  emit_socwr :: "ac_opf_instance \<Rightarrow> 'c \<Rightarrow> (string, string) result"
  deserialize_module :: "string \<Rightarrow> (string, pio_module) result"
  type_name :: "pio_value \<Rightarrow> string"
  network_json :: "network \<Rightarrow> (string, string) result"
  serialize_module :: "pio_module \<Rightarrow> (string, string) result"
  sever_rest :: "string \<Rightarrow> string"
  history_entry_new :: "history_entry \<Rightarrow> (string, history_entry) result"
  history_add :: "pio_module \<Rightarrow> history_entry \<Rightarrow> (string, pio_module) result"
  apply_geo :: "string \<Rightarrow> network \<Rightarrow> network \<times> string"

definition assemble :: "('a, 'c) engine \<Rightarrow> ('a, 'c) solved \<Rightarrow> solve_request \<Rightarrow> (string, solve_response) result" where
  "assemble eng s req =
     (case s of
        DcState dc sol \<Rightarrow> dc_opf_assemble (dc_cells eng) dc sol req
      | AcPfState a \<Rightarrow> ac_pf_assemble eng a req
      | ConicState c \<Rightarrow> socwr_assemble eng c req)"

definition has_economic_objective :: "('a, 'c) engine \<Rightarrow> ('a, 'c) solved \<Rightarrow> bool" where
  "has_economic_objective eng s =
     (case s of DcState dc _ \<Rightarrow> economic dc | AcPfState _ \<Rightarrow> False | ConicState c \<Rightarrow> socwr_economic eng c)"

definition state_lmp :: "('a, 'c) engine \<Rightarrow> ('a, 'c) solved \<Rightarrow> f64 list option" where
  "state_lmp eng s =
     (case s of
        DcState dc sol \<Rightarrow> if economic dc then Some (nodal_marginal_values sol (base_mva dc)) else None
      | AcPfState _ \<Rightarrow> None
      | ConicState c \<Rightarrow> if socwr_economic eng c then Some (map (\<lambda>v. v / socwr_base eng c) (socwr_duals eng c)) else None)"

definition line_shadow_prices :: "('a, 'c) solved \<Rightarrow> f64 list option" where
  "line_shadow_prices s =
     (case s of
        DcState dc sol \<Rightarrow>
          if economic dc then Some (map (\<lambda>(ub, lb). (ub + lb) / base_mva dc) (zip (lam_ub sol) (lam_lb sol))) else None
      | AcPfState _ \<Rightarrow> None
      | ConicState _ \<Rightarrow> None)"

datatype StudyInput = BalancedNetworkInput | DcOpfInput dc_instance | AcPfInput ac_pf_instance | AcOpfInput ac_opf_instance

fun input_kind :: "StudyInput \<Rightarrow> string" where
  "input_kind BalancedNetworkInput = ''balanced_network''"
| "input_kind (DcOpfInput _) = ''dc_opf_instance''"
| "input_kind (AcPfInput _) = ''ac_pf_instance''"
| "input_kind (AcOpfInput _) = ''ac_opf_instance''"

fun show_problem :: "Problem \<Rightarrow> string" where
  "show_problem DcPf = ''DcPf''"
| "show_problem DcOpf = ''DcOpf''"
| "show_problem AcPf = ''AcPf''"
| "show_problem Socwr = ''Socwr''"
| "show_problem Acopf = ''Acopf''"

definition solve_dc :: "('a, 'c) engine \<Rightarrow> dc_instance \<Rightarrow> solve_request \<Rightarrow> (string, ('a, 'c) solved) result" where
  "solve_dc eng inst req =
     and_then (dc_prepare eng inst) (\<lambda>dc.
     and_then (dc_opf_solved (e_fmt eng) (dc_solve eng) (dc_size eng) dc req) (\<lambda>(net, sol). Inr (DcState net sol)))"

definition solve_state ::
  "('a, 'c) engine \<Rightarrow> StudyInput \<Rightarrow> network \<Rightarrow> solve_request \<Rightarrow> (string, ('a, 'c) solved) result" where
  "solve_state eng input net req =
     (let refuse = Inl (''PowerIO '' @ input_kind input @ '' input cannot start a '' @ show_problem (req_formulation req) @ '' Study'')
      in case (input, req_formulation req) of
        (BalancedNetworkInput, DcOpf) \<Rightarrow> and_then (dc_from_network eng net) (\<lambda>inst. solve_dc eng inst req)
      | (DcOpfInput inst, DcOpf) \<Rightarrow> solve_dc eng inst req
      | (BalancedNetworkInput, AcPf) \<Rightarrow>
          and_then (acpf_from_network eng net) (\<lambda>inst. and_then (ac_pf_solve eng inst req) (\<lambda>a. Inr (AcPfState a)))
      | (AcPfInput inst, AcPf) \<Rightarrow> and_then (ac_pf_solve eng inst req) (\<lambda>a. Inr (AcPfState a))
      | (BalancedNetworkInput, Socwr) \<Rightarrow>
          if conic eng then and_then (acopf_from_network eng net) (\<lambda>inst. and_then (socwr_solve eng inst req) (\<lambda>c. Inr (ConicState c)))
          else refuse
      | (AcOpfInput inst, Socwr) \<Rightarrow>
          if conic eng then and_then (socwr_solve eng inst req) (\<lambda>c. Inr (ConicState c)) else refuse
      | _ \<Rightarrow> refuse)"

section \<open>The Study\<close>

record ('a, 'c) study =
  formulation :: Problem
  study_input :: StudyInput
  base :: network
  base_module_json :: string
  log :: "NetworkEdit list"
  commit_bounds :: "nat list"
  study_constraints :: "linear_constraint list"
  study_solved :: "('a, 'c) solved"
  last_response :: solve_response

definition from_network_and_module ::
  "('a, 'c) engine \<Rightarrow> network \<Rightarrow> StudyInput \<Rightarrow> Problem \<Rightarrow> string \<Rightarrow> (string, ('a, 'c) study) result" where
  "from_network_and_module eng net input problem json =
     and_then (validate_canonical_edits net \<lparr>deltas = [], rates = []\<rparr>) (\<lambda>_.
     (let req = \<lparr>req_formulation = problem, req_edits = \<lparr>deltas = [], rates = []\<rparr>, start = Flat, constraints = [],
                 limits = None, sensitivities = []\<rparr>
      in and_then (solve_state eng input net req) (\<lambda>s.
         and_then (assemble eng s req) (\<lambda>resp.
         Inr \<lparr>formulation = problem, study_input = input, base = net, base_module_json = json, log = [],
              commit_bounds = [], study_constraints = [], study_solved = s, last_response = resp\<rparr>))))"

definition from_dynamic_module :: "('a, 'c) engine \<Rightarrow> pio_module \<Rightarrow> Problem \<Rightarrow> (string, ('a, 'c) study) result" where
  "from_dynamic_module eng m problem =
     and_then (serialize_module eng m) (\<lambda>json.
     case pm_value m of
       BalancedNetworkValue net \<Rightarrow> from_network_and_module eng net BalancedNetworkInput problem json
     | DcOpfInstanceValue i \<Rightarrow> from_network_and_module eng (dci_network i) (DcOpfInput i) problem json
     | AcPfInstanceValue i \<Rightarrow> from_network_and_module eng (pfi_network i) (AcPfInput i) problem json
     | AcOpfInstanceValue i \<Rightarrow>
         if conic eng then from_network_and_module eng (opi_network i) (AcOpfInput i) problem json
         else Inl (''PowerIO module holds '' @ type_name eng (pm_value m) @ '', which cannot start a Study'')
     | v \<Rightarrow> Inl (''PowerIO module holds '' @ type_name eng v @ '', which cannot start a Study''))"

definition study_new :: "('a, 'c) engine \<Rightarrow> string \<Rightarrow> Problem \<Rightarrow> (string, ('a, 'c) study) result" where
  "study_new eng json problem =
     and_then (deserialize_module eng json) (\<lambda>m. from_dynamic_module eng m problem)"

definition from_module :: "('a, 'c) engine \<Rightarrow> pio_module \<Rightarrow> network \<Rightarrow> Problem \<Rightarrow> (string, ('a, 'c) study) result" where
  "from_module eng m net problem =
     and_then (serialize_module eng (m\<lparr>pm_value := BalancedNetworkValue net\<rparr>)) (\<lambda>json.
       from_network_and_module eng net BalancedNetworkInput problem json)"

section \<open>Commits\<close>

definition solve_log ::
  "('a, 'c) engine \<Rightarrow> ('a, 'c) study \<Rightarrow> NetworkEdit list \<Rightarrow> sens_request list
     \<Rightarrow> (string, ('a, 'c) solved \<times> solve_response) result" where
  "solve_log eng st lg sens =
     (let req = \<lparr>req_formulation = formulation st, req_edits = fold_edits lg, start = Flat,
                 constraints = study_constraints st, limits = None, sensitivities = sens\<rparr>
      in and_then (solve_state eng (study_input st) (base st) req) (\<lambda>s.
         and_then (assemble eng s req) (\<lambda>resp. Inr (s, resp))))"

definition commit_log ::
  "('a, 'c) engine \<Rightarrow> ('a, 'c) study \<Rightarrow> NetworkEdit list \<Rightarrow> nat list \<Rightarrow> sens_request list
     \<Rightarrow> (string, solve_response) result \<times> ('a, 'c) study" where
  "commit_log eng st lg bounds sens =
     (case validate_network_edits (base st) lg of
        Inl e \<Rightarrow> (Inl e, st)
      | Inr _ \<Rightarrow>
          (case solve_log eng st lg sens of
             Inl e \<Rightarrow> (Inl e, st)
           | Inr (s, resp) \<Rightarrow>
               (Inr resp, st\<lparr>log := lg, commit_bounds := bounds, study_solved := s, last_response := resp\<rparr>)))"

definition commit_with where
  "commit_with eng st es sens =
     (let next_log = log st @ es
      in commit_log eng st next_log (commit_bounds st @ [length next_log]) sens)"

definition commit where
  "commit eng st es = commit_with eng st es []"

definition replace_edits_with where
  "replace_edits_with eng st es sens = commit_log eng st es (if es = [] then [] else [length es]) sens"

definition replace_edits where
  "replace_edits eng st es = replace_edits_with eng st es []"

definition set_constraints ::
  "('a, 'c) engine \<Rightarrow> ('a, 'c) study \<Rightarrow> linear_constraint list \<Rightarrow> (string, solve_response) result \<times> ('a, 'c) study" where
  "set_constraints eng st cs =
     (let previous = study_constraints st; st1 = st\<lparr>study_constraints := cs\<rparr>
      in case solve_log eng st1 (log st1) [] of
           Inr (s, resp) \<Rightarrow> (Inr resp, st1\<lparr>study_solved := s, last_response := resp\<rparr>)
         | Inl e \<Rightarrow> (Inl e, st1\<lparr>study_constraints := previous\<rparr>))"

definition reject_constraints :: "('a, 'c) study \<Rightarrow> string \<Rightarrow> (string, unit) result" where
  "reject_constraints st operation =
     err_if (study_constraints st \<noteq> [])
       (operation @ '' is not available while the study carries caller-supplied linear constraints'')"

definition fork :: "('a, 'c) study \<Rightarrow> ('a, 'c) study" where
  "fork st = \<lparr>formulation = formulation st, study_input = study_input st, base = base st,
     base_module_json = base_module_json st, log = log st, commit_bounds = commit_bounds st,
     study_constraints = study_constraints st, study_solved = study_solved st, last_response = last_response st\<rparr>"

definition commits :: "('a, 'c) study \<Rightarrow> nat" where
  "commits st = length (commit_bounds st)"

definition apply_geo_layer :: "('a, 'c) engine \<Rightarrow> ('a, 'c) study \<Rightarrow> string \<Rightarrow> string \<times> ('a, 'c) study" where
  "apply_geo_layer eng st layer = (let (net, report) = apply_geo eng layer (base st) in (report, st\<lparr>base := net\<rparr>))"

section \<open>Materialization\<close>

definition materialized_network :: "('a, 'c) engine \<Rightarrow> ('a, 'c) study \<Rightarrow> (string, network) result" where
  "materialized_network eng st = apply_network_edits (e_load_new eng) (base st) (log st)"

text \<open>The demand steps of the log that name one bus, added in log order.\<close>

fun bus_delta :: "network \<Rightarrow> nat \<Rightarrow> f64 \<Rightarrow> NetworkEdit list \<Rightarrow> (string, f64) result" where
  "bus_delta net i acc [] = Inr acc"
| "bus_delta net i acc (AddLoad key amount # es) =
     and_then (source_element_id net AxisBus key) (\<lambda>j. bus_delta net i (acc + (if j = i then amount else 0)) es)"
| "bus_delta net i acc (AdjustBranchRating _ _ # es) = bus_delta net i acc es"

fun shift_specification :: "f64 \<Rightarrow> ac_bus_specification \<Rightarrow> ac_bus_specification" where
  "shift_specification d (Pq p r) = Pq (p - d) r"
| "shift_specification d (Pv p r) = Pv (p - d) r"
| "shift_specification d (OtherSpecification r) = OtherSpecification r"

definition shift_rows ::
  "('a, 'c) study \<Rightarrow> network \<Rightarrow> ac_bus_specification list \<Rightarrow> (string, ac_bus_specification list) result" where
  "shift_rows st net specs =
     try_fold (\<lambda>sp (row, b). and_then (bus_delta (base st) (bus_id b) 0 (log st)) (\<lambda>d.
       Inr (sp[row := shift_specification d (sp ! row)]))) specs (zip [0..<length (buses net)] (buses net))"

definition materialized_instance :: "('a, 'c) engine \<Rightarrow> ('a, 'c) study \<Rightarrow> (string, pio_value) result" where
  "materialized_instance eng st =
     and_then (materialized_network eng st) (\<lambda>net.
     case study_input st of
       BalancedNetworkInput \<Rightarrow>
         (case formulation st of
            DcOpf \<Rightarrow> and_then (dc_from_network eng net) (\<lambda>i. Inr (DcOpfInstanceValue i))
          | AcPf \<Rightarrow> and_then (acpf_from_network eng net) (\<lambda>i. Inr (AcPfInstanceValue i))
          | Socwr \<Rightarrow> if conic eng then and_then (acopf_from_network eng net) (\<lambda>i. Inr (AcOpfInstanceValue i))
                     else Inl ''unsupported Study formulation''
          | _ \<Rightarrow> Inl ''unsupported Study formulation'')
     | DcOpfInput inst \<Rightarrow> and_then (dc_with_network eng inst net) (\<lambda>i. Inr (DcOpfInstanceValue i))
     | AcPfInput inst \<Rightarrow>
         and_then (shift_rows st net (specifications inst)) (\<lambda>specs.
         and_then (acpf_with_network eng inst net) (\<lambda>rebound.
         and_then (acpf_new eng net specs) (\<lambda>exact.
         Inr (AcPfInstanceValue (case initial_point rebound of
           None \<Rightarrow> exact | Some initial \<Rightarrow> exact\<lparr>initial_point := Some initial\<rparr>)))))
     | AcOpfInput inst \<Rightarrow> and_then (acopf_with_network eng inst net) (\<lambda>i. Inr (AcOpfInstanceValue i)))"

section \<open>Saved modules\<close>

definition edit_entry :: "('a, 'c) engine \<Rightarrow> nat \<Rightarrow> NetworkEdit \<Rightarrow> (string, history_entry) result" where
  "edit_entry eng index edit =
     (let (name, element_field, key, mw_field, mw) =
        (case edit of
           AddLoad bus p_mw \<Rightarrow> (''tellegen.add_load'', ''bus'', bus, ''p_mw'', p_mw)
         | AdjustBranchRating branch delta_mw \<Rightarrow>
             (''tellegen.adjust_branch_rating'', ''branch'', branch, ''delta_mw'', delta_mw))
      in history_entry_new eng
           \<lparr>he_id = ''tellegen-edit-'' @ show_nat index, he_name = name,
            he_parameters = bt_insert mw_field (NumberJson mw) (bt_insert element_field (KeyJson key) [])\<rparr>)"

definition electrical_module :: "('a, 'c) engine \<Rightarrow> ('a, 'c) study \<Rightarrow> pio_value \<Rightarrow> (string, pio_module) result" where
  "electrical_module eng st value =
     and_then (deserialize_module eng (base_module_json st)) (\<lambda>m.
       Inr (m\<lparr>pm_value := value, pm_rest := sever_rest eng (pm_rest m)\<rparr>))"

text \<open>The scan for an unused id ends: the used ids are finitely many and decimal numerals are distinct.\<close>

lemma show_nat_snoc: "show_nat n = (if n < 10 then [] else show_nat (n div 10)) @ [char_of (48 + n mod 10)]"
  by (subst show_nat.simps) simp

lemma show_nat_Nil [simp]: "show_nat n \<noteq> []"
  by (subst show_nat_snoc) simp

lemma show_nat_inj: "show_nat n = show_nat m \<Longrightarrow> n = m"
proof (induction n arbitrary: m rule: less_induct)
  case (less n)
  have eq: "(if n < 10 then [] else show_nat (n div 10)) = (if m < 10 then [] else show_nat (m div 10))"
    and dig: "(char_of (48 + n mod 10) :: char) = char_of (48 + m mod 10)"
    using less.prems by (simp_all add: show_nat_snoc [of n] show_nat_snoc [of m])
  have "of_char (char_of (48 + n mod 10) :: char) = (of_char (char_of (48 + m mod 10) :: char) :: nat)"
    using dig by simp
  then have low: "n mod 10 = m mod 10" by (simp add: mod_less)
  have "n div 10 = m div 10"
  proof (cases "n < 10")
    case True
    with eq have "m < 10" using show_nat_Nil [of "m div 10"] by (metis (full_types))
    with True show ?thesis by simp
  next
    case False
    with eq have "\<not> m < 10" "show_nat (n div 10) = show_nat (m div 10)" by (simp_all split: if_splits)
    with less.IH [of "n div 10" "m div 10"] False show ?thesis by simp
  qed
  with low show ?case by (metis div_mult_mod_eq)
qed

definition edit_id :: "nat \<Rightarrow> string" where
  "edit_id n = ''tellegen-edit-'' @ show_nat n"

lemma edit_id_inj: "edit_id n = edit_id m \<longleftrightarrow> n = m"
  by (auto simp: edit_id_def dest: show_nat_inj)

lemma finite_used_ids: "finite {i. edit_id i \<in> set used}"
proof (rule inj_on_finite)
  show "inj_on edit_id {i. edit_id i \<in> set used}" by (simp add: inj_on_def edit_id_inj)
  show "edit_id ` {i. edit_id i \<in> set used} \<subseteq> set used" by auto
qed simp

function next_free :: "string list \<Rightarrow> nat \<Rightarrow> nat" where
  "next_free used n = (if edit_id n \<in> set used then next_free used (n + 1) else n)"
  by pat_completeness auto
termination
proof (relation "measure (\<lambda>(used, n). card {i. n \<le> i \<and> edit_id i \<in> set used})", simp)
  fix used :: "string list" and n
  assume "edit_id n \<in> set used"
  then have "n \<in> {i. n \<le> i \<and> edit_id i \<in> set used}" by simp
  moreover have "{i. n + 1 \<le> i \<and> edit_id i \<in> set used} \<subseteq> {i. n \<le> i \<and> edit_id i \<in> set used} - {n}" by auto
  moreover have "finite {i. n \<le> i \<and> edit_id i \<in> set used}"
    by (rule finite_subset [OF _ finite_used_ids [of used]]) auto
  ultimately have "card {i. n + 1 \<le> i \<and> edit_id i \<in> set used} < card {i. n \<le> i \<and> edit_id i \<in> set used}"
    by (intro psubset_card_mono) auto
  then show "((used, n + 1), used, n) \<in> measure (\<lambda>(used, n). card {i. n \<le> i \<and> edit_id i \<in> set used})"
    by simp
qed

declare next_free.simps [simp del]

definition retain_step ::
  "('a, 'c) engine \<Rightarrow> pio_module \<times> string list \<times> nat \<Rightarrow> NetworkEdit \<Rightarrow> (string, pio_module \<times> string list \<times> nat) result" where
  "retain_step eng = (\<lambda>(m, used, next_id) edit.
     let n = next_free used next_id
     in and_then (edit_entry eng n edit) (\<lambda>entry.
        and_then (history_add eng m entry) (\<lambda>m'. Inr (m', he_id entry # used, n + 1))))"

definition retained_module :: "('a, 'c) engine \<Rightarrow> ('a, 'c) study \<Rightarrow> pio_value \<Rightarrow> (string, pio_module) result" where
  "retained_module eng st value =
     and_then (electrical_module eng st value) (\<lambda>m.
     and_then (try_fold (retain_step eng) (m, map he_id (pm_history m), length (pm_history m)) (log st)) (\<lambda>(m', _, _).
     Inr m'))"

definition save_module :: "('a, 'c) engine \<Rightarrow> ('a, 'c) study \<Rightarrow> (string, string) result" where
  "save_module eng st =
     and_then (validate_canonical_identity (base st)) (\<lambda>_.
     and_then (materialized_network eng st) (\<lambda>net.
     and_then (retained_module eng st (BalancedNetworkValue net)) (serialize_module eng)))"

definition save_instance_module :: "('a, 'c) engine \<Rightarrow> ('a, 'c) study \<Rightarrow> (string, string) result" where
  "save_instance_module eng st =
     and_then (reject_constraints st ''saving the problem instance'') (\<lambda>_.
     and_then (materialized_instance eng st) (\<lambda>value.
     and_then (electrical_module eng st value) (serialize_module eng)))"

definition save_exact_module :: "('a, 'c) engine \<Rightarrow> ('a, 'c) study \<Rightarrow> (string, string) result" where
  "save_exact_module eng st =
     and_then (reject_constraints st ''saving the solution'') (\<lambda>_.
     and_then (materialized_instance eng st) (\<lambda>value.
     and_then
       (case value of
          DcOpfInstanceValue inst \<Rightarrow>
            (case study_solved st of
               DcState dc sol \<Rightarrow> and_then (emit_dc eng inst dc sol) (\<lambda>v. Inr (DcOpfSolutionValue v))
             | _ \<Rightarrow> Inl ''missing DC solution'')
        | AcPfInstanceValue inst \<Rightarrow>
            (case study_solved st of
               AcPfState a \<Rightarrow> and_then (emit_ac_pf eng inst a) (\<lambda>v. Inr (AcPfSolutionValue v))
             | _ \<Rightarrow> Inl ''missing AC power flow solution'')
        | AcOpfInstanceValue inst \<Rightarrow>
            (case study_solved st of
               ConicState c \<Rightarrow> and_then (emit_socwr eng inst c) (\<lambda>v. Inr (SocwrOpfSolutionValue v))
             | _ \<Rightarrow> Inl ''missing SOCWR solution'')
        | _ \<Rightarrow> Inl ''unsupported exact Study solution'') (\<lambda>exact.
     and_then (electrical_module eng st exact) (serialize_module eng))))"

definition save_solution_module :: "('a, 'c) engine \<Rightarrow> ('a, 'c) study \<Rightarrow> (string, string) result" where
  "save_solution_module eng st =
     and_then (reject_constraints st ''saving the solution'') (\<lambda>_.
     case study_solved st of
       DcState dc sol \<Rightarrow>
         and_then (materialized_network eng st) (\<lambda>net.
         and_then
           (case study_input st of
              BalancedNetworkInput \<Rightarrow> dc_from_network eng net
            | DcOpfInput inst \<Rightarrow> dc_with_network eng inst net
            | _ \<Rightarrow> Inl ''the retained PowerIO input is not a DC OPF problem instance'') (\<lambda>inst.
         and_then (emit_dc eng inst dc sol) (\<lambda>v.
         and_then (retained_module eng st (DcOpfSolutionValue v)) (serialize_module eng))))
     | _ \<Rightarrow> save_exact_module eng st)"

section \<open>Outer goals at the committed state\<close>

definition show_axis :: "Axis \<Rightarrow> string" where
  "show_axis a = (case a of AxisBus \<Rightarrow> ''Bus'' | AxisBranch \<Rightarrow> ''Branch'' | AxisGenerator \<Rightarrow> ''Generator''
     | AxisConstraint \<Rightarrow> ''Constraint'')"

definition show_intervention_parameter :: "Intervention \<Rightarrow> string" where
  "show_intervention_parameter i = (case i of BranchRating \<Rightarrow> ''LineLimit'' | ActiveDemand \<Rightarrow> ''Demand(Active)'')"

definition decision_edit :: "decision_variable \<Rightarrow> f64 \<Rightarrow> NetworkEdit" where
  "decision_edit v x = (case intervention v of BranchRating \<Rightarrow> AdjustBranchRating (dv_element v) x
     | ActiveDemand \<Rightarrow> AddLoad (dv_element v) x)"

definition decision_edits :: "decision_space \<Rightarrow> f64 list \<Rightarrow> NetworkEdit list" where
  "decision_edits space changes =
     map (\<lambda>(v, x). decision_edit v x) (filter (\<lambda>(_, x). f64_1e_12 < \<bar>x\<bar>) (zip (ds_variables space) changes))"

definition named_changes :: "decision_space \<Rightarrow> f64 list \<Rightarrow> (string, f64) btree" where
  "named_changes space changes = bt_collect (map (\<lambda>(v, x). (dv_id v, x)) (zip (ds_variables space) changes))"

definition objective_value ::
  "('a, 'c) engine \<Rightarrow> ('a, 'c) study \<Rightarrow> StudyObjective \<Rightarrow> decision_space \<Rightarrow> f64 list \<Rightarrow> (string, f64) result" where
  "objective_value eng st obj space changes =
     and_then (validate_space (conic eng) space (formulation st)) (\<lambda>_.
     and_then (validate_objective obj space) (\<lambda>_.
     and_then (err_if (length changes \<noteq> length (ds_variables space) \<or> (\<exists>x \<in> set changes. \<not> is_finite x))
        ''objective requires one finite value per decision'') (\<lambda>_.
     and_then (evaluate (last_response st) (base st) (named_changes space changes) obj) (\<lambda>ev. Inr (ev_value ev)))))"

fun names_element :: "nat \<Rightarrow> ElementId \<Rightarrow> bool" where
  "names_element i (BusElement v) \<longleftrightarrow> v = i"
| "names_element i (BranchElement v) \<longleftrightarrow> v = i"
| "names_element i (GeneratorElement v) \<longleftrightarrow> v = i"
| "names_element i (ConstraintElement _) \<longleftrightarrow> False"

definition resolve_index :: "diff_system \<Rightarrow> network \<Rightarrow> Axis \<Rightarrow> ElementKey \<Rightarrow> nat \<Rightarrow> (string, nat) result" where
  "resolve_index sys net axis key len =
     and_then (source_element_id net axis key) (\<lambda>i.
     ok_or (show_axis axis @ '' '' @ show_key key @ '' is unavailable in the selected formulation'')
       (find (\<lambda>index. names_element i (element_id sys axis index)) [0..<len]))"

definition seed_step ::
  "('a, 'c) study \<Rightarrow> diff_system \<Rightarrow> (Operand \<times> (nat \<times> f64) list) list \<Rightarrow> Operand \<times> ElementKey \<times> f64
     \<Rightarrow> (string, (Operand \<times> (nat \<times> f64) list) list) result" where
  "seed_step st sys seed_rows = (\<lambda>(operand, key, weight).
     and_then (ok_or (''unsupported objective observable '' @ show_operand operand) (operand_len sys operand)) (\<lambda>cnt.
     and_then (operand_selector sys operand) (\<lambda>elements.
     and_then (source_element_id (base st) (operand_axis operand) key) (\<lambda>i.
     case find (\<lambda>index. names_element i (element_id sys (operand_axis operand) index)) elements of
       None \<Rightarrow>
         if formulation st = AcPf \<and> (operand = Voltage Magnitude \<or> operand = Voltage Angle) then Inr seed_rows
         else Inl (''objective element '' @ show_key key @ '' is not among '' @ show_nat cnt @ '' supported '' @
                   show_operand operand @ '' values'')
     | Some index \<Rightarrow> Inr (hm_modify operand [] (\<lambda>ws. ws @ [(index, weight)]) seed_rows)))))"

definition decision_column :: "diff_system \<Rightarrow> network \<Rightarrow> decision_variable \<Rightarrow> (string, Parameter \<times> nat) result" where
  "decision_column sys net v =
     (let parameter = intervention_parameter (intervention v)
      in and_then (ok_or (''unsupported decision '' @ show_intervention_parameter (intervention v)) (parameter_len sys parameter)) (\<lambda>cnt.
         and_then (resolve_index sys net (parameter_axis parameter) (dv_element v) cnt) (\<lambda>i. Inr (parameter, i))))"

record decision_derivative =
  dd_decision :: string
  dd_value :: f64
  dd_units :: string

record objective_result =
  or_value :: f64
  or_gradient :: "decision_derivative list"
  or_local_only :: bool
  or_numerics :: solve_spec

definition gradient_entries ::
  "('a, 'c) study \<Rightarrow> decision_space \<Rightarrow> objective_evaluation \<Rightarrow> f64 list \<Rightarrow> decision_derivative list" where
  "gradient_entries st space ev derivative =
     map (\<lambda>(v, implicit). \<lparr>dd_decision = dv_id v,
        dd_value = implicit + (case map_of (direct ev) (dv_id v) of None \<Rightarrow> 0 | Some d \<Rightarrow> d),
        dd_units = ''objective_unit/'' @ intervention_units (intervention v) (formulation st)\<rparr>)
       (zip (ds_variables space) derivative)"

definition objective_gradient ::
  "('a, 'c) engine \<Rightarrow> ('a, 'c) study \<Rightarrow> StudyObjective \<Rightarrow> decision_space \<Rightarrow> f64 list \<Rightarrow> (string, objective_result) result" where
  "objective_gradient eng st obj space changes =
     and_then (validate_space (conic eng) space (formulation st)) (\<lambda>_.
     and_then (validate_objective obj space) (\<lambda>_.
     and_then (err_if (length changes \<noteq> length (ds_variables space) \<or> (\<exists>x \<in> set changes. \<not> is_finite x))
        ''objective requires one finite change per decision'') (\<lambda>_.
     and_then (evaluate (last_response st) (base st) (named_changes space changes) obj) (\<lambda>ev.
     and_then (system_of eng (study_solved st)) (\<lambda>sys.
     and_then (try_fold (seed_step st sys) [] (observables ev)) (\<lambda>seed_rows.
     and_then (try_map (decision_column sys (base st)) (ds_variables space)) (\<lambda>decisions.
     and_then (functional_gradient sys seed_rows decisions) (\<lambda>derivative.
     (let gradient = gradient_entries st space ev derivative
      in and_then (err_if (\<exists>g \<in> set gradient. \<not> is_finite (dd_value g)) ''objective derivative is not finite'') (\<lambda>_.
         Inr \<lparr>or_value = ev_value ev, or_gradient = gradient, or_local_only = True, or_numerics = sys_solve_spec sys\<rparr>))))))))))"

definition alias_step ::
  "network \<Rightarrow> (Axis \<times> nat) list \<Rightarrow> decision_variable \<Rightarrow> (string, (Axis \<times> nat) list) result" where
  "alias_step net seen v =
     (let axis = parameter_axis (intervention_parameter (intervention v))
      in and_then (source_element_id net axis (dv_element v)) (\<lambda>i.
         and_then (err_if ((axis, i) \<in> set seen) ''decision aliases resolve to the same equipment'') (\<lambda>_.
         Inr ((axis, i) # seen))))"

definition check_decision_state ::
  "('a, 'c) engine \<Rightarrow> ('a, 'c) study \<Rightarrow> decision_space \<Rightarrow> f64 list \<Rightarrow> (string, unit) result" where
  "check_decision_state eng st space changes =
     and_then (try_fold (alias_step (base st)) [] (ds_variables space)) (\<lambda>_.
     and_then (apply_network_edits (e_load_new eng) (base st) (decision_edits space changes)) (\<lambda>expected.
     and_then (network_json eng expected) (\<lambda>left.
     and_then (materialized_network eng st) (\<lambda>net.
     and_then (network_json eng net) (\<lambda>right.
     err_if (left \<noteq> right) ''declared decisions do not reproduce the starting electrical state'')))))"

section \<open>Reachable Studies\<close>

inductive reachable_study :: "('a, 'c) engine \<Rightarrow> ('a, 'c) study \<Rightarrow> bool" for eng where
  start: "from_network_and_module eng net input problem json = Inr st \<Longrightarrow> reachable_study eng st"
| commit: "reachable_study eng st \<Longrightarrow> commit_with eng st es sens = (r, st') \<Longrightarrow> reachable_study eng st'"
| replace: "reachable_study eng st \<Longrightarrow> replace_edits_with eng st es sens = (r, st') \<Longrightarrow> reachable_study eng st'"
| constrain: "reachable_study eng st \<Longrightarrow> set_constraints eng st cs = (r, st') \<Longrightarrow> reachable_study eng st'"
| fork: "reachable_study eng st \<Longrightarrow> reachable_study eng (fork st)"
| geo: "reachable_study eng st \<Longrightarrow> apply_geo_layer eng st layer = (rep, st') \<Longrightarrow> reachable_study eng st'"

text \<open>Coordinates are metadata: neither the edit validation nor the model preparation reads them.\<close>

definition geo_neutral :: "('a, 'c) engine \<Rightarrow> bool" where
  "geo_neutral eng \<longleftrightarrow> (\<forall>layer net.
     (\<forall>input req. solve_state eng input (fst (apply_geo eng layer net)) req = solve_state eng input net req) \<and>
     (\<forall>es. validate_canonical_edits (fst (apply_geo eng layer net)) es = validate_canonical_edits net es))"

definition bounds_ok :: "NetworkEdit list \<Rightarrow> nat list \<Rightarrow> bool" where
  "bounds_ok lg bounds \<longleftrightarrow> sorted bounds \<and> (if bounds = [] then lg = [] else last bounds = length lg)"

definition study_inv :: "('a, 'c) engine \<Rightarrow> ('a, 'c) study \<Rightarrow> bool" where
  "study_inv eng st \<longleftrightarrow> bounds_ok (log st) (commit_bounds st) \<and> validate_network_edits (base st) (log st) = Inr () \<and>
     (\<exists>sens. solve_log eng st (log st) sens = Inr (study_solved st, last_response st))"

lemma bounds_ok_append: "bounds_ok lg bounds \<Longrightarrow> bounds_ok (lg @ es) (bounds @ [length (lg @ es)])"
proof -
  assume ok: "bounds_ok lg bounds"
  have "x \<le> length lg" if "x \<in> set bounds" for x
  proof -
    from that have "bounds \<noteq> []" by auto
    moreover from this have "bounds = butlast bounds @ [last bounds]" by simp
    ultimately show ?thesis using ok that unfolding bounds_ok_def by (metis Un_iff empty_iff insert_iff list.set le_refl set_append sorted_append)
  qed
  with ok show ?thesis by (auto simp: bounds_ok_def sorted_append intro: trans_le_add1)
qed

lemma bounds_ok_replace: "bounds_ok es (if es = [] then [] else [length es])"
  by (simp add: bounds_ok_def)

lemma commit_log_cases:
  obtains (refused) e where "commit_log eng st lg bounds sens = (Inl e, st)"
  | (solved) s resp where "validate_network_edits (base st) lg = Inr ()" "solve_log eng st lg sens = Inr (s, resp)"
      "commit_log eng st lg bounds sens =
         (Inr resp, st\<lparr>log := lg, commit_bounds := bounds, study_solved := s, last_response := resp\<rparr>)"
proof (cases "validate_network_edits (base st) lg")
  case (Inl e)
  then show ?thesis using that(1) by (simp add: commit_log_def)
next
  case (Inr u)
  show ?thesis
  proof (cases "solve_log eng st lg sens")
    case (Inl e)
    then show ?thesis using that(1) Inr by (simp add: commit_log_def)
  next
    case inr: (Inr p)
    obtain s resp where "p = (s, resp)" by (cases p)
    with that(2) [of s resp] Inr inr show ?thesis by (simp add: commit_log_def)
  qed
qed

lemma solve_log_cong:
  "formulation st' = formulation st \<Longrightarrow> study_input st' = study_input st \<Longrightarrow> base st' = base st \<Longrightarrow>
     study_constraints st' = study_constraints st \<Longrightarrow> solve_log eng st' lg sens = solve_log eng st lg sens"
  by (simp add: solve_log_def)

lemma commit_log_inv:
  assumes "study_inv eng st" "bounds_ok lg bounds" "commit_log eng st lg bounds sens = (r, st')"
  shows "study_inv eng st'"
proof (rule commit_log_cases [of eng st lg bounds sens], goal_cases refused solved)
  case (refused e)
  with assms show ?thesis by simp
next
  case (solved s resp)
  then have st': "st' = st\<lparr>log := lg, commit_bounds := bounds, study_solved := s, last_response := resp\<rparr>"
    using assms(3) by simp
  have "solve_log eng st' lg sens = Inr (s, resp)" using solved(2) by (subst solve_log_cong [of st' st]) (simp_all add: st')
  with solved(1) assms(2) show ?thesis unfolding study_inv_def by (auto simp: st')
qed

lemma set_constraints_cases:
  obtains (refused) e where "set_constraints eng st cs = (Inl e, st)"
  | (solved) s resp where "solve_log eng (st\<lparr>study_constraints := cs\<rparr>) (log st) [] = Inr (s, resp)"
      "set_constraints eng st cs =
         (Inr resp, st\<lparr>study_constraints := cs, study_solved := s, last_response := resp\<rparr>)"
proof (cases "solve_log eng (st\<lparr>study_constraints := cs\<rparr>) (log st) []")
  case (Inl e)
  then show ?thesis using that(1) by (simp add: set_constraints_def)
next
  case (Inr p)
  obtain s resp where "p = (s, resp)" by (cases p)
  with that(2) [of s resp] Inr show ?thesis by (simp add: set_constraints_def)
qed

lemma set_constraints_inv:
  assumes "study_inv eng st" "set_constraints eng st cs = (r, st')"
  shows "study_inv eng st'"
proof (rule set_constraints_cases [of eng st cs], goal_cases refused solved)
  case (refused e)
  with assms show ?thesis by simp
next
  case (solved s resp)
  then have st': "st' = st\<lparr>study_constraints := cs, study_solved := s, last_response := resp\<rparr>" using assms(2) by simp
  have "solve_log eng st' (log st) [] = Inr (s, resp)"
    using solved(1) by (subst solve_log_cong [of st' "st\<lparr>study_constraints := cs\<rparr>"]) (simp_all add: st')
  with assms(1) show ?thesis unfolding study_inv_def by (auto simp: st')
qed

lemma fork_id: "fork st = st"
  by (simp add: fork_def)

lemma start_inv:
  assumes "from_network_and_module eng net input problem json = Inr st"
  shows "study_inv eng st"
proof -
  let ?req = "\<lparr>req_formulation = problem, req_edits = \<lparr>deltas = [], rates = []\<rparr>, start = Flat, constraints = [],
                 limits = None, sensitivities = []\<rparr>"
  from assms obtain s resp where ok: "validate_canonical_edits net \<lparr>deltas = [], rates = []\<rparr> = Inr ()"
    "solve_state eng input net ?req = Inr s" "assemble eng s ?req = Inr resp"
    and st: "st = \<lparr>formulation = problem, study_input = input, base = net, base_module_json = json, log = [],
              commit_bounds = [], study_constraints = [], study_solved = s, last_response = resp\<rparr>"
    by (auto simp: from_network_and_module_def Let_def and_then_Inr)
  have "solve_log eng st [] [] = Inr (s, resp)"
    using ok by (simp add: solve_log_def Let_def st fold_edits_def)
  then show ?thesis using ok(1) by (auto simp: study_inv_def st bounds_ok_def validate_network_edits_def fold_edits_def)
qed

lemma geo_inv:
  assumes "geo_neutral eng" "study_inv eng st" "apply_geo_layer eng st layer = (rep, st')"
  shows "study_inv eng st'"
proof -
  have st': "st' = st\<lparr>base := fst (apply_geo eng layer (base st))\<rparr>"
    using assms(3) by (simp add: apply_geo_layer_def split: prod.splits)
  have "solve_log eng st' lg sens = solve_log eng st lg sens" for lg sens
    using assms(1) by (simp add: st' solve_log_def geo_neutral_def)
  moreover have "validate_network_edits (base st') es = validate_network_edits (base st) es" for es
    using assms(1) by (simp add: st' validate_network_edits_def geo_neutral_def)
  ultimately show ?thesis using assms(2) by (simp add: study_inv_def st')
qed

text \<open>C6: along any run of commits, replacements, constraint changes, forks and coordinate updates, in any
  order and with failures anywhere, the Study shows an exact solve of its base network under the
  whole edit log: solved state and response are what one solve of base plus log returns, the log
  passes the canonical validation, and the commit boundaries are non-decreasing prefix lengths that
  end at the length of the log.\<close>

theorem reachable_study_exact:
  assumes "reachable_study eng st" and "geo_neutral eng"
  shows "study_inv eng st"
  using assms
proof (induction rule: reachable_study.induct)
  case (commit st es sens r st')
  then have "bounds_ok (log st @ es) (commit_bounds st @ [length (log st @ es)])"
    by (intro bounds_ok_append) (simp add: study_inv_def)
  with commit commit_log_inv show ?case unfolding commit_with_def Let_def by blast
next
  case (replace st es sens r st')
  then show ?case unfolding replace_edits_with_def using commit_log_inv bounds_ok_replace by blast
qed (auto intro: start_inv set_constraints_inv geo_inv simp: fork_id)

section \<open>A concrete Study\<close>

text \<open>An engine that solves the two-bus model, with PowerIO calls that always succeed.\<close>

definition witness_engine :: "(unit, unit) engine" where
  "witness_engine = \<lparr>conic = True, e_fmt = (\<lambda>_. []), e_load_new = witness_load,
     dc_from_network = (\<lambda>net. Inr \<lparr>dci_network = net, dci_rest = []\<rparr>),
     dc_with_network = (\<lambda>i net. Inr (i\<lparr>dci_network := net\<rparr>)),
     acpf_from_network = (\<lambda>net. Inr \<lparr>pfi_network = net, specifications = [], initial_point = None\<rparr>),
     acpf_with_network = (\<lambda>i net. Inr (i\<lparr>pfi_network := net\<rparr>)),
     acpf_new = (\<lambda>net sp. Inr \<lparr>pfi_network = net, specifications = sp, initial_point = None\<rparr>),
     acopf_from_network = (\<lambda>net. Inr \<lparr>opi_network = net, opi_rest = []\<rparr>),
     acopf_with_network = (\<lambda>i net. Inr (i\<lparr>opi_network := net\<rparr>)),
     dc_prepare = (\<lambda>_. Inr witness_dc), dc_solve = witness_solve, dc_size = (\<lambda>_. (0, 0)),
     dc_cells = (\<lambda>_ _ _. Inr []), ac_pf_solve = (\<lambda>_ _. Inr ()), ac_pf_assemble = (\<lambda>_ _. Inl ''none''),
     socwr_solve = (\<lambda>_ _. Inr ()), socwr_assemble = (\<lambda>_ _. Inl ''none''), socwr_economic = (\<lambda>_. False),
     socwr_duals = (\<lambda>_. []), socwr_base = (\<lambda>_. 1), socwr_bounds = (\<lambda>_. []),
     system_of = (\<lambda>_. Inr \<lparr>parameter_len = (\<lambda>_. Some 2), operand_len = (\<lambda>_. Some 2),
        operand_selector = (\<lambda>_. Inr [0, 1]), element_id = (\<lambda>_ i. BusElement (i + 1)),
        sys_solve_spec = \<lparr>eps = 0, refine_iters = 0, tol_factor = 1\<rparr>,
        run_cells = map_sum id (map (\<lambda>_. \<lparr>sm_values = [[1]], sm_rows = [(BusElement 1, 0)], sm_units = ''MW''\<rparr>)) \<circ> Inr,
        functional_gradient = (\<lambda>_ ds. Inr (map (\<lambda>_. 1) ds))\<rparr>),
     emit_dc = (\<lambda>_ _ _. Inr []), emit_ac_pf = (\<lambda>_ _. Inr []), emit_socwr = (\<lambda>_ _. Inr []),
     deserialize_module = (\<lambda>_. Inr \<lparr>pm_value = OtherValue [],
        pm_history = [\<lparr>he_id = ''tellegen-edit-1'', he_name = [], he_parameters = []\<rparr>], pm_rest = []\<rparr>),
     type_name = (\<lambda>_. ''value''), network_json = (\<lambda>_. Inr []), serialize_module = (\<lambda>_. Inr []), sever_rest = id,
     history_entry_new = Inr, history_add = (\<lambda>m h. Inr (m\<lparr>pm_history := pm_history m @ [h]\<rparr>)),
     apply_geo = (\<lambda>_ net. (net, []))\<rparr>"

definition witness_response :: solve_response where
  "witness_response = \<lparr>resp_formulation = DcOpf, resp_objective = Some 0,
     lmp = Some [\<lparr>bs_bus = 1, bs_uid = None, bs_value = 0\<rparr>, \<lparr>bs_bus = 2, bs_uid = None, bs_value = 0\<rparr>], lmp_q = None, vm = None,
     va = Some [\<lparr>bs_bus = 1, bs_uid = None, bs_value = 0\<rparr>, \<lparr>bs_bus = 2, bs_uid = None, bs_value = 0\<rparr>], resp_w = None, wr = None,
     wi = None, injections = None,
     flows = Some [\<lparr>bf_branch = 1, bf_uid = None, pf = 0, loading = 0, qf = None, pt = None, qt = None\<rparr>],
     dispatch = Some [\<lparr>gd_gen = 1, gd_bus = Some 1, pg = 0, qg = None\<rparr>], resp_constraints = None, resp_diagnostics = [],
     resp_limit_rounds = None, resp_rest = []\<rparr>"

definition witness_study :: "(unit, unit) study" where
  "witness_study = \<lparr>formulation = DcOpf, study_input = BalancedNetworkInput, base = witness_net, base_module_json = [],
     log = [], commit_bounds = [], study_constraints = [],
     study_solved = DcState (witness_dc\<lparr>allow_shed := False\<rparr>) witness_solution, last_response = witness_response\<rparr>"

lemma witness_study_starts: "from_network_and_module witness_engine witness_net BalancedNetworkInput DcOpf [] = Inr witness_study"
  by code_simp

lemma witness_geo: "geo_neutral witness_engine"
  by (simp add: geo_neutral_def witness_engine_def)

theorem reachable_study_exact_witness:
  "reachable_study witness_engine (snd (commit witness_engine witness_study [AddLoad (Id 1) 1])) \<and>
   study_inv witness_engine (snd (commit witness_engine witness_study [AddLoad (Id 1) 1]))"
proof -
  let ?c = "commit_with witness_engine witness_study [AddLoad (Id 1) 1] []"
  have "reachable_study witness_engine witness_study" using witness_study_starts by (rule reachable_study.start)
  moreover have "?c = (fst ?c, snd ?c)" by simp
  ultimately have "reachable_study witness_engine (snd ?c)" by (rule reachable_study.commit)
  with reachable_study_exact [OF this witness_geo] show ?thesis by (simp add: commit_def)
qed

lemma commit_with_outcome:
  "(\<exists>e. commit_with eng st es sens = (Inl e, st)) \<or>
   (\<exists>s resp. validate_network_edits (base st) (log st @ es) = Inr () \<and> solve_log eng st (log st @ es) sens = Inr (s, resp) \<and>
     commit_with eng st es sens = (Inr resp, st\<lparr>log := log st @ es,
       commit_bounds := commit_bounds st @ [length (log st) + length es], study_solved := s, last_response := resp\<rparr>))"
  unfolding commit_with_def Let_def length_append by (rule commit_log_cases) blast+

lemma replace_edits_outcome:
  "(\<exists>e. replace_edits_with eng st es sens = (Inl e, st)) \<or>
   (\<exists>s resp. validate_network_edits (base st) es = Inr () \<and> solve_log eng st es sens = Inr (s, resp) \<and>
     replace_edits_with eng st es sens = (Inr resp, st\<lparr>log := es,
       commit_bounds := (if es = [] then [] else [length es]), study_solved := s, last_response := resp\<rparr>))"
  unfolding replace_edits_with_def by (rule commit_log_cases) blast+

lemma set_constraints_outcome:
  "(\<exists>e. set_constraints eng st cs = (Inl e, st)) \<or>
   (\<exists>s resp. solve_log eng (st\<lparr>study_constraints := cs\<rparr>) (log st) [] = Inr (s, resp) \<and>
     set_constraints eng st cs = (Inr resp, st\<lparr>study_constraints := cs, study_solved := s, last_response := resp\<rparr>))"
  by (rule set_constraints_cases) blast+

text \<open>C5: a state-changing call is all or nothing. A refused commit, replacement or constraint change
  leaves every field of the Study as it was; an accepted one was validated and solved from the base
  network, becomes the committed state and is the returned response. Constraints survive commits,
  and edits survive constraint changes.\<close>

theorem commit_all_or_nothing:
  "((\<exists>e. commit_with eng st es sens = (Inl e, st)) \<or>
   (\<exists>s resp. validate_network_edits (base st) (log st @ es) = Inr () \<and> solve_log eng st (log st @ es) sens = Inr (s, resp) \<and>
     commit_with eng st es sens = (Inr resp, st\<lparr>log := log st @ es,
       commit_bounds := commit_bounds st @ [length (log st) + length es], study_solved := s, last_response := resp\<rparr>))) \<and>
   ((\<exists>e. replace_edits_with eng st es sens = (Inl e, st)) \<or>
   (\<exists>s resp. validate_network_edits (base st) es = Inr () \<and> solve_log eng st es sens = Inr (s, resp) \<and>
     replace_edits_with eng st es sens = (Inr resp, st\<lparr>log := es,
       commit_bounds := (if es = [] then [] else [length es]), study_solved := s, last_response := resp\<rparr>))) \<and>
   ((\<exists>e. set_constraints eng st cs = (Inl e, st)) \<or>
   (\<exists>s resp. solve_log eng (st\<lparr>study_constraints := cs\<rparr>) (log st) [] = Inr (s, resp) \<and>
     set_constraints eng st cs = (Inr resp, st\<lparr>study_constraints := cs, study_solved := s, last_response := resp\<rparr>)))"
  by (intro conjI commit_with_outcome replace_edits_outcome set_constraints_outcome)

text \<open>C26: commits do not drift. Committing one batch and then another leaves exactly the Study that a
  single replacement by the concatenated log would leave, response included; only the recorded
  boundaries keep the history of the batches.\<close>

theorem commits_do_not_drift:
  assumes "commit_with eng st es sens = (Inr r1, st1)" and "commit_with eng st1 fs sens' = (Inr r2, st2)"
  shows "replace_edits_with eng st (log st @ es @ fs) sens' =
     (Inr r2, st2\<lparr>commit_bounds := (if log st @ es @ fs = [] then [] else [length (log st @ es @ fs)])\<rparr>) \<and>
     commit_bounds st2 = commit_bounds st @ [length (log st @ es), length (log st @ es @ fs)]"
proof -
  from commit_with_outcome [of eng st es sens] assms(1) obtain s1 where
    st1: "st1 = st\<lparr>log := log st @ es, commit_bounds := commit_bounds st @ [length (log st) + length es],
            study_solved := s1, last_response := r1\<rparr>" by auto
  from commit_with_outcome [of eng st1 fs sens'] assms(2) obtain s2 where
    ok: "validate_network_edits (base st1) (log st1 @ fs) = Inr ()" "solve_log eng st1 (log st1 @ fs) sens' = Inr (s2, r2)"
    and st2: "st2 = st1\<lparr>log := log st1 @ fs, commit_bounds := commit_bounds st1 @ [length (log st1) + length fs],
            study_solved := s2, last_response := r2\<rparr>" by auto
  have "solve_log eng st (log st @ es @ fs) sens' = Inr (s2, r2)"
    using ok(2) by (subst solve_log_cong [of st st1]) (simp_all add: st1)
  moreover have "validate_network_edits (base st) (log st @ es @ fs) = Inr ()" using ok(1) by (simp add: st1)
  ultimately have "replace_edits_with eng st (log st @ es @ fs) sens' =
    (Inr r2, st\<lparr>log := log st @ es @ fs, commit_bounds := (if log st @ es @ fs = [] then [] else [length (log st @ es @ fs)]),
       study_solved := s2, last_response := r2\<rparr>)"
    by (simp add: replace_edits_with_def commit_log_def)
  then show ?thesis by (simp add: st2 st1)
qed

lemma witness_study_log: "log witness_study = []"
  by code_simp

lemma witness_commit_ok: "is_ok (fst (commit_with witness_engine witness_study [AddLoad (Id 1) 1] []))"
  by code_simp

lemma witness_commit_again:
  "is_ok (fst (commit_with witness_engine (snd (commit_with witness_engine witness_study [AddLoad (Id 1) 1] [])) [] []))"
  by code_simp

theorem commits_do_not_drift_witness:
  "\<exists>r st'. replace_edits_with witness_engine witness_study [AddLoad (Id 1) 1] [] = (Inr r, st') \<and> commit_bounds st' = [1]"
proof -
  let ?c1 = "commit_with witness_engine witness_study [AddLoad (Id 1) 1] []"
  let ?c2 = "commit_with witness_engine (snd ?c1) [] []"
  obtain r1 where r1: "fst ?c1 = Inr r1" using is_ok_obtain [OF witness_commit_ok] by blast
  obtain r2 where r2: "fst ?c2 = Inr r2" using is_ok_obtain [OF witness_commit_again] by blast
  have "?c1 = (Inr r1, snd ?c1)" "?c2 = (Inr r2, snd ?c2)" using r1 r2 by (simp_all add: prod_eq_iff)
  from commits_do_not_drift [OF this, THEN conjunct1, unfolded witness_study_log append_Nil append_Nil2]
  show ?thesis by (intro exI conjI) (assumption, simp)
qed

section \<open>History of a saved module\<close>

lemma next_free_unused: "edit_id (next_free used n) \<notin> set used \<and> n \<le> next_free used n"
proof (induction used n rule: next_free.induct)
  case (1 used n)
  then show ?case by (subst (1 2) next_free.simps) auto
qed

text \<open>What PowerIO promises of history entries: construction keeps the entry, addition appends it.\<close>

definition history_lawful :: "('a, 'c) engine \<Rightarrow> bool" where
  "history_lawful eng \<longleftrightarrow> (\<forall>e e'. history_entry_new eng e = Inr e' \<longrightarrow> e' = e) \<and>
     (\<forall>m e m'. history_add eng m e = Inr m' \<longrightarrow> m' = m\<lparr>pm_history := pm_history m @ [e]\<rparr>)"

definition entry_of :: "nat \<Rightarrow> NetworkEdit \<Rightarrow> history_entry" where
  "entry_of n edit = (case edit of
     AddLoad bus p \<Rightarrow> \<lparr>he_id = edit_id n, he_name = ''tellegen.add_load'',
       he_parameters = [(''bus'', KeyJson bus), (''p_mw'', NumberJson p)]\<rparr>
   | AdjustBranchRating branch d \<Rightarrow> \<lparr>he_id = edit_id n, he_name = ''tellegen.adjust_branch_rating'',
       he_parameters = [(''branch'', KeyJson branch), (''delta_mw'', NumberJson d)]\<rparr>)"

lemma edit_entry_Inr:
  assumes "history_lawful eng" "edit_entry eng n edit = Inr entry"
  shows "entry = entry_of n edit"
proof -
  have "''bus'' < ''p_mw''" "''branch'' < ''delta_mw''" by code_simp+
  with assms show ?thesis
    by (cases edit) (auto simp: edit_entry_def entry_of_def edit_id_def history_lawful_def dest!: spec)
qed

lemma entry_of_id [simp]: "he_id (entry_of n edit) = edit_id n"
  by (cases edit) (simp_all add: entry_of_def)

lemma retain_fold:
  assumes "history_lawful eng" "try_fold (retain_step eng) (m, used, n) lg = Inr (m', used', n')"
    and "set used = set (map he_id (pm_history m))"
  shows "\<exists>ns. length ns = length lg \<and> sorted_wrt (<) ns \<and> (\<forall>i \<in> set ns. n \<le> i \<and> edit_id i \<notin> set (map he_id (pm_history m))) \<and>
    m' = m\<lparr>pm_history := pm_history m @ map2 entry_of ns lg\<rparr>"
  using assms(2,3)
proof (induction lg arbitrary: m used n)
  case (Cons e lg)
  let ?k = "next_free used n"
  from Cons.prems(1) obtain entry m1 where s: "edit_entry eng ?k e = Inr entry" "history_add eng m entry = Inr m1"
    and rest: "try_fold (retain_step eng) (m1, he_id entry # used, ?k + 1) lg = Inr (m', used', n')"
    by (auto simp: retain_step_def Let_def and_then_Inr)
  note entry = edit_entry_Inr [OF assms(1) s(1)]
  have m1: "m1 = m\<lparr>pm_history := pm_history m @ [entry_of ?k e]\<rparr>" using assms(1) s(2) by (auto simp: history_lawful_def entry)
  have "set (he_id entry # used) = set (map he_id (pm_history m1))" using Cons.prems(2) by (simp add: m1 entry)
  from Cons.IH [OF rest this] obtain ns where ns: "length ns = length lg" "sorted_wrt (<) ns"
    "\<forall>i \<in> set ns. ?k + 1 \<le> i \<and> edit_id i \<notin> set (map he_id (pm_history m1))"
    "m' = m1\<lparr>pm_history := pm_history m1 @ map2 entry_of ns lg\<rparr>" by blast
  have free: "edit_id ?k \<notin> set (map he_id (pm_history m))" "n \<le> ?k"
    using next_free_unused [of used n] Cons.prems(2) by auto
  show ?case
  proof (intro exI [of _ "?k # ns"] conjI)
    show "\<forall>i \<in> set (?k # ns). n \<le> i \<and> edit_id i \<notin> set (map he_id (pm_history m))"
      using ns(3) free by (auto simp: m1)
  qed (use ns in \<open>auto simp: m1 Suc_le_eq\<close>)
qed auto

text \<open>A saved module keeps every history entry of the source module and adds one entry per edit of
  the log, in log order, naming the edit's element key and step. The scan for entry ids always ends
  with an id no entry uses, so the added ids are distinct and new, also when a module saved earlier
  by the same program is the source.\<close>

theorem saved_history_fresh:
  assumes "history_lawful eng" and "retained_module eng st value = Inr m'"
    and "deserialize_module eng (base_module_json st) = Inr m"
  shows "\<exists>ns. length ns = length (log st) \<and> pm_history m' = pm_history m @ map2 entry_of ns (log st) \<and>
     distinct (map edit_id ns) \<and> edit_id ` set ns \<inter> he_id ` set (pm_history m) = {} \<and> pm_value m' = value"
proof -
  let ?m = "m\<lparr>pm_value := value, pm_rest := sever_rest eng (pm_rest m)\<rparr>"
  from assms(2,3) obtain used' n' where
    "try_fold (retain_step eng) (?m, map he_id (pm_history ?m), length (pm_history ?m)) (log st) = Inr (m', used', n')"
    by (auto simp: retained_module_def electrical_module_def and_then_Inr)
  from retain_fold [OF assms(1) this] obtain ns where ns: "length ns = length (log st)" "sorted_wrt (<) ns"
    "\<forall>i \<in> set ns. edit_id i \<notin> set (map he_id (pm_history m))" "m' = ?m\<lparr>pm_history := pm_history m @ map2 entry_of ns (log st)\<rparr>"
    by auto
  have "distinct (map edit_id ns)" using ns(2) by (simp add: distinct_map strict_sorted_iff inj_on_def edit_id_inj)
  with ns show ?thesis by (intro exI [of _ ns]) auto
qed

lemma map_sum_InrD: "map_sum id f r = Inr y \<Longrightarrow> \<exists>x. r = Inr x \<and> f x = y"
  by (cases r) auto

lemma witness_retained:
  "map_sum id (\<lambda>m. map he_id (pm_history m))
     (retained_module witness_engine (witness_study\<lparr>log := [AddLoad (Id 1) 1, AddLoad (Id 1) 1]\<rparr>) (OtherValue [])) =
   Inr [''tellegen-edit-1'', ''tellegen-edit-2'', ''tellegen-edit-3'']"
  by code_simp

lemma witness_history_lawful: "history_lawful witness_engine" "\<exists>m. deserialize_module witness_engine j = Inr m"
  by (simp_all add: history_lawful_def witness_engine_def)

theorem saved_history_fresh_witness:
  "\<exists>m'. retained_module witness_engine (witness_study\<lparr>log := [AddLoad (Id 1) 1, AddLoad (Id 1) 1]\<rparr>) (OtherValue []) = Inr m' \<and>
     map he_id (pm_history m') = [''tellegen-edit-1'', ''tellegen-edit-2'', ''tellegen-edit-3''] \<and> pm_value m' = OtherValue []"
proof -
  from map_sum_InrD [OF witness_retained] obtain m' where
    ok: "retained_module witness_engine (witness_study\<lparr>log := [AddLoad (Id 1) 1, AddLoad (Id 1) 1]\<rparr>) (OtherValue []) = Inr m'"
    and ids: "map he_id (pm_history m') = [''tellegen-edit-1'', ''tellegen-edit-2'', ''tellegen-edit-3'']" by (elim exE conjE)
  from saved_history_fresh [OF witness_history_lawful(1) ok] witness_history_lawful(2) have "pm_value m' = OtherValue []" by blast
  with ok ids show ?thesis by (intro exI conjI)
qed

section \<open>Outer goals and instances\<close>

lemma gradient_entries_names:
  "map dd_decision (gradient_entries st space ev ds) = take (length ds) (map dv_id (ds_variables space))"
proof -
  have "map dd_decision (gradient_entries st space ev ds) = map dv_id (map fst (zip (ds_variables space) ds))"
    by (simp add: gradient_entries_def comp_def case_prod_unfold)
  then show ?thesis by (simp add: map_fst_zip_take take_map min_def)
qed


text \<open>a commit of no edits is a commit: it solves the same log again and still counts, so a Study
  without edits can report commits.\<close>

theorem empty_commit_counts:
  assumes "commit eng st [] = (Inr r, st')"
  shows "log st' = log st \<and> commits st' = commits st + 1"
  using commit_with_outcome [of eng st "[]" "[]"] assms by (auto simp: commit_def commits_def)

lemma shift_fold:
  assumes "try_fold (\<lambda>sp (row, b). and_then (bus_delta net (bus_id b) 0 lg) (\<lambda>d.
       Inr (sp[row := shift_specification d (sp ! row)]))) specs (zip [k..<k + length bs] bs) = Inr specs'"
    and "k + length bs \<le> length specs"
  shows "length specs' = length specs \<and> (\<forall>i < length specs. if k \<le> i \<and> i < k + length bs
    then (\<exists>d. bus_delta net (bus_id (bs ! (i - k))) 0 lg = Inr d \<and> specs' ! i = shift_specification d (specs ! i))
    else specs' ! i = specs ! i)"
  using assms
proof (induction bs arbitrary: k specs)
  case (Cons b bs)
  have up: "[k..<k + length (b # bs)] = k # [Suc k..<Suc k + length bs]" by (simp add: upt_rec)
  from Cons.prems(1) obtain d where d: "bus_delta net (bus_id b) 0 lg = Inr d"
    and rest: "try_fold (\<lambda>sp (row, b). and_then (bus_delta net (bus_id b) 0 lg) (\<lambda>d.
       Inr (sp[row := shift_specification d (sp ! row)]))) (specs[k := shift_specification d (specs ! k)])
       (zip [Suc k..<Suc k + length bs] bs) = Inr specs'"
    unfolding up by (auto simp: and_then_Inr)
  have pre: "Suc k + length bs \<le> length (specs[k := shift_specification d (specs ! k)])" using Cons.prems(2) by simp
  note ih = Cons.IH [OF rest pre, unfolded length_list_update]
  show ?case
  proof (intro conjI ih [THEN conjunct1] allI impI)
    fix i assume i: "i < length specs"
    note IHi = ih [THEN conjunct2, rule_format, OF i]
    show "if k \<le> i \<and> i < k + length (b # bs)
      then (\<exists>d. bus_delta net (bus_id ((b # bs) ! (i - k))) 0 lg = Inr d \<and> specs' ! i = shift_specification d (specs ! i))
      else specs' ! i = specs ! i"
    proof (cases "i = k")
      case True
      with IHi i d show ?thesis by simp
    next
      case False
      with IHi i show ?thesis by (auto simp: nth_Cons' split: if_splits)
    qed
  qed
qed auto

text \<open>The demand steps of a log as they count at one bus, zero for a step elsewhere.\<close>

fun bus_steps :: "network \<Rightarrow> nat \<Rightarrow> NetworkEdit list \<Rightarrow> f64 list" where
  "bus_steps net i [] = []"
| "bus_steps net i (AddLoad key a # es) = (if source_element_id net AxisBus key = Inr i then a else 0) # bus_steps net i es"
| "bus_steps net i (AdjustBranchRating _ _ # es) = bus_steps net i es"

lemma bus_delta_steps: "bus_delta net i acc lg = Inr d \<Longrightarrow> d = foldl (+) acc (bus_steps net i lg)"
  by (induction net i acc lg rule: bus_delta.induct) (auto simp: and_then_Inr split: if_splits)

text \<open>The bus specifications of a saved AC power flow instance follow the demand edits: the row of
  each bus keeps its kind and its other fields, a PQ or PV injection drops by the sum of the log's
  demand steps that name the bus, by id or by uid, and every other specification is kept.\<close>

theorem saved_specifications_follow_demand:
  assumes ok: "materialized_instance eng st = Inr v" and input: "study_input st = AcPfInput inst"
    and "\<forall>net sp i. acpf_new eng net sp = Inr i \<longrightarrow> specifications i = sp"
    and len: "length (specifications inst) = length (buses (base st))"
  shows "\<exists>i. v = AcPfInstanceValue i \<and> length (specifications i) = length (specifications inst) \<and>
    (\<forall>row < length (buses (base st)). specifications i ! row =
       shift_specification (foldl (+) 0 (bus_steps (base st) (bus_id (buses (base st) ! row)) (log st))) (specifications inst ! row))"
proof -
  from ok input obtain net specs rebound exact where
    net: "materialized_network eng st = Inr net" and specs: "shift_rows st net (specifications inst) = Inr specs"
    and "acpf_with_network eng inst net = Inr rebound" and new: "acpf_new eng net specs = Inr exact"
    and v: "v = AcPfInstanceValue (case initial_point rebound of None \<Rightarrow> exact | Some p \<Rightarrow> exact\<lparr>initial_point := Some p\<rparr>)"
    by (auto simp: materialized_instance_def and_then_Inr)
  have "same_but_edits (base st) net" using net unfolding materialized_network_def by (rule apply_network_edits_same)
  then have "buses (net\<lparr>loads := [], branches := []\<rparr>) = buses ((base st)\<lparr>loads := [], branches := []\<rparr>)"
    unfolding same_but_edits_def by simp
  then have bs: "buses net = buses (base st)" by simp
  have spec: "specifications (case initial_point rebound of None \<Rightarrow> exact | Some p \<Rightarrow> exact\<lparr>initial_point := Some p\<rparr>) = specs"
    using assms(3) new by (auto split: option.splits)
  have "length specs = length (specifications inst) \<and> (\<forall>i < length (specifications inst). if 0 \<le> i \<and> i < 0 + length (buses (base st))
    then (\<exists>d. bus_delta (base st) (bus_id (buses (base st) ! (i - 0))) 0 (log st) = Inr d \<and> specs ! i = shift_specification d (specifications inst ! i))
    else specs ! i = specifications inst ! i)"
    using specs len by (intro shift_fold) (simp_all add: shift_rows_def bs)
  then show ?thesis using len by (intro exI [of _ "case initial_point rebound of None \<Rightarrow> exact | Some p \<Rightarrow> exact\<lparr>initial_point := Some p\<rparr>"] conjI v)
    (auto simp: spec dest!: bus_delta_steps)
qed

definition witness_acpf :: "(unit, unit) study" where
  "witness_acpf = witness_study\<lparr>study_input := AcPfInput \<lparr>pfi_network = witness_net, specifications = [Pq f64_two []], initial_point = None\<rparr>,
     log := [AddLoad (Uid ''buses:0'') 1]\<rparr>"

lemma witness_acpf_facts: "is_ok (materialized_instance witness_engine witness_acpf)" "base witness_acpf = witness_net"
  "foldl (+) 0 (bus_steps witness_net 1 (log witness_acpf)) = 1" "f64_two - 1 = (1 :: f64)" "length (buses witness_net) = 1"
  "bus_id (buses witness_net ! 0) = 1"
  by code_simp+

theorem saved_specifications_follow_demand_witness:
  "\<exists>i. materialized_instance witness_engine witness_acpf = Inr (AcPfInstanceValue i) \<and> specifications i ! 0 = Pq 1 []"
proof -
  from is_ok_obtain [OF witness_acpf_facts(1)] obtain v where v: "materialized_instance witness_engine witness_acpf = Inr v" by blast
  have "study_input witness_acpf = AcPfInput \<lparr>pfi_network = witness_net, specifications = [Pq f64_two []], initial_point = None\<rparr>"
    by (simp add: witness_acpf_def)
  moreover have "\<forall>net sp i. acpf_new witness_engine net sp = Inr i \<longrightarrow> specifications i = sp" by (auto simp: witness_engine_def)
  ultimately obtain i where i: "v = AcPfInstanceValue i" "specifications i ! 0 =
       shift_specification (foldl (+) 0 (bus_steps (base witness_acpf) (bus_id (buses (base witness_acpf) ! 0)) (log witness_acpf))) (Pq f64_two [])"
    using saved_specifications_follow_demand [OF v] witness_acpf_facts(2,5) by fastforce
  then have "specifications i ! 0 = Pq 1 []" unfolding witness_acpf_facts(2,6,3) by (simp add: witness_acpf_facts(4))
  with i(1) v show ?thesis by blast
qed

definition witness_space :: decision_space where
  "witness_space = \<lparr>ds_variables = [\<lparr>dv_id = ''a'', dv_element = Id 1, intervention = BranchRating, lower = - 1, upper = 1, increment = 1,
     budget_weight = 1\<rparr>], total_budget = 1, max_changed_elements = 1, ds_demand = None\<rparr>"

lemma witness_f64_facts: "is_finite (1 :: f64)" "is_finite (- 1 :: f64)" "\<not> 1 < (- 1 :: f64)" "\<not> 1 \<le> (0 :: f64)" "\<not> 1 < (0 :: f64)"
  by code_simp+

lemma witness_space_ok: "validate_space True witness_space DcOpf = Inr ()"
  by (simp add: validate_space_def check_variable_def check_demand_total_def witness_space_def witness_f64_facts)

lemma witness_goal_ok: "validate_objective (InterventionPenalty ''a'' 1 0) witness_space = Inr ()"
  by (simp add: validate_objective_def witness_space_def walk_Inr(1) witness_f64_facts and_then_Inr)

lemma witness_change_ok:
  "err_if (length [0 :: f64] \<noteq> length (ds_variables witness_space) \<or> (\<exists>x \<in> set [0 :: f64]. \<not> is_finite x)) e = Inr ()"
  by (simp add: witness_space_def)

lemma witness_selectors: "conic witness_engine = True" "formulation witness_study = DcOpf"
  by (simp_all add: witness_engine_def witness_study_def)

lemma witness_gradient_ok:
  "is_ok (objective_gradient witness_engine witness_study (InterventionPenalty ''a'' 1 0) witness_space [0])"
  unfolding objective_gradient_def witness_selectors witness_space_ok witness_goal_ok witness_change_ok and_then_simps
  by code_simp


lemma witness_empty_commit: "is_ok (fst (commit witness_engine witness_study []))"
  by code_simp

theorem empty_commit_counts_witness:
  "\<exists>r st'. commit witness_engine witness_study [] = (Inr r, st') \<and> log st' = [] \<and> commits st' = 1"
proof -
  from is_ok_obtain [OF witness_empty_commit] obtain r where r: "fst (commit witness_engine witness_study []) = Inr r" by blast
  then have "commit witness_engine witness_study [] = (Inr r, snd (commit witness_engine witness_study []))" by (simp add: prod_eq_iff)
  moreover from empty_commit_counts [OF this] have "log (snd (commit witness_engine witness_study [])) = []"
    "commits (snd (commit witness_engine witness_study [])) = 1" by (simp_all add: witness_study_def commits_def)
  ultimately show ?thesis by (intro exI conjI)
qed

end
