(* ===== verification/Preview.thy ===== *)
theory Preview
  imports Session
begin

text \<open>
  What a Study shows without solving again (\<open>src/crates/tellegen/src/study.rs\<close>): first-order
  previews of an edit set or of a replacement, grouped by parameter and merged per operand, the
  inequality boundaries active at the committed solution, and the export of the committed case.
  Sensitivity cells come from the engine; the conic boundaries are computed there too.
\<close>

section \<open>Predicted columns\<close>

record preview_value =
  pv_element :: ElementId
  pv_index :: nat
  pv_value :: f64

record preview_column =
  pc_operand :: Operand
  pc_values :: "preview_value list"
  pc_units :: string

record preview =
  pr_operands :: "preview_column list"
  pr_objective_delta :: "f64 option"
  pr_local_only :: bool

definition strip_prefix :: "string \<Rightarrow> string \<Rightarrow> string option" where
  "strip_prefix p s = (if take (length p) s = p then Some (drop (length p) s) else None)"

definition strip_suffix :: "string \<Rightarrow> string \<Rightarrow> string option" where
  "strip_suffix p s = map_option rev (strip_prefix (rev p) (rev s))"

definition is_whitespace :: "char \<Rightarrow> bool" where
  "is_whitespace c \<longleftrightarrow> c = CHR '' '' \<or> (CHR 0x09 \<le> c \<and> c \<le> CHR 0x0D)"

definition str_trim :: "string \<Rightarrow> string" where
  "str_trim s = rev (dropWhile is_whitespace (rev (dropWhile is_whitespace s)))"

definition operand_unit :: "string \<Rightarrow> string" where
  "operand_unit ratio =
     (let s = str_trim (case strip_suffix ''/MW'' ratio of Some r \<Rightarrow> r
                | None \<Rightarrow> (case strip_suffix ''/MVA'' ratio of Some r \<Rightarrow> r | None \<Rightarrow> ratio))
      in case Option.bind (strip_prefix ''('' s) (strip_suffix '')'') of Some inner \<Rightarrow> inner | None \<Rightarrow> s)"

definition dot :: "f64 list \<Rightarrow> f64 list \<Rightarrow> f64" where
  "dot xs ys = f64_sum (map (\<lambda>(x, y). x * y) (zip xs ys))"

definition preview_columns ::
  "diff_system \<Rightarrow> Parameter \<Rightarrow> nat list \<Rightarrow> f64 list \<Rightarrow> Operand list \<Rightarrow> (string, preview_column list) result" where
  "preview_columns sys parameter cols col_mag watched =
     (if cols = [] then Inr (map (\<lambda>operand. \<lparr>pc_operand = operand, pc_values = [], pc_units = []\<rparr>) watched)
      else and_then (run_cells sys (map (\<lambda>operand. \<lparr>sr_operand = operand, sr_parameter = parameter,
                       sr_indices = Some cols, sr_mode = Auto\<rparr>) watched)) (\<lambda>mats.
        Inr (map (\<lambda>(operand, m). \<lparr>pc_operand = operand,
               pc_values = map (\<lambda>(row, (element, index)). \<lparr>pv_element = element, pv_index = index, pv_value = dot row col_mag\<rparr>)
                 (zip (sm_values m) (sm_rows m)),
               pc_units = operand_unit (sm_units m)\<rparr>) (zip watched mats))))"

fun merge_columns :: "preview_column list \<Rightarrow> preview_column list \<Rightarrow> (string, preview_column list) result" where
  "merge_columns (a # acc) (o1 # other) =
     and_then (if pc_values a = [] then Inr o1
               else if pc_values o1 = [] then Inr a
               else if length (pc_values a) \<noteq> length (pc_values o1) then Inl ''preview merge: operand row mismatch''
               else Inr (a\<lparr>pc_values := map (\<lambda>(av, ov). av\<lparr>pv_value := pv_value av + pv_value ov\<rparr>)
                             (zip (pc_values a) (pc_values o1))\<rparr>)) (\<lambda>c.
     and_then (merge_columns acc other) (\<lambda>cs. Inr (c # cs)))"
| "merge_columns acc _ = Inr acc"

definition merge_preview_columns ::
  "preview_column list \<Rightarrow> preview_column list \<Rightarrow> (string, preview_column list) result" where
  "merge_preview_columns acc other =
     (if length acc \<noteq> length other then Inl ''preview merge: operand count mismatch'' else merge_columns acc other)"

section \<open>Previews\<close>

definition group_step ::
  "(Parameter \<times> (ElementKey, f64) hmap) list \<Rightarrow> NetworkEdit \<Rightarrow> (Parameter \<times> (ElementKey, f64) hmap) list" where
  "group_step groups e = hm_modify (edit_parameter e) [] (add_to (element_key e) (magnitude_mw e)) groups"

definition edit_groups :: "NetworkEdit list \<Rightarrow> (Parameter \<times> (ElementKey, f64) hmap) list" where
  "edit_groups es =
     (let groups = foldl group_step [] es in if groups = [] then [(Demand Active, [])] else groups)"

definition resolve_group ::
  "solve_response \<Rightarrow> Parameter \<times> (ElementKey, f64) hmap \<Rightarrow> Parameter \<times> nat list \<times> f64 list" where
  "resolve_group resp = (\<lambda>(p, mag).
     (p, dense_cols (if parameter_axis p = AxisBranch then response_branch_axis resp else response_bus_axis resp) mag))"

fun merge_groups ::
  "diff_system \<Rightarrow> Operand list \<Rightarrow> preview_column list option \<Rightarrow> (Parameter \<times> nat list \<times> f64 list) list
     \<Rightarrow> (string, preview_column list) result" where
  "merge_groups sys watched merged [] = Inr (case merged of None \<Rightarrow> [] | Some cs \<Rightarrow> cs)"
| "merge_groups sys watched merged ((parameter, cols, col_mag) # rest) =
     and_then (preview_columns sys parameter cols col_mag watched) (\<lambda>cs.
     and_then (case merged of None \<Rightarrow> Inr cs | Some acc \<Rightarrow> merge_preview_columns acc cs) (\<lambda>m.
     merge_groups sys watched (Some m) rest))"

definition group_delta :: "('a, 'c) engine \<Rightarrow> ('a, 'c) solved \<Rightarrow> Parameter \<times> nat list \<times> f64 list \<Rightarrow> f64 option" where
  "group_delta eng s = (\<lambda>(parameter, cols, col_mag).
     if parameter = LineLimit
     then map_option (\<lambda>mu. - dot (map (\<lambda>i. mu ! i) cols) col_mag) (line_shadow_prices s)
     else map_option (\<lambda>lmps. dot (map (\<lambda>i. lmps ! i) cols) col_mag) (state_lmp eng s))"

definition objective_delta ::
  "('a, 'c) engine \<Rightarrow> ('a, 'c) solved \<Rightarrow> (Parameter \<times> nat list \<times> f64 list) list \<Rightarrow> f64 option" where
  "objective_delta eng s groups =
     foldl (\<lambda>acc gr. case (acc, group_delta eng s gr) of (Some a, Some x) \<Rightarrow> Some (a + x) | _ \<Rightarrow> None) (Some 0) groups"

definition is_price :: "Operand \<Rightarrow> bool" where
  "is_price o1 = (case o1 of Price _ \<Rightarrow> True | _ \<Rightarrow> False)"

definition study_preview ::
  "('a, 'c) engine \<Rightarrow> ('a, 'c) study \<Rightarrow> NetworkEdit list \<Rightarrow> Operand list \<Rightarrow> (string, preview) result" where
  "study_preview eng st es watched =
     and_then (validate_network_edits (base st) es) (\<lambda>_.
     and_then (err_if (\<not> has_economic_objective eng (study_solved st) \<and> (\<exists>o1 \<in> set watched. is_price o1))
        ''price preview requires a network_generator_cost objective'') (\<lambda>_.
     (let resolved = map (resolve_group (last_response st)) (edit_groups es)
      in and_then (system_of eng (study_solved st)) (\<lambda>sys.
         and_then (merge_groups sys watched None resolved) (\<lambda>operands.
         Inr \<lparr>pr_operands = operands, pr_objective_delta = objective_delta eng (study_solved st) resolved,
              pr_local_only = True\<rparr>)))))"

definition preview_replacement ::
  "('a, 'c) engine \<Rightarrow> ('a, 'c) study \<Rightarrow> NetworkEdit list \<Rightarrow> Operand list \<Rightarrow> (string, preview) result" where
  "preview_replacement eng st tgt watched =
     and_then (validate_network_edits (base st) tgt) (\<lambda>_.
       study_preview eng st (replacement_step (log st) tgt) watched)"

section \<open>Active constraints\<close>

definition at_bound :: "f64 \<Rightarrow> f64 \<Rightarrow> bool" where
  "at_bound value limit \<longleftrightarrow> is_finite limit \<and> \<bar>value - limit\<bar> \<le> f64_1e_7 * (1 + \<bar>limit\<bar>)"

definition branch_bounds :: "dc_network \<Rightarrow> dc_solution \<Rightarrow> nat \<Rightarrow> (string \<times> f64 \<times> f64) list" where
  "branch_bounds net sol e =
     (let i = branch_identities net ! e
      in (if thermal_limit_active net ! e
          then [(''branch:'' @ i @ '':flow_max'', sol_f sol ! e, fmax net ! e),
                (''branch:'' @ i @ '':flow_min'', sol_f sol ! e, - (fmax net ! e))] else []) @
         (if angle_bound_active net ! e
          then let angle = sol_va sol ! (dc_br_from net ! e) - sol_va sol ! (dc_br_to net ! e)
               in [(''branch:'' @ i @ '':angle_min'', angle, angmin net ! e),
                   (''branch:'' @ i @ '':angle_max'', angle, angmax net ! e)] else []))"

definition generator_bounds :: "dc_network \<Rightarrow> dc_solution \<Rightarrow> nat \<Rightarrow> (string \<times> f64 \<times> f64) list" where
  "generator_bounds net sol g =
     (let i = show_nat (gen_ids net ! g)
      in (if generator_capability_active net ! g
          then [(''generator:'' @ i @ '':p_min'', sol_pg sol ! g, gmin net ! g),
                (''generator:'' @ i @ '':p_max'', sol_pg sol ! g, gmax net ! g)] else []) @
         (case (piecewise_costs net ! g, cost_epigraph sol ! g) of
            (Some cost, Some value) \<Rightarrow>
              map (\<lambda>(segment, (slope, intercept)).
                 (''generator:'' @ i @ '':cost_segment:'' @ show_nat segment, value, slope * sol_pg sol ! g + intercept))
                (zip [0..<length (slopes cost)] (zip (slopes cost) (intercepts cost)))
          | _ \<Rightarrow> []))"

definition row_bounds :: "dc_network \<Rightarrow> linear_row \<times> f64 \<Rightarrow> (string \<times> f64 \<times> f64) list" where
  "row_bounds net = (\<lambda>(row, value).
     (case lower_mw row of None \<Rightarrow> [] | Some limit \<Rightarrow> [(''constraint:'' @ lr_id row @ '':lower'', value, limit / base_mva net)]) @
     (case upper_mw row of None \<Rightarrow> [] | Some limit \<Rightarrow> [(''constraint:'' @ lr_id row @ '':upper'', value, limit / base_mva net)]))"

definition shed_bounds :: "dc_network \<Rightarrow> dc_solution \<Rightarrow> nat \<Rightarrow> (string \<times> f64 \<times> f64) list" where
  "shed_bounds net sol i =
     (let b = show_nat (bus_ids net ! i)
      in [(''bus:'' @ b @ '':shed_min'', psh sol ! i, 0), (''bus:'' @ b @ '':shed_max'', psh sol ! i, demand net ! i)])"

definition state_bounds :: "('a, 'c) engine \<Rightarrow> ('a, 'c) solved \<Rightarrow> (string \<times> f64 \<times> f64) list" where
  "state_bounds eng s =
     (case s of
        DcState net sol \<Rightarrow>
          concat (map (branch_bounds net sol) [0..<dc_m net]) @
          concat (map (generator_bounds net sol) [0..<dc_k net]) @
          concat (map (row_bounds net) (zip (linear_rows net) (linear_values sol))) @
          (if allow_shed net then concat (map (shed_bounds net sol) [0..<dc_n net]) else [])
      | AcPfState _ \<Rightarrow> []
      | ConicState c \<Rightarrow> if conic eng then socwr_bounds eng c else [])"

definition active_constraints :: "('a, 'c) engine \<Rightarrow> ('a, 'c) study \<Rightarrow> string list" where
  "active_constraints eng st =
     sort (remdups (map fst (filter (\<lambda>(_, value, limit). at_bound value limit) (state_bounds eng (study_solved st)))))"

section \<open>Export\<close>

datatype emitted_output = MemoryOutput "(string \<times> string) list" | PathOutput

record exported_case =
  exp_text :: string
  exp_diagnostics :: "string list"
  exp_format :: string
  exp_extension :: string

text \<open>The PowerIO format table and writer, and the decoding of bytes, as the export uses them.\<close>

record writer =
  resolve_format :: "string \<Rightarrow> (string \<times> string option) option"
  memory_destination :: "string \<Rightarrow> (string, string) result"
  emit_module :: "pio_module \<Rightarrow> string \<Rightarrow> string \<Rightarrow> (string, string list \<times> emitted_output) result"
  utf8_text :: "string \<Rightarrow> string option"
  quoted_name :: "string \<Rightarrow> string"
  ascii_lowercase :: "string \<Rightarrow> string"

definition rsplit_last :: "char \<Rightarrow> string \<Rightarrow> string" where
  "rsplit_last c s = rev (takeWhile (\<lambda>x. x \<noteq> c) (rev s))"

definition export :: "writer \<Rightarrow> ('a, 'c) engine \<Rightarrow> ('a, 'c) study \<Rightarrow> string \<Rightarrow> (string, exported_case) result" where
  "export w eng st format =
     and_then (materialized_network eng st) (\<lambda>balanced.
     and_then (retained_module eng st (BalancedNetworkValue balanced)) (\<lambda>module.
     (let destination_name = (case Option.bind (resolve_format w format) snd of
            None \<Rightarrow> ''case'' | Some extension \<Rightarrow> ''case.'' @ extension)
      in and_then (memory_destination w destination_name) (\<lambda>destination.
         and_then (emit_module w module format destination) (\<lambda>(diagnostics, out).
         case out of
           PathOutput \<Rightarrow> Inl ''PowerIO returned a path output for a memory destination''
         | MemoryOutput artifacts \<Rightarrow>
             and_then (err_if (length artifacts \<noteq> 1)
               (''PowerIO returned '' @ show_nat (length artifacts) @ '' artifacts for a one file export'')) (\<lambda>_.
             (let (name, bytes) = last artifacts; artifact_name = rsplit_last (CHR ''/'') name
              in and_then (ok_or (''PowerIO returned the unexpected artifact name '' @ quoted_name w artifact_name)
                   (strip_prefix ''case.'' artifact_name)) (\<lambda>extension.
                 and_then (ok_or ''PowerIO returned a non-UTF-8 text export'' (utf8_text w bytes)) (\<lambda>text.
                 Inr \<lparr>exp_text = text, exp_diagnostics = diagnostics,
                      exp_format = (case resolve_format w format of Some (token, _) \<Rightarrow> token | None \<Rightarrow> ascii_lowercase w format),
                      exp_extension = extension\<rparr>)))))))))"

section \<open>Groups and the fold of an edit set\<close>

lemma group_step_lookup:
  "map_of (group_step groups e) p =
     (if p = edit_parameter e
      then Some (add_to (element_key e) (magnitude_mw e) (case map_of groups p of None \<Rightarrow> [] | Some g \<Rightarrow> g))
      else map_of groups p)"
  by (simp add: group_step_def map_of_hm_modify)

lemma add_to_not_Nil [simp]: "add_to k v m \<noteq> []"
  by (cases m) (auto simp: add_to_def split: if_splits)

definition group_of :: "(ElementKey, f64) hmap \<Rightarrow> (ElementKey, f64) hmap option" where
  "group_of m = (if m = [] then None else Some m)"

lemma groups_fold:
  assumes "map_of groups (Demand Active) = group_of (deltas e)" "map_of groups LineLimit = group_of (rates e)"
  shows "map_of (foldl group_step groups es) (Demand Active) = group_of (deltas (foldl fold_step e es)) \<and>
    map_of (foldl group_step groups es) LineLimit = group_of (rates (foldl fold_step e es))"
  using assms
proof (induction es arbitrary: groups e)
  case (Cons x es)
  have "map_of (group_step groups x) (Demand Active) = group_of (deltas (fold_step e x))"
    "map_of (group_step groups x) LineLimit = group_of (rates (fold_step e x))"
    using Cons.prems by (cases x; auto simp: group_step_lookup group_of_def)+
  from Cons.IH [OF this] show ?case by simp
qed simp

lemma groups_keys: "fst ` set (foldl group_step groups es) = fst ` set groups \<union> edit_parameter ` set es"
proof (induction es arbitrary: groups)
  case (Cons x es)
  show ?case by (simp add: Cons.IH) (auto simp: group_step_def hm_modify_keys)
qed simp

lemma groups_distinct: "distinct (map fst groups) \<Longrightarrow> distinct (map fst (foldl group_step groups es))"
  by (induction es arbitrary: groups) (simp_all add: group_step_def hm_modify_distinct)

lemma edit_parameter_range: "edit_parameter e \<in> {Demand Active, LineLimit}"
  by (cases e) simp_all

text \<open>A preview differentiates along exactly the step that a commit of the same edits would fold onto
  the request: each parameter has one group, the demand group holds the folded demand deltas, the
  rating group the folded rating deltas, a kind without edits has no group, and an empty edit set is
  a demand step of nothing.\<close>

theorem preview_groups_are_the_fold:
  "edit_groups es = (if es = [] then [(Demand Active, [])] else foldl group_step [] es) \<and>
   distinct (map fst (edit_groups es)) \<and>
   (es \<noteq> [] \<longrightarrow> map_of (edit_groups es) (Demand Active) = group_of (deltas (fold_edits es)) \<and>
     map_of (edit_groups es) LineLimit = group_of (rates (fold_edits es)) \<and>
     fst ` set (edit_groups es) \<subseteq> {Demand Active, LineLimit})"
proof (cases "es = []")
  case True
  then show ?thesis by (simp add: edit_groups_def)
next
  case False
  then have "fst ` set (foldl group_step [] es) \<noteq> {}" by (simp add: groups_keys)
  then have eq: "edit_groups es = foldl group_step [] es" by (auto simp: edit_groups_def Let_def)
  have "fst ` set (foldl group_step [] es) \<subseteq> {Demand Active, LineLimit}"
    using edit_parameter_range by (auto simp: groups_keys)
  moreover have "distinct (map fst (foldl group_step [] es))" by (rule groups_distinct) simp
  moreover note groups_fold [of "[]" "\<lparr>deltas = [], rates = []\<rparr>" es]
  ultimately show ?thesis using False by (simp add: eq fold_edits_def group_of_def)
qed

section \<open>Previewing the committed state\<close>

lemma step_value_same: "is_finite x \<Longrightarrow> step_value (Some x) (Some x) = None"
  by (simp add: step_value_def f64_minus_self f64_eq_def)

lemma replacement_step_self:
  assumes "validate_network_edits net lg = Inr ()"
  shows "replacement_step lg lg = []"
proof -
  note ok = assms [unfolded validate_network_edits_def validate_canonical_edits_Inr]
  have fin: "is_finite v" if "map_of (deltas (fold_edits lg)) k = Some v \<or> map_of (rates (fold_edits lg)) k = Some v" for k v
    using ok that by (auto simp: demand_edit_ok_def rating_edit_ok_def dest!: map_of_SomeD)
  have "step_value (map_of (deltas (fold_edits lg)) k) (map_of (deltas (fold_edits lg)) k) = None"
    "step_value (map_of (rates (fold_edits lg)) k) (map_of (rates (fold_edits lg)) k) = None" for k
    using fin [of k] by (cases "map_of (deltas (fold_edits lg)) k"; cases "map_of (rates (fold_edits lg)) k";
        simp add: step_value_same; simp add: step_value_def)+
  then have "AddLoad k v \<notin> set (replacement_step lg lg)" "AdjustBranchRating k v \<notin> set (replacement_step lg lg)" for k v
    by (simp_all add: replacement_step_mem flip: fold_edits_lookup)
  then have "e \<notin> set (replacement_step lg lg)" for e by (cases e) simp_all
  then show ?thesis by (metis list.set_sel(1))
qed

lemma dense_cols_Nil [simp]: "dense_cols axis [] = ([], [])"
  by (simp add: dense_cols_def)

lemma f64_zero_neg_zero: "0 + f64_neg_zero = 0"
  by (simp add: f64_zero_plus f64_neg_zero_def is_nan_def inf_mag_def)

lemma empty_preview:
  assumes "study_preview eng st [] watched = Inr p"
  shows "pr_operands p = map (\<lambda>operand. \<lparr>pc_operand = operand, pc_values = [], pc_units = []\<rparr>) watched \<and>
    pr_objective_delta p = map_option (\<lambda>_. 0) (state_lmp eng (study_solved st))"
  using assms
  by (auto simp: study_preview_def and_then_Inr Let_def edit_groups_def resolve_group_def preview_columns_def
      objective_delta_def group_delta_def dot_def f64_sum_def f64_zero_neg_zero split: option.splits)

text \<open>a Study predicts no change for the state it is already in: the preview of replacing a
  validated edit log by itself differentiates along no step, so each watched operand has an empty
  column, and the objective moves by zero where the formulation has marginal prices and is left out
  where it has none.\<close>

theorem preview_of_committed_log:
  assumes "validate_network_edits (base st) (log st) = Inr ()"
    and "preview_replacement eng st (log st) watched = Inr p"
  shows "pr_operands p = map (\<lambda>operand. \<lparr>pc_operand = operand, pc_values = [], pc_units = []\<rparr>) watched \<and>
    pr_objective_delta p = map_option (\<lambda>_. 0) (state_lmp eng (study_solved st))"
  using assms by (intro empty_preview) (simp add: preview_replacement_def replacement_step_self)

section \<open>The shape of a preview\<close>

lemma merge_columns_operands:
  "merge_columns acc other = Inr cs \<Longrightarrow> map pc_operand acc = map pc_operand other \<Longrightarrow> map pc_operand cs = map pc_operand acc"
  by (induction acc other arbitrary: cs rule: merge_columns.induct) (auto simp: and_then_Inr split: if_splits)

definition cells_lawful :: "diff_system \<Rightarrow> bool" where
  "cells_lawful sys \<longleftrightarrow> (\<forall>rs ms. run_cells sys rs = Inr ms \<longrightarrow> length ms = length rs)"

lemma preview_columns_operands:
  assumes "cells_lawful sys" "preview_columns sys p cols mag watched = Inr cs"
  shows "map pc_operand cs = watched"
proof (cases "cols = []")
  case True
  with assms(2) show ?thesis by (auto simp: preview_columns_def comp_def)
next
  case False
  with assms(2) obtain mats where
    m: "run_cells sys (map (\<lambda>operand. \<lparr>sr_operand = operand, sr_parameter = p, sr_indices = Some cols, sr_mode = Auto\<rparr>) watched) = Inr mats"
    and cs: "map pc_operand cs = map fst (zip watched mats)"
    by (auto simp: preview_columns_def and_then_Inr comp_def case_prod_unfold)
  from assms(1) m have "length mats = length (map (\<lambda>operand. \<lparr>sr_operand = operand, sr_parameter = p, sr_indices = Some cols, sr_mode = Auto\<rparr>) watched)"
    unfolding cells_lawful_def by blast
  then show ?thesis by (simp add: cs)
qed

lemma merge_groups_operands:
  "cells_lawful sys \<Longrightarrow> merge_groups sys watched merged groups = Inr cs \<Longrightarrow> (\<forall>m. merged = Some m \<longrightarrow> map pc_operand m = watched) \<Longrightarrow>
    merged \<noteq> None \<or> groups \<noteq> [] \<Longrightarrow> map pc_operand cs = watched"
proof (induction sys watched merged groups rule: merge_groups.induct)
  case (2 sys watched merged parameter cols col_mag rest)
  from "2.prems"(2) obtain c m where c: "preview_columns sys parameter cols col_mag watched = Inr c"
    and m: "(case merged of None \<Rightarrow> Inr c | Some acc \<Rightarrow> merge_preview_columns acc c) = Inr m"
    and rest: "merge_groups sys watched (Some m) rest = Inr cs"
    by (auto simp: and_then_Inr)
  have ops: "map pc_operand c = watched" using "2.prems"(1) c by (rule preview_columns_operands)
  have "map pc_operand m = watched"
  proof (cases merged)
    case None
    with m ops show ?thesis by simp
  next
    case (Some acc)
    with "2.prems"(3) have "map pc_operand acc = watched" by simp
    with m Some ops merge_columns_operands [of acc c m] show ?thesis
      by (simp add: merge_preview_columns_def split: if_splits)
  qed
  with "2.IH" [OF c m "2.prems"(1) rest] show ?case by simp
qed (auto split: option.splits)

text \<open>a preview has one column per watched operand, in request order, also when edits of several
  kinds are merged, provided the sensitivity driver answers one matrix per requested cell; it is
  always marked as a local linearization, and prices are refused without an economic objective.\<close>

theorem preview_shape:
  assumes "study_preview eng st es watched = Inr p" and "system_of eng (study_solved st) = Inr sys"
    and "\<forall>rs ms. run_cells sys rs = Inr ms \<longrightarrow> length ms = length rs"
  shows "map pc_operand (pr_operands p) = watched \<and> pr_local_only p \<and>
    (has_economic_objective eng (study_solved st) \<or> \<not> (\<exists>o1 \<in> set watched. is_price o1))"
proof -
  from assms(1,2) have run: "merge_groups sys watched None (map (resolve_group (last_response st)) (edit_groups es)) = Inr (pr_operands p)"
    and "pr_local_only p" "has_economic_objective eng (study_solved st) \<or> \<not> (\<exists>o1 \<in> set watched. is_price o1)"
    by (auto simp: study_preview_def and_then_Inr err_if_Inr Let_def)
  moreover have "edit_groups es \<noteq> []" by (simp add: edit_groups_def Let_def)
  ultimately show ?thesis using merge_groups_operands [OF _ run] assms(3) by (auto simp: cells_lawful_def)
qed

lemma witness_preview_ok:
  "is_ok (preview_replacement witness_engine witness_study (log witness_study) [Voltage Angle])"
  "is_ok (study_preview witness_engine witness_study [AddLoad (Id 1) 1] [Voltage Angle, Price Active])"
  "is_ok (validate_network_edits (base witness_study) (log witness_study))"
  by code_simp+

theorem preview_of_committed_log_witness:
  "\<exists>p. preview_replacement witness_engine witness_study (log witness_study) [Voltage Angle] = Inr p \<and>
     pr_operands p = [\<lparr>pc_operand = Voltage Angle, pc_values = [], pc_units = []\<rparr>]"
proof -
  from is_ok_obtain [OF witness_preview_ok(1)] obtain p where
    p: "preview_replacement witness_engine witness_study (log witness_study) [Voltage Angle] = Inr p" by blast
  from is_ok_obtain [OF witness_preview_ok(3)] have "validate_network_edits (base witness_study) (log witness_study) = Inr ()" by simp
  from preview_of_committed_log [OF this p] p show ?thesis by simp
qed

theorem preview_shape_witness:
  "\<exists>p. study_preview witness_engine witness_study [AddLoad (Id 1) 1] [Voltage Angle, Price Active] = Inr p \<and>
     map pc_operand (pr_operands p) = [Voltage Angle, Price Active]"
proof -
  from is_ok_obtain [OF witness_preview_ok(2)] obtain p where
    p: "study_preview witness_engine witness_study [AddLoad (Id 1) 1] [Voltage Angle, Price Active] = Inr p" by blast
  obtain sys where sys: "system_of witness_engine (study_solved witness_study) = Inr sys"
    "\<forall>rs ms. run_cells sys rs = Inr ms \<longrightarrow> length ms = length rs"
    by (auto simp: witness_engine_def)
  from preview_shape [OF p sys] have "map pc_operand (pr_operands p) = [Voltage Angle, Price Active]" by (rule conjunct1)
  with p show ?thesis by (intro exI conjI)
qed

theorem preview_groups_are_the_fold_witness:
  "map_of (edit_groups [AddLoad (Id 1) 1, AddLoad (Id 1) 1]) (Demand Active) =
     group_of (deltas (fold_edits [AddLoad (Id 1) 1, AddLoad (Id 1) 1]))"
  using preview_groups_are_the_fold [of "[AddLoad (Id 1) 1, AddLoad (Id 1) 1]"] by blast

end
