(* ===== verification/Exploration.thy ===== *)
theory Exploration
  imports Preview
begin

text \<open>
  The gradient-guided search over exact candidate states (\<open>src/crates/tellegen/src/exploration.rs\<close>):
  feasible moves around a change vector, the beam of exactly solved trials per iteration, the
  acceptance of a verified improvement, and the budgets and cancellation polls that end a search.
  A search works on forks; the caller's Study is an input only. The asynchronous form awaits the
  same polls between trials, so one definition models both.
\<close>

section \<open>Options, candidates and results\<close>

record search_options =
  max_solves :: nat
  beam_width :: nat
  max_iterations :: nat
  min_improvement :: f64

definition validate_options :: "search_options \<Rightarrow> (string, unit) result" where
  "validate_options opt =
     err_if (256 < max_solves opt \<or> beam_width opt = 0 \<or> 32 < beam_width opt \<or> 256 < max_iterations opt \<or>
             \<not> is_finite (min_improvement opt) \<or> min_improvement opt < 0)
       ''search requires at most 256 solves/iterations, beam 1..32 and finite nonnegative improvement''"

record exact_candidate =
  ec_input :: string
  ec_solution :: string
  ec_view :: string
  ec_changes :: "f64 list"
  ec_value :: f64

definition capture ::
  "(solve_response \<Rightarrow> (string, string) result) \<Rightarrow> ('a, 'c) engine \<Rightarrow> ('a, 'c) study \<Rightarrow> f64 list \<Rightarrow> f64
     \<Rightarrow> (string, exact_candidate) result" where
  "capture view eng st cs v =
     and_then (save_instance_module eng st) (\<lambda>input.
     and_then (save_exact_module eng st) (\<lambda>solution.
     and_then (view (last_response st)) (\<lambda>shown.
     Inr \<lparr>ec_input = input, ec_solution = solution, ec_view = shown, ec_changes = cs, ec_value = v\<rparr>)))"

record search_trial =
  tr_iteration :: nat
  tr_parent :: "nat option"
  tr_changes :: "f64 list"
  tr_predicted :: f64
  tr_exact :: "exact_candidate option"
  tr_accepted :: bool
  tr_failure :: "string option"
  tr_added :: "string list"
  tr_removed :: "string list"

record search_result =
  sr_baseline :: f64
  sr_best :: "exact_candidate option"
  sr_trials :: "search_trial list"
  sr_directions :: "objective_result list"
  sr_solve_count :: nat
  sr_termination :: string

section \<open>Moves\<close>

definition prediction :: "f64 \<Rightarrow> f64 list \<Rightarrow> f64 list \<Rightarrow> f64 list \<Rightarrow> f64" where
  "prediction v gradient old new =
     v + f64_sum (map (\<lambda>((gr, a), b). gr * (b - a)) (zip (zip gradient old) new))"

definition change_key :: "f64 list \<Rightarrow> 64 word list" where
  "change_key cs = map (\<lambda>x. if f64_eq x 0 then 0 else to_bits x) cs"

fun insert_by :: "('x \<Rightarrow> 'x \<Rightarrow> bool) \<Rightarrow> 'x \<Rightarrow> 'x list \<Rightarrow> 'x list" where
  "insert_by lt x [] = [x]"
| "insert_by lt x (y # ys) = (if lt y x then y # insert_by lt x ys else x # y # ys)"

text \<open>The stable \<open>sort_by\<close>, for a comparison given by its strict part.\<close>

definition sort_by :: "('x \<Rightarrow> 'x \<Rightarrow> bool) \<Rightarrow> 'x list \<Rightarrow> 'x list" where
  "sort_by lt xs = foldr (insert_by lt) xs []"

fun partial_less :: "f64 list \<Rightarrow> f64 list \<Rightarrow> bool" where
  "partial_less (x # xs) (y # ys) = (if x < y then True else if f64_eq x y then partial_less xs ys else False)"
| "partial_less [] ys = (ys \<noteq> [])"
| "partial_less (x # xs) [] = False"

definition candidate_less :: "(f64 list \<Rightarrow> f64) \<Rightarrow> f64 list \<Rightarrow> f64 list \<Rightarrow> bool" where
  "candidate_less p a b \<longleftrightarrow> f64_total_less (p a) (p b) \<or> (total_key (p a) = total_key (p b) \<and> partial_less a b)"

definition by_gradient :: "(nat \<Rightarrow> f64) \<Rightarrow> nat \<Rightarrow> nat \<Rightarrow> bool" where
  "by_gradient k a b \<longleftrightarrow> f64_total_less (k a) (k b) \<or> (total_key (k a) = total_key (k b) \<and> a < b)"

definition tolerance :: f64 where
  "tolerance = f64_1e_7"

definition allocate :: "decision_space \<Rightarrow> f64 list \<times> f64 \<Rightarrow> nat \<Rightarrow> f64 list \<times> f64" where
  "allocate space = (\<lambda>(point, remaining) index.
     let v = ds_variables space ! index;
         amount = f64_floor (f64_min remaining (upper v) / increment v + f64_1e_10) * increment v
     in (point[index := amount], remaining - amount))"

definition demand_rows :: "decision_space \<Rightarrow> nat list" where
  "demand_rows space = filter (\<lambda>i. intervention (ds_variables space ! i) = ActiveDemand) [0..<length (ds_variables space)]"

definition placement_moves :: "decision_space \<Rightarrow> f64 list \<Rightarrow> f64 list \<Rightarrow> f64 \<Rightarrow> f64 list list" where
  "placement_moves space current gradient increase =
     (let order = sort_by (by_gradient (\<lambda>i. gradient ! i)) (demand_rows space);
          cleared = foldl (\<lambda>p i. p[i := 0]) current (demand_rows space)
      in filter (\<lambda>p. feasible space p tolerance)
           (map (\<lambda>first. fst (foldl (allocate space) (cleared, increase) (first # filter (\<lambda>i. i \<noteq> first) order)))
              (take 32 order)))"

definition rating_moves :: "decision_space \<Rightarrow> f64 list \<Rightarrow> f64 list \<Rightarrow> f64 list list" where
  "rating_moves space current gradient =
     (let ratings = concat (map (\<lambda>i. map (\<lambda>sign. (i, sign, gradient ! i * sign * increment (ds_variables space ! i))) [- 1, 1])
            (filter (\<lambda>i. intervention (ds_variables space ! i) = BranchRating) [0..<length (ds_variables space)]));
          lt = (\<lambda>(i, _, a) (j, _, b). f64_total_less a b \<or> (total_key a = total_key b \<and> (i :: nat) < j))
      in filter (\<lambda>p. feasible space p tolerance)
           (map (\<lambda>(i, sign, _). current[i := current ! i + sign * increment (ds_variables space ! i)])
              (take 256 (sort_by lt ratings))))"

definition common_step :: "f64 \<Rightarrow> f64 \<Rightarrow> f64 option" where
  "common_step a b =
     find (\<lambda>x. \<bar>x / b - f64_round (x / b)\<bar> < f64_1e_9) (map (\<lambda>n. a * f64_of_int (int n)) [1..<65])"

definition transfer_moves :: "decision_space \<Rightarrow> f64 list \<Rightarrow> f64 list \<Rightarrow> f64 list list" where
  "transfer_moves space current gradient =
     (let receivers = sort_by (by_gradient (\<lambda>i. gradient ! i)) (demand_rows space);
          donors = sort_by (\<lambda>a b. f64_total_less (gradient ! b) (gradient ! a) \<or>
            (total_key (gradient ! a) = total_key (gradient ! b) \<and> a < b)) (demand_rows space)
      in concat (map (\<lambda>from. concat (map (\<lambda>to.
           if from = to then []
           else case common_step (increment (ds_variables space ! from)) (increment (ds_variables space ! to)) of
                  None \<Rightarrow> []
                | Some step \<Rightarrow>
                    let p1 = current[from := current ! from - step]; point = p1[to := p1 ! to + step]
                    in if feasible space point tolerance then [point] else []) (take 16 receivers))) (take 16 donors)))"

definition feasible_moves :: "decision_space \<Rightarrow> f64 list \<Rightarrow> f64 list \<Rightarrow> bool \<Rightarrow> f64 list list" where
  "feasible_moves space current gradient needs_placement =
     (if needs_placement
      then (case ds_demand space of Some (Placement increase) \<Rightarrow> placement_moves space current gradient increase | _ \<Rightarrow> [])
      else rating_moves space current gradient @ transfer_moves space current gradient)"

section \<open>The search\<close>

text \<open>
  \<open>checkpoint\<close> answers the \<open>n\<close>-th poll for cancellation; \<open>view\<close> renders a response.
\<close>

record ('a, 'c) search_context =
  cx_engine :: "('a, 'c) engine"
  cx_view :: "solve_response \<Rightarrow> (string, string) result"
  cx_objective :: StudyObjective
  cx_space :: decision_space
  cx_options :: search_options
  cx_checkpoint :: "nat \<Rightarrow> bool"

record ('a, 'c) search_state =
  ss_current :: "('a, 'c) study"
  ss_changes :: "f64 list"
  ss_value :: f64
  ss_result :: search_result
  ss_visited :: "64 word list list"
  ss_parent :: "nat option"
  ss_polls :: nat

definition terminate :: "string \<Rightarrow> ('a, 'c) search_state \<Rightarrow> ('a, 'c) search_state" where
  "terminate why s = s\<lparr>ss_result := (ss_result s)\<lparr>sr_termination := why\<rparr>\<rparr>"

definition evaluate_candidate ::
  "('a, 'c) search_context \<Rightarrow> ('a, 'c) study \<Rightarrow> f64 list
     \<Rightarrow> (string, f64 \<times> exact_candidate) result \<times> ('a, 'c) study" where
  "evaluate_candidate cx st cand =
     (case replace_edits (cx_engine cx) (fork st) (decision_edits (cx_space cx) cand) of
        (Inl e, tested) \<Rightarrow> (Inl e, tested)
      | (Inr _, tested) \<Rightarrow>
          (and_then (objective_value (cx_engine cx) tested (cx_objective cx) (cx_space cx) cand) (\<lambda>v.
           and_then (capture (cx_view cx) (cx_engine cx) tested cand v) (\<lambda>exact. Inr (v, exact))), tested))"

definition improves :: "('a, 'c) search_context \<Rightarrow> ('a, 'c) search_state \<Rightarrow> f64 \<Rightarrow> bool" where
  "improves cx s v \<longleftrightarrow> sr_best (ss_result s) = None \<or> v < ss_value s - min_improvement (cx_options cx)"

definition try_candidate ::
  "('a, 'c) search_context \<Rightarrow> nat \<Rightarrow> f64 list \<Rightarrow> string list
     \<Rightarrow> ('a, 'c) search_state \<times> (('a, 'c) study \<times> f64 list \<times> f64 \<times> nat) option \<Rightarrow> f64 list
     \<Rightarrow> ('a, 'c) search_state \<times> (('a, 'c) study \<times> f64 list \<times> f64 \<times> nat) option" where
  "try_candidate cx iteration gradient active_before = (\<lambda>(s, winner) cand.
     let trial = \<lparr>tr_iteration = iteration, tr_parent = ss_parent s, tr_changes = cand,
           tr_predicted = prediction (ss_value s) gradient (ss_changes s) cand, tr_exact = None, tr_accepted = False,
           tr_failure = None, tr_added = [], tr_removed = []\<rparr>;
         push = (\<lambda>t. s\<lparr>ss_visited := change_key cand # ss_visited s, ss_result := (ss_result s)
           \<lparr>sr_solve_count := sr_solve_count (ss_result s) + 1, sr_trials := sr_trials (ss_result s) @ [t]\<rparr>\<rparr>)
     in case evaluate_candidate cx (ss_current s) cand of
          (Inl e, _) \<Rightarrow> (push (trial\<lparr>tr_failure := Some e\<rparr>), winner)
        | (Inr (v, exact), tested) \<Rightarrow>
            let after = active_constraints (cx_engine cx) tested
            in (push (trial\<lparr>tr_added := filter (\<lambda>c. c \<notin> set active_before) after,
                       tr_removed := filter (\<lambda>c. c \<notin> set after) active_before, tr_exact := Some exact\<rparr>),
                if improves cx s v \<and> (case winner of None \<Rightarrow> True | Some (_, _, best, _) \<Rightarrow> v < best - min_improvement (cx_options cx))
                then Some (tested, cand, v, length (sr_trials (ss_result s))) else winner))"

fun beam ::
  "('a, 'c) search_context \<Rightarrow> nat \<Rightarrow> f64 list \<Rightarrow> string list
     \<Rightarrow> ('a, 'c) search_state \<times> (('a, 'c) study \<times> f64 list \<times> f64 \<times> nat) option \<Rightarrow> f64 list list
     \<Rightarrow> ('a, 'c) search_state \<times> (('a, 'c) study \<times> f64 list \<times> f64 \<times> nat) option" where
  "beam cx iteration gradient active_before sw [] = sw"
| "beam cx iteration gradient active_before (s, winner) (cand # rest) =
     (let s1 = s\<lparr>ss_polls := ss_polls s + 1\<rparr>
      in if cx_checkpoint cx (ss_polls s) then (terminate ''cancelled'' s1, winner)
         else if max_solves (cx_options cx) \<le> sr_solve_count (ss_result s) then (terminate ''solve_budget'' s1, winner)
         else beam cx iteration gradient active_before (try_candidate cx iteration gradient active_before (s1, winner) cand) rest)"

definition settle ::
  "('a, 'c) search_state \<times> (('a, 'c) study \<times> f64 list \<times> f64 \<times> nat) option \<Rightarrow> ('a, 'c) search_state \<times> bool" where
  "settle = (\<lambda>(s, winner).
     case winner of
       Some (next_study, next_changes, next_value, index) \<Rightarrow>
         (let trials = (sr_trials (ss_result s))[index := (sr_trials (ss_result s) ! index)\<lparr>tr_accepted := True\<rparr>];
              s' = s\<lparr>ss_result := (ss_result s)\<lparr>sr_trials := trials, sr_best := tr_exact (trials ! index)\<rparr>,
                    ss_current := next_study, ss_changes := next_changes, ss_value := next_value, ss_parent := Some index\<rparr>
          in (s', sr_termination (ss_result s') \<in> {''cancelled'', ''solve_budget''}))
     | None \<Rightarrow>
         if sr_termination (ss_result s) = ''iteration_limit'' then (terminate ''no_verified_improvement'' s, True)
         else (s, sr_termination (ss_result s) \<in> {''cancelled'', ''solve_budget''}))"

definition candidates :: "('a, 'c) search_context \<Rightarrow> ('a, 'c) search_state \<Rightarrow> f64 list \<Rightarrow> f64 list list" where
  "candidates cx s gradient =
     sort_by (candidate_less (prediction (ss_value s) gradient (ss_changes s)))
       (filter (\<lambda>x. change_key x \<notin> set (ss_visited s))
          (feasible_moves (cx_space cx) (ss_changes s) gradient (sr_best (ss_result s) = None)))"

definition search_iteration :: "('a, 'c) search_context \<Rightarrow> nat \<Rightarrow> ('a, 'c) search_state \<Rightarrow> ('a, 'c) search_state \<times> bool" where
  "search_iteration cx iteration s =
     (let s1 = s\<lparr>ss_polls := ss_polls s + 1\<rparr>
      in if cx_checkpoint cx (ss_polls s) then (terminate ''cancelled'' s1, True)
         else if max_solves (cx_options cx) \<le> sr_solve_count (ss_result s) then (terminate ''solve_budget'' s1, True)
         else case objective_gradient (cx_engine cx) (ss_current s1) (cx_objective cx) (cx_space cx) (ss_changes s1) of
           Inl e \<Rightarrow> (terminate (''derivative_unavailable: '' @ e) s1, True)
         | Inr direction \<Rightarrow>
             (let gradient = map dd_value (or_gradient direction);
                  s2 = s1\<lparr>ss_result := (ss_result s1)\<lparr>sr_directions := sr_directions (ss_result s1) @ [direction]\<rparr>\<rparr>;
                  cands = candidates cx s2 gradient
              in if cands = [] then (terminate ''no_feasible_moves'' s2, True)
                 else settle (beam cx iteration gradient (active_constraints (cx_engine cx) (ss_current s2)) (s2, None)
                        (take (beam_width (cx_options cx)) cands))))"

fun search_loop :: "('a, 'c) search_context \<Rightarrow> ('a, 'c) search_state \<Rightarrow> nat list \<Rightarrow> ('a, 'c) search_state" where
  "search_loop cx s [] = s"
| "search_loop cx s (iteration # rest) =
     (case search_iteration cx iteration s of (s', stop) \<Rightarrow> if stop then s' else search_loop cx s' rest)"

definition search_start ::
  "('a, 'c) search_context \<Rightarrow> ('a, 'c) study \<Rightarrow> f64 list \<Rightarrow> (string, ('a, 'c) search_state) result" where
  "search_start cx st start_changes =
     and_then (validate_space (conic (cx_engine cx)) (cx_space cx) (formulation st)) (\<lambda>_.
     and_then (validate_objective (cx_objective cx) (cx_space cx)) (\<lambda>_.
     and_then (validate_options (cx_options cx)) (\<lambda>_.
     and_then (err_if (length start_changes \<noteq> length (ds_variables (cx_space cx)) \<or> (\<exists>x \<in> set start_changes. \<not> is_finite x))
        ''search start requires one finite change per decision'') (\<lambda>_.
     and_then (check_decision_state (cx_engine cx) st (cx_space cx) start_changes) (\<lambda>_.
     and_then (objective_value (cx_engine cx) st (cx_objective cx) (cx_space cx) start_changes) (\<lambda>baseline.
     and_then (if feasible (cx_space cx) start_changes tolerance
               then and_then (capture (cx_view cx) (cx_engine cx) (fork st) start_changes baseline) (\<lambda>c. Inr (Some c))
               else Inr None) (\<lambda>best.
     Inr \<lparr>ss_current = fork st, ss_changes = start_changes, ss_value = baseline,
          ss_result = \<lparr>sr_baseline = baseline, sr_best = best, sr_trials = [], sr_directions = [], sr_solve_count = 0,
            sr_termination = ''iteration_limit''\<rparr>,
          ss_visited = [change_key start_changes], ss_parent = None, ss_polls = 0\<rparr>)))))))"

definition explore ::
  "('a, 'c) search_context \<Rightarrow> ('a, 'c) study \<Rightarrow> f64 list \<Rightarrow> (string, search_result) result" where
  "explore cx st start_changes =
     and_then (search_start cx st start_changes) (\<lambda>s.
       Inr (ss_result (search_loop cx s [0..<max_iterations (cx_options cx)])))"

section \<open>What a beam leaves behind\<close>

definition fresh_trial :: "nat \<Rightarrow> nat option \<Rightarrow> f64 list list \<Rightarrow> search_trial \<Rightarrow> bool" where
  "fresh_trial iteration parent cands t \<longleftrightarrow> tr_iteration t = iteration \<and> tr_parent t = parent \<and> tr_changes t \<in> set cands \<and>
     \<not> tr_accepted t \<and> (\<forall>c. tr_exact t = Some c \<longrightarrow> ec_changes c = tr_changes t)"

definition winner_ok ::
  "('a, 'c) search_context \<Rightarrow> ('a, 'c) search_state \<Rightarrow> search_trial list
     \<Rightarrow> (('a, 'c) study \<times> f64 list \<times> f64 \<times> nat) option \<Rightarrow> bool" where
  "winner_ok cx s T w = (case w of None \<Rightarrow> True | Some (_, cand, v, i) \<Rightarrow>
     length (sr_trials (ss_result s)) \<le> i \<and> i < length T \<and> improves cx s v \<and>
     (\<exists>c. tr_exact (T ! i) = Some c \<and> ec_value c = v \<and> ec_changes c = cand))"

definition extended ::
  "('a, 'c) search_state \<Rightarrow> nat \<Rightarrow> 64 word list list \<Rightarrow> search_trial list \<Rightarrow> string \<Rightarrow> ('a, 'c) search_state" where
  "extended s polls vis new why = s\<lparr>ss_polls := polls, ss_visited := vis, ss_result := (ss_result s)
     \<lparr>sr_solve_count := sr_solve_count (ss_result s) + length new, sr_trials := sr_trials (ss_result s) @ new,
      sr_termination := why\<rparr>\<rparr>"

lemma capture_Inr: "capture view eng st cs v = Inr c \<Longrightarrow> ec_changes c = cs \<and> ec_value c = v"
  by (auto simp: capture_def and_then_Inr)

lemma evaluate_candidate_Inr:
  "evaluate_candidate cx st cand = (Inr (v, c), tested) \<Longrightarrow> ec_changes c = cand \<and> ec_value c = v"
  by (auto simp: evaluate_candidate_def and_then_Inr dest!: capture_Inr split: prod.splits sum.splits)

lemma try_candidate_outcome:
  assumes "try_candidate cx it gradient ab (s, w) cand = (s', w')" and "winner_ok cx s0 (sr_trials (ss_result s)) w"
    and "ss_value s = ss_value s0" "sr_best (ss_result s) = sr_best (ss_result s0)"
    and "length (sr_trials (ss_result s0)) \<le> length (sr_trials (ss_result s))"
  obtains t where "s' = extended s (ss_polls s) (change_key cand # ss_visited s) [t] (sr_termination (ss_result s))"
    "fresh_trial it (ss_parent s) [cand] t" "winner_ok cx s0 (sr_trials (ss_result s) @ [t]) w'"
proof -
  let ?T = "sr_trials (ss_result s)"
  have old: "winner_ok cx s0 (?T @ [t]) w" for t
    using assms(2) by (auto simp: winner_ok_def nth_append split: option.splits)
  obtain r tested where ev: "evaluate_candidate cx (ss_current s) cand = (r, tested)" by fastforce
  show thesis
  proof (cases r)
    case (Inl e)
    with ev assms(1) that old show thesis
      by (auto simp: try_candidate_def Let_def extended_def fresh_trial_def)
  next
    case (Inr p)
    obtain v c where p: "p = (v, c)" by (cases p)
    from evaluate_candidate_Inr [of cx "ss_current s" cand v c tested] ev Inr p
    have c: "ec_changes c = cand" "ec_value c = v" by simp_all
    define t where "t = \<lparr>tr_iteration = it, tr_parent = ss_parent s, tr_changes = cand,
           tr_predicted = prediction (ss_value s) gradient (ss_changes s) cand, tr_exact = Some c, tr_accepted = False,
           tr_failure = None, tr_added = filter (\<lambda>c. c \<notin> set ab) (active_constraints (cx_engine cx) tested),
           tr_removed = filter (\<lambda>x. x \<notin> set (active_constraints (cx_engine cx) tested)) ab\<rparr>"
    have s': "s' = extended s (ss_polls s) (change_key cand # ss_visited s) [t] (sr_termination (ss_result s))"
      and w': "w' = (if improves cx s v \<and> (case w of None \<Rightarrow> True | Some (_, _, best, _) \<Rightarrow> v < best - min_improvement (cx_options cx))
                then Some (tested, cand, v, length ?T) else w)"
      using assms(1) ev Inr p by (auto simp: try_candidate_def Let_def extended_def t_def)
    have imp: "improves cx s0 v = improves cx s v" by (simp add: improves_def assms(3,4))
    have "fresh_trial it (ss_parent s) [cand] t" by (simp add: fresh_trial_def t_def c)
    moreover have "winner_ok cx s0 (?T @ [t]) w'"
    proof (cases "w' = w")
      case False
      then have "w' = Some (tested, cand, v, length ?T)" "improves cx s v" by (auto simp: w' split: if_splits)
      then show ?thesis using assms(5) by (simp add: winner_ok_def nth_append t_def c imp)
    qed (use old in simp)
    ultimately show thesis using s' that by blast
  qed
qed

lemma extended_simps [simp]:
  "ss_value (extended s p v n y) = ss_value s" "ss_parent (extended s p v n y) = ss_parent s"
  "ss_changes (extended s p v n y) = ss_changes s" "sr_best (ss_result (extended s p v n y)) = sr_best (ss_result s)"
  "sr_trials (ss_result (extended s p v n y)) = sr_trials (ss_result s) @ n"
  "sr_solve_count (ss_result (extended s p v n y)) = sr_solve_count (ss_result s) + length n"
  "ss_visited (extended s p v n y) = v" "sr_baseline (ss_result (extended s p v n y)) = sr_baseline (ss_result s)"
  "sr_directions (ss_result (extended s p v n y)) = sr_directions (ss_result s)"
  "sr_termination (ss_result (extended s p v n y)) = y" "ss_polls (extended s p v n y) = p"
  by (simp_all add: extended_def)

lemma extended_extended [simp]: "extended (extended s p v n y) p' v' n' y' = extended s p' v' (n @ n') y'"
  by (simp add: extended_def)

lemma polled_extended: "s\<lparr>ss_polls := k\<rparr> = extended s k (ss_visited s) [] (sr_termination (ss_result s))"
  by (simp add: extended_def)

lemma terminate_extended [simp]: "terminate y' (extended s p v n y) = extended s p v n y'"
  by (simp add: extended_def terminate_def)

lemma beam_outcome:
  assumes "beam cx it gradient ab (s, w) cands = (s', w')" and "winner_ok cx s0 (sr_trials (ss_result s)) w"
    and "ss_value s = ss_value s0" "sr_best (ss_result s) = sr_best (ss_result s0)"
    and "length (sr_trials (ss_result s0)) \<le> length (sr_trials (ss_result s))"
    and "sr_solve_count (ss_result s) \<le> max_solves (cx_options cx)"
  shows "\<exists>polls vis new why. s' = extended s polls vis new why \<and>
     set vis = set (ss_visited s) \<union> (change_key \<circ> tr_changes) ` set new \<and> (\<forall>t \<in> set new. fresh_trial it (ss_parent s) cands t) \<and>
     sr_solve_count (ss_result s) + length new \<le> max_solves (cx_options cx) \<and>
     winner_ok cx s0 (sr_trials (ss_result s) @ new) w'"
  using assms
proof (induction cands arbitrary: s w)
  case Nil
  then have s': "s' = extended s (ss_polls s) (ss_visited s) [] (sr_termination (ss_result s))" "w' = w" by (simp_all add: extended_def)
  show ?case by (intro exI conjI, rule s'(1)) (use Nil s'(2) in simp_all)
next
  case (Cons cand cands)
  let ?s1 = "s\<lparr>ss_polls := ss_polls s + 1\<rparr>"
  note ext1 = polled_extended [of "ss_polls s + 1" s]
  show ?case
  proof (cases "cx_checkpoint cx (ss_polls s) \<or> max_solves (cx_options cx) \<le> sr_solve_count (ss_result s)")
    case True
    then obtain why where "s' = terminate why ?s1" "w' = w" using Cons.prems(1) by (auto simp: Let_def split: if_splits)
    then have s': "s' = extended s (ss_polls s + 1) (ss_visited s) [] why" "w' = w" by (simp_all only: ext1 terminate_extended)
    show ?thesis by (intro exI conjI, rule s'(1)) (use Cons.prems(2,6) s'(2) in simp_all)
  next
    case False
    obtain s2 w2 where t: "try_candidate cx it gradient ab (?s1, w) cand = (s2, w2)" by fastforce
    from Cons.prems have w1: "winner_ok cx s0 (sr_trials (ss_result ?s1)) w" "ss_value ?s1 = ss_value s0"
      "sr_best (ss_result ?s1) = sr_best (ss_result s0)" "length (sr_trials (ss_result s0)) \<le> length (sr_trials (ss_result ?s1))"
      by simp_all
    from try_candidate_outcome [OF t w1] obtain tr where tr:
      "s2 = extended ?s1 (ss_polls ?s1) (change_key cand # ss_visited ?s1) [tr] (sr_termination (ss_result ?s1))"
      "fresh_trial it (ss_parent ?s1) [cand] tr" "winner_ok cx s0 (sr_trials (ss_result ?s1) @ [tr]) w2" by blast
    then have s2: "s2 = extended s (ss_polls s + 1) (change_key cand # ss_visited s) [tr] (sr_termination (ss_result s))"
      by (simp only: ext1 extended_simps extended_extended append_Nil)
    have run: "beam cx it gradient ab (s2, w2) cands = (s', w')" using Cons.prems(1) False t by (simp add: Let_def)
    have pre: "winner_ok cx s0 (sr_trials (ss_result s2)) w2" "ss_value s2 = ss_value s0" "sr_best (ss_result s2) = sr_best (ss_result s0)"
      "length (sr_trials (ss_result s0)) \<le> length (sr_trials (ss_result s2))"
      "sr_solve_count (ss_result s2) \<le> max_solves (cx_options cx)"
      using tr(3) Cons.prems(3-6) False by (simp_all add: s2)
    from Cons.IH [OF run pre] obtain polls vis new why where ih: "s' = extended s2 polls vis new why"
      "set vis = set (ss_visited s2) \<union> (change_key \<circ> tr_changes) ` set new" "\<forall>t \<in> set new. fresh_trial it (ss_parent s2) cands t"
      "sr_solve_count (ss_result s2) + length new \<le> max_solves (cx_options cx)" "winner_ok cx s0 (sr_trials (ss_result s2) @ new) w'"
      by blast
    have ch: "tr_changes tr = cand" using tr(2) by (simp add: fresh_trial_def)
    show ?thesis
    proof (intro exI conjI)
      show "s' = extended s polls vis (tr # new) why" by (simp add: ih(1) s2)
      show "set vis = set (ss_visited s) \<union> (change_key \<circ> tr_changes) ` set (tr # new)" by (auto simp: ih(2) s2 ch)
      show "\<forall>t \<in> set (tr # new). fresh_trial it (ss_parent s) (cand # cands) t"
        using ih(3) tr(2) by (auto simp: s2 fresh_trial_def)
      show "sr_solve_count (ss_result s) + length (tr # new) \<le> max_solves (cx_options cx)" using ih(4) by (simp add: s2)
      show "winner_ok cx s0 (sr_trials (ss_result s) @ tr # new) w'" using ih(5) by (simp add: s2)
    qed
  qed
qed

section \<open>The invariant of a search\<close>

text \<open>An accepted trial beat the state it was derived from by the stated improvement.\<close>

definition improves_parent :: "f64 \<Rightarrow> exact_candidate option \<Rightarrow> f64 \<Rightarrow> search_trial list \<Rightarrow> nat \<Rightarrow> bool" where
  "improves_parent baseline best0 m T i \<longleftrightarrow> (\<exists>c. tr_exact (T ! i) = Some c \<and>
     (case tr_parent (T ! i) of
        None \<Rightarrow> best0 = None \<or> ec_value c < baseline - m
      | Some j \<Rightarrow> j < i \<and> tr_accepted (T ! j) \<and> (\<exists>d. tr_exact (T ! j) = Some d \<and> ec_value c < ec_value d - m)))"

definition trials_ok :: "decision_space \<Rightarrow> f64 list \<Rightarrow> nat \<Rightarrow> search_trial list \<Rightarrow> bool" where
  "trials_ok space origin k T \<longleftrightarrow>
     (\<forall>t \<in> set T. tr_iteration t < k \<and> feasible space (tr_changes t) tolerance \<and> change_key (tr_changes t) \<noteq> change_key origin \<and>
        (\<forall>c. tr_exact t = Some c \<longrightarrow> ec_changes c = tr_changes t)) \<and>
     (\<forall>t \<in> set T. \<forall>u \<in> set T. tr_iteration t < tr_iteration u \<longrightarrow> change_key (tr_changes t) \<noteq> change_key (tr_changes u))"

definition parent_ok :: "exact_candidate option \<Rightarrow> ('a, 'c) search_state \<Rightarrow> bool" where
  "parent_ok best0 s \<longleftrightarrow> (let r = ss_result s in case ss_parent s of
     None \<Rightarrow> ss_value s = sr_baseline r \<and> sr_best r = best0 \<and> (\<forall>t \<in> set (sr_trials r). \<not> tr_accepted t)
   | Some j \<Rightarrow> j < length (sr_trials r) \<and> tr_accepted (sr_trials r ! j) \<and>
       (\<exists>c. tr_exact (sr_trials r ! j) = Some c \<and> sr_best r = Some c \<and> ec_value c = ss_value s))"

definition search_inv ::
  "('a, 'c) search_context \<Rightarrow> f64 list \<Rightarrow> f64 \<Rightarrow> exact_candidate option \<Rightarrow> nat \<Rightarrow> ('a, 'c) search_state \<Rightarrow> bool" where
  "search_inv cx origin baseline best0 k s \<longleftrightarrow> (let r = ss_result s in
     sr_baseline r = baseline \<and> sr_solve_count r = length (sr_trials r) \<and> sr_solve_count r \<le> max_solves (cx_options cx) \<and>
     length (sr_directions r) \<le> k \<and>
     set (ss_visited s) = insert (change_key origin) ((change_key \<circ> tr_changes) ` set (sr_trials r)) \<and>
     trials_ok (cx_space cx) origin k (sr_trials r) \<and> parent_ok best0 s \<and>
     (\<forall>i < length (sr_trials r). tr_accepted (sr_trials r ! i) \<longrightarrow>
        improves_parent baseline best0 (min_improvement (cx_options cx)) (sr_trials r) i))"

lemma parent_ok_frame [simp]:
  "parent_ok b (s\<lparr>ss_polls := n\<rparr>) = parent_ok b s"
  "parent_ok b (s\<lparr>ss_result := (ss_result s)\<lparr>sr_termination := why\<rparr>\<rparr>) = parent_ok b s"
  "parent_ok b (s\<lparr>ss_result := (ss_result s)\<lparr>sr_directions := ds\<rparr>\<rparr>) = parent_ok b s"
  "parent_ok b (s\<lparr>ss_polls := n, ss_result := (ss_result s)\<lparr>sr_directions := ds\<rparr>\<rparr>) = parent_ok b s"
  by (simp_all add: parent_ok_def Let_def split: option.split)

lemma insert_by_set [simp]: "set (insert_by lt x xs) = insert x (set xs)"
  by (induction lt x xs rule: insert_by.induct) auto

lemma sort_by_set [simp]: "set (sort_by lt xs) = set xs"
  by (induction xs) (simp_all add: sort_by_def)

lemma feasible_moves_feasible: "p \<in> set (feasible_moves space cur g np) \<Longrightarrow> feasible space p tolerance"
proof -
  assume p: "p \<in> set (feasible_moves space cur g np)"
  have "\<forall>q \<in> set (placement_moves space cur g inc). feasible space q tolerance" for inc
    unfolding placement_moves_def Let_def by (simp only: set_filter) blast
  moreover have "\<forall>q \<in> set (rating_moves space cur g). feasible space q tolerance"
    unfolding rating_moves_def Let_def by (simp only: set_filter) blast
  moreover have "\<forall>q \<in> set (transfer_moves space cur g). feasible space q tolerance"
    unfolding transfer_moves_def Let_def by (simp add: UN_iff split: option.split) blast
  ultimately show ?thesis using p
    unfolding feasible_moves_def by (simp split: if_splits option.splits DemandConstraint.splits) blast+
qed

lemma candidates_ok:
  assumes "p \<in> set (candidates cx s g)"
  shows "feasible (cx_space cx) p tolerance \<and> change_key p \<notin> set (ss_visited s)"
  using assms by (auto simp: candidates_def dest: feasible_moves_feasible)

lemma trials_ok_append:
  assumes "trials_ok space origin k T" and "\<forall>t \<in> set new. fresh_trial k parent cands t"
    and "\<forall>p \<in> set cands. feasible space p tolerance \<and> change_key p \<notin> V"
    and "V = insert (change_key origin) ((change_key \<circ> tr_changes) ` set T)"
  shows "trials_ok space origin (Suc k) (T @ new)"
proof -
  have new: "tr_iteration t = k \<and> feasible space (tr_changes t) tolerance \<and> change_key (tr_changes t) \<noteq> change_key origin \<and>
      (\<forall>c. tr_exact t = Some c \<longrightarrow> ec_changes c = tr_changes t) \<and> (\<forall>u \<in> set T. change_key (tr_changes u) \<noteq> change_key (tr_changes t))"
    if "t \<in> set new" for t
  proof -
    from that assms(2) have t: "tr_iteration t = k" "tr_changes t \<in> set cands" "\<forall>c. tr_exact t = Some c \<longrightarrow> ec_changes c = tr_changes t"
      by (simp_all add: fresh_trial_def)
    with assms(3) have "feasible space (tr_changes t) tolerance" "change_key (tr_changes t) \<notin> V" by simp_all
    with t show ?thesis unfolding assms(4) comp_def by (intro conjI) (blast | metis image_eqI insertI2)+
  qed
  have old: "tr_iteration t < k" if "t \<in> set T" for t using assms(1) that by (auto simp: trials_ok_def)
  have "tr_iteration t < Suc k \<and> feasible space (tr_changes t) tolerance \<and> change_key (tr_changes t) \<noteq> change_key origin \<and>
      (\<forall>c. tr_exact t = Some c \<longrightarrow> ec_changes c = tr_changes t)" if "t \<in> set (T @ new)" for t
  proof (cases "t \<in> set T")
    case True
    with assms(1) show ?thesis unfolding trials_ok_def by (simp add: less_Suc_eq)
  next
    case False
    with that have "t \<in> set new" by simp
    from new [OF this] show ?thesis by simp
  qed
  moreover have "change_key (tr_changes t) \<noteq> change_key (tr_changes u)"
    if tu: "t \<in> set (T @ new)" "u \<in> set (T @ new)" "tr_iteration t < tr_iteration u" for t u
  proof (cases "u \<in> set new")
    case True
    then have "t \<in> set T" using new [of u] new [of t] tu(1,3) by auto
    with new [OF True] show ?thesis by blast
  next
    case False
    with tu have u: "u \<in> set T" by simp
    have "t \<in> set T" using new [of t] old [OF u] tu(1,3) by auto
    with u tu(3) assms(1) show ?thesis unfolding trials_ok_def by blast
  qed
  ultimately show ?thesis unfolding trials_ok_def by blast
qed

lemma trials_ok_accept:
  assumes "trials_ok space origin k T"
  shows "trials_ok space origin k (T[i := (T ! i)\<lparr>tr_accepted := b\<rparr>])"
proof (cases "i < length T")
  case True
  have "set (T[i := (T ! i)\<lparr>tr_accepted := b\<rparr>]) \<subseteq> insert ((T ! i)\<lparr>tr_accepted := b\<rparr>) (set T)" by (rule set_update_subset_insert)
  moreover have "T ! i \<in> set T" using True by simp
  ultimately have "\<exists>u \<in> set T. tr_iteration u = tr_iteration t \<and> tr_changes u = tr_changes t \<and> tr_exact u = tr_exact t"
    if "t \<in> set (T[i := (T ! i)\<lparr>tr_accepted := b\<rparr>])" for t
    using that by fastforce
  then show ?thesis using assms unfolding trials_ok_def by metis
qed (use assms in \<open>simp add: list_update_beyond\<close>)

lemma improves_parent_cong:
  assumes "improves_parent baseline best0 m T i" "\<forall>j \<le> i. tr_parent (U ! j) = tr_parent (T ! j) \<and> tr_exact (U ! j) = tr_exact (T ! j) \<and>
     (tr_accepted (T ! j) \<longrightarrow> tr_accepted (U ! j))"
  shows "improves_parent baseline best0 m U i"
proof -
  from assms(1) obtain c where c: "tr_exact (T ! i) = Some c" and p: "case tr_parent (T ! i) of
        None \<Rightarrow> best0 = None \<or> ec_value c < baseline - m
      | Some j \<Rightarrow> j < i \<and> tr_accepted (T ! j) \<and> (\<exists>d. tr_exact (T ! j) = Some d \<and> ec_value c < ec_value d - m)"
    unfolding improves_parent_def by blast
  have "tr_exact (U ! i) = Some c" "tr_parent (U ! i) = tr_parent (T ! i)" using assms(2) c by auto
  with p assms(2) show ?thesis unfolding improves_parent_def by (auto split: option.splits)
qed

definition chain_ok :: "f64 \<Rightarrow> exact_candidate option \<Rightarrow> f64 \<Rightarrow> search_trial list \<Rightarrow> bool" where
  "chain_ok baseline best0 m T \<longleftrightarrow> (\<forall>i < length T. tr_accepted (T ! i) \<longrightarrow> improves_parent baseline best0 m T i)"

lemma chain_ok_append:
  assumes "chain_ok baseline best0 m T" "\<forall>t \<in> set new. \<not> tr_accepted t"
  shows "chain_ok baseline best0 m (T @ new)"
  unfolding chain_ok_def
proof (intro allI impI)
  fix i assume i: "i < length (T @ new)" and acc: "tr_accepted ((T @ new) ! i)"
  have iT: "i < length T"
  proof (rule ccontr)
    assume "\<not> i < length T"
    with i have "(T @ new) ! i \<in> set new" by (simp add: nth_append)
    with acc assms(2) show False by blast
  qed
  with assms(1) acc have "improves_parent baseline best0 m T i" unfolding chain_ok_def by (simp add: nth_append)
  then show "improves_parent baseline best0 m (T @ new) i" by (rule improves_parent_cong) (use iT in \<open>simp add: nth_append\<close>)
qed

lemma chain_ok_accept:
  assumes chain: "chain_ok baseline best0 m T" and i: "i < length T" and c: "tr_exact (T ! i) = Some c"
    and imp: "case tr_parent (T ! i) of None \<Rightarrow> best0 = None \<or> ec_value c < baseline - m
      | Some j \<Rightarrow> j < i \<and> tr_accepted (T ! j) \<and> (\<exists>d. tr_exact (T ! j) = Some d \<and> ec_value c < ec_value d - m)"
  shows "chain_ok baseline best0 m (T[i := (T ! i)\<lparr>tr_accepted := True\<rparr>])"
proof -
  let ?U = "T[i := (T ! i)\<lparr>tr_accepted := True\<rparr>]"
  have U: "tr_parent (?U ! j) = tr_parent (T ! j) \<and> tr_exact (?U ! j) = tr_exact (T ! j) \<and> (tr_accepted (T ! j) \<longrightarrow> tr_accepted (?U ! j))" for j
    using i by (cases "j = i") simp_all
  have "improves_parent baseline best0 m T i" using c imp unfolding improves_parent_def by blast
  with chain have "improves_parent baseline best0 m T j" if "j < length T" "tr_accepted (?U ! j)" for j
    using that unfolding chain_ok_def by (cases "j = i") simp_all
  then show ?thesis unfolding chain_ok_def using U by (auto intro: improves_parent_cong)
qed

lemma search_inv_alt:
  "search_inv cx origin baseline best0 k s \<longleftrightarrow>
     sr_baseline (ss_result s) = baseline \<and> sr_solve_count (ss_result s) = length (sr_trials (ss_result s)) \<and>
     sr_solve_count (ss_result s) \<le> max_solves (cx_options cx) \<and> length (sr_directions (ss_result s)) \<le> k \<and>
     set (ss_visited s) = insert (change_key origin) ((change_key \<circ> tr_changes) ` set (sr_trials (ss_result s))) \<and>
     trials_ok (cx_space cx) origin k (sr_trials (ss_result s)) \<and> parent_ok best0 s \<and>
     chain_ok baseline best0 (min_improvement (cx_options cx)) (sr_trials (ss_result s))"
  by (simp add: search_inv_def chain_ok_def Let_def)

lemma trials_ok_Suc: "trials_ok space origin k T \<Longrightarrow> trials_ok space origin (Suc k) T"
  by (auto simp: trials_ok_def less_Suc_eq)

lemma parent_ok_extended:
  assumes "parent_ok best0 s" "\<forall>t \<in> set new. \<not> tr_accepted t"
  shows "parent_ok best0 (extended s polls vis new why)"
  using assms by (auto simp: parent_ok_def Let_def nth_append split: option.splits)

lemma terminate_inv: "search_inv cx origin baseline best0 k s \<Longrightarrow> search_inv cx origin baseline best0 k (terminate why s)"
  by (simp add: search_inv_alt terminate_def)

lemma settle_inv:
  assumes inv: "search_inv cx origin baseline best0 k s" and w: "winner_ok cx s0 (sr_trials (ss_result s)) w"
    and "ss_value s = ss_value s0" "sr_best (ss_result s) = sr_best (ss_result s0)" "ss_parent s = ss_parent s0"
    and parent: "parent_ok best0 s0" "sr_baseline (ss_result s0) = baseline"
    and new: "\<exists>new. sr_trials (ss_result s) = sr_trials (ss_result s0) @ new \<and> (\<forall>t \<in> set new. tr_parent t = ss_parent s0)"
    and run: "settle (s, w) = (s', stop)"
  shows "search_inv cx origin baseline best0 k s'"
proof (cases w)
  case None
  with run inv show ?thesis by (auto simp: settle_def terminate_inv split: if_splits)
next
  case (Some q)
  obtain st cand v i where q: "q = (st, cand, v, i)" by (cases q)
  let ?T = "sr_trials (ss_result s)"
  from w obtain c where c: "length (sr_trials (ss_result s0)) \<le> i" "i < length ?T" "improves cx s0 v"
    "tr_exact (?T ! i) = Some c" "ec_value c = v" by (auto simp: winner_ok_def Some q)
  let ?U = "?T[i := (?T ! i)\<lparr>tr_accepted := True\<rparr>]"
  have s': "s' = s\<lparr>ss_result := (ss_result s)\<lparr>sr_trials := ?U, sr_best := Some c\<rparr>, ss_current := st, ss_changes := cand,
      ss_value := v, ss_parent := Some i\<rparr>"
    using run c(2,4) by (simp add: settle_def Some q Let_def)
  obtain nw where nw: "?T = sr_trials (ss_result s0) @ nw" "\<forall>t \<in> set nw. tr_parent t = ss_parent s0" using new by blast
  have "?T ! i \<in> set nw" using c(1,2) by (simp add: nw(1) nth_append)
  with nw(2) have pi: "tr_parent (?T ! i) = ss_parent s0" by blast
  have imp: "case tr_parent (?T ! i) of None \<Rightarrow> best0 = None \<or> ec_value c < baseline - min_improvement (cx_options cx)
      | Some j \<Rightarrow> j < i \<and> tr_accepted (?T ! j) \<and> (\<exists>d. tr_exact (?T ! j) = Some d \<and> ec_value c < ec_value d - min_improvement (cx_options cx))"
  proof (cases "ss_parent s0")
    case None
    with parent c(3,5) show ?thesis by (auto simp: pi parent_ok_def Let_def improves_def)
  next
    case (Some j)
    with parent(1) have j: "j < length (sr_trials (ss_result s0))" "tr_accepted (sr_trials (ss_result s0) ! j)"
      "\<exists>d. tr_exact (sr_trials (ss_result s0) ! j) = Some d \<and> sr_best (ss_result s0) = Some d \<and> ec_value d = ss_value s0"
      by (simp_all add: parent_ok_def Let_def)
    have "?T ! j = sr_trials (ss_result s0) ! j" using j(1) by (simp add: nw(1) nth_append)
    with j c(1,3,5) Some show ?thesis by (auto simp: pi improves_def)
  qed
  have vis: "(change_key \<circ> tr_changes) ` set ?U = (change_key \<circ> tr_changes) ` set ?T"
  proof -
    have "map (change_key \<circ> tr_changes) ?U = map (change_key \<circ> tr_changes) ?T"
      using c(2) by (simp add: map_update list_update_same_conv)
    then show ?thesis by (metis list.set_map)
  qed
  note inv' = inv [unfolded search_inv_alt]
  have "chain_ok baseline best0 (min_improvement (cx_options cx)) ?U"
    using inv' c(2,4) imp by (intro chain_ok_accept [where c = c]) simp_all
  moreover have "trials_ok (cx_space cx) origin k ?U" using inv' by (intro trials_ok_accept) simp
  moreover have "parent_ok best0 s'" using c by (simp add: parent_ok_def s' Let_def)
  ultimately show ?thesis using inv' vis unfolding search_inv_alt by (simp add: s')
qed

lemma search_inv_Suc: "search_inv cx origin baseline best0 k s \<Longrightarrow> search_inv cx origin baseline best0 (Suc k) s"
  by (simp add: search_inv_alt trials_ok_Suc)

lemma polls_inv: "search_inv cx origin baseline best0 k s \<Longrightarrow> search_inv cx origin baseline best0 k (s\<lparr>ss_polls := n\<rparr>)"
  by (simp add: search_inv_alt)

lemma beam_inv:
  assumes inv: "search_inv cx origin baseline best0 k s" and dirs: "length (sr_directions (ss_result s)) < Suc k"
    and s2: "s2 = s\<lparr>ss_result := (ss_result s)\<lparr>sr_directions := sr_directions (ss_result s) @ [d]\<rparr>\<rparr>"
    and cands: "\<forall>p \<in> set cands. feasible (cx_space cx) p tolerance \<and> change_key p \<notin> set (ss_visited s2)"
    and run: "settle (beam cx k gradient ab (s2, None) cands) = (s', stop)"
  shows "search_inv cx origin baseline best0 (Suc k) s'"
proof -
  note inv' = inv [unfolded search_inv_alt]
  obtain s3 w where b: "beam cx k gradient ab (s2, None) cands = (s3, w)" by fastforce
  have pre: "winner_ok cx s2 (sr_trials (ss_result s2)) None" "sr_solve_count (ss_result s2) \<le> max_solves (cx_options cx)"
    using inv' by (simp_all add: winner_ok_def s2)
  from beam_outcome [OF b pre(1) refl refl order_refl pre(2)] obtain polls vis new why where
    o: "s3 = extended s2 polls vis new why" "set vis = set (ss_visited s2) \<union> (change_key \<circ> tr_changes) ` set new"
    "\<forall>t \<in> set new. fresh_trial k (ss_parent s2) cands t"
    "sr_solve_count (ss_result s2) + length new \<le> max_solves (cx_options cx)" "winner_ok cx s2 (sr_trials (ss_result s2) @ new) w"
    by blast
  have not_acc: "\<forall>t \<in> set new. \<not> tr_accepted t" "\<forall>t \<in> set new. tr_parent t = ss_parent s2" using o(3) by (simp_all add: fresh_trial_def)
  have p2: "parent_ok best0 s2" using inv' by (simp add: s2)
  have "trials_ok (cx_space cx) origin (Suc k) (sr_trials (ss_result s2) @ new)"
    using inv' o(3) cands by (intro trials_ok_append) (simp_all add: s2)
  moreover have "chain_ok baseline best0 (min_improvement (cx_options cx)) (sr_trials (ss_result s2) @ new)"
    using inv' not_acc(1) by (intro chain_ok_append) (simp_all add: s2)
  moreover have "parent_ok best0 s3" unfolding o(1) using p2 not_acc(1) by (rule parent_ok_extended)
  ultimately have "search_inv cx origin baseline best0 (Suc k) s3"
    unfolding search_inv_alt using inv' o(2,4) by (auto simp: o(1) s2 image_Un)
  then show ?thesis
  proof (rule settle_inv [where s' = s' and ?s0.0 = s2])
    show "winner_ok cx s2 (sr_trials (ss_result s3)) w" using o(5) by (simp add: o(1))
    show "parent_ok best0 s2" by (rule p2)
    show "sr_baseline (ss_result s2) = baseline" using inv' by (simp add: s2)
    show "\<exists>new. sr_trials (ss_result s3) = sr_trials (ss_result s2) @ new \<and> (\<forall>t \<in> set new. tr_parent t = ss_parent s2)"
      using not_acc(2) by (auto simp: o(1))
    show "settle (s3, w) = (s', stop)" using run b by simp
  qed (simp_all add: o(1))
qed

lemma iteration_inv:
  assumes inv: "search_inv cx origin baseline best0 k s" and run: "search_iteration cx k s = (s', stop)"
  shows "search_inv cx origin baseline best0 (Suc k) s'"
proof -
  let ?s1 = "s\<lparr>ss_polls := ss_polls s + 1\<rparr>"
  have inv1: "search_inv cx origin baseline best0 k ?s1" using inv by (rule polls_inv)
  have stop: "search_inv cx origin baseline best0 (Suc k) (terminate why ?s1)" for why
    by (intro search_inv_Suc terminate_inv inv1)
  show ?thesis
  proof (cases "cx_checkpoint cx (ss_polls s) \<or> max_solves (cx_options cx) \<le> sr_solve_count (ss_result s)")
    case True
    with run stop show ?thesis by (auto simp: search_iteration_def Let_def split: if_splits)
  next
    case False
    show ?thesis
    proof (cases "objective_gradient (cx_engine cx) (ss_current ?s1) (cx_objective cx) (cx_space cx) (ss_changes ?s1)")
      case (Inl e)
      with run False stop show ?thesis by (auto simp: search_iteration_def Let_def)
    next
      case (Inr d)
      define s2 where "s2 = ?s1\<lparr>ss_result := (ss_result ?s1)\<lparr>sr_directions := sr_directions (ss_result ?s1) @ [d]\<rparr>\<rparr>"
      define gr where "gr = map dd_value (or_gradient d)"
      have step: "search_iteration cx k s = (if candidates cx s2 gr = [] then (terminate ''no_feasible_moves'' s2, True)
          else settle (beam cx k gr (active_constraints (cx_engine cx) (ss_current s2)) (s2, None)
                 (take (beam_width (cx_options cx)) (candidates cx s2 gr))))"
        using False Inr by (simp add: search_iteration_def Let_def s2_def gr_def)
      have dirs: "length (sr_directions (ss_result ?s1)) < Suc k" using inv by (simp add: search_inv_alt)
      show ?thesis
      proof (cases "candidates cx s2 gr = []")
        case True
        have "search_inv cx origin baseline best0 (Suc k) s2"
          using inv by (simp add: search_inv_alt s2_def trials_ok_Suc)
        then show ?thesis using run step True terminate_inv by fastforce
      next
        case F: False
        have "\<forall>p \<in> set (take (beam_width (cx_options cx)) (candidates cx s2 gr)).
            feasible (cx_space cx) p tolerance \<and> change_key p \<notin> set (ss_visited s2)"
          using candidates_ok by (fast dest: in_set_takeD)
        from beam_inv [OF inv1 dirs s2_def this] run step F show ?thesis by simp
      qed
    qed
  qed
qed

lemma loop_inv:
  "search_inv cx origin baseline best0 k s \<Longrightarrow> search_inv cx origin baseline best0 (k + n) (search_loop cx s [k..<k + n])"
proof (induction n arbitrary: k s)
  case (Suc n)
  obtain s' stop where it: "search_iteration cx k s = (s', stop)" by fastforce
  have s': "search_inv cx origin baseline best0 (Suc k) s'" using Suc.prems it by (rule iteration_inv)
  have up: "[k..<k + Suc n] = k # [Suc k..<Suc k + n]" by (simp add: upt_rec)
  have mono: "search_inv cx origin baseline best0 (Suc k + j) s'" for j by (induction j) (use s' in \<open>simp_all add: search_inv_Suc\<close>)
  show ?case unfolding up using Suc.IH [OF s'] mono [of n] it by simp
qed simp

lemma explore_inv:
  assumes "explore cx st origin = Inr r"
  shows "\<exists>s best0 baseline. r = ss_result s \<and> search_inv cx origin baseline best0 (max_iterations (cx_options cx)) s \<and>
    (best0 = None \<longleftrightarrow> \<not> feasible (cx_space cx) origin tolerance) \<and>
    objective_value (cx_engine cx) st (cx_objective cx) (cx_space cx) origin = Inr baseline"
proof -
  from assms obtain s0 where s0: "search_start cx st origin = Inr s0"
    and r: "r = ss_result (search_loop cx s0 [0..<max_iterations (cx_options cx)])"
    by (auto simp: explore_def and_then_Inr)
  from s0 obtain baseline best where ok: "objective_value (cx_engine cx) st (cx_objective cx) (cx_space cx) origin = Inr baseline"
    "best = None \<longleftrightarrow> \<not> feasible (cx_space cx) origin tolerance"
    and s: "s0 = \<lparr>ss_current = fork st, ss_changes = origin, ss_value = baseline,
          ss_result = \<lparr>sr_baseline = baseline, sr_best = best, sr_trials = [], sr_directions = [], sr_solve_count = 0,
            sr_termination = ''iteration_limit''\<rparr>,
          ss_visited = [change_key origin], ss_parent = None, ss_polls = 0\<rparr>"
    unfolding search_start_def and_then_Inr by (force split: if_splits simp: and_then_Inr)
  have "search_inv cx origin baseline best 0 s0"
    by (simp add: search_inv_alt s trials_ok_def parent_ok_def chain_ok_def)
  from loop_inv [OF this, of "max_iterations (cx_options cx)"] ok show ?thesis
    by (intro exI [of _ "search_loop cx s0 [0..<max_iterations (cx_options cx)]"] exI [of _ best] exI [of _ baseline]) (simp add: r)
qed

section \<open>Properties\<close>

text \<open>C8: a search stays within its budgets whatever the solver answers: one trial per exact solve, at most
  \<open>max_solves\<close> of them and at most 256, at most \<open>max_iterations\<close> directions; failed solves count. Every
  trial is feasible for the decision space, an exact candidate belongs to the changes of its trial,
  and no trial repeats the starting point or a trial of an earlier iteration.\<close>

theorem search_within_budget:
  assumes "explore cx st origin = Inr r"
  shows "sr_solve_count r = length (sr_trials r) \<and> sr_solve_count r \<le> max_solves (cx_options cx) \<and> max_solves (cx_options cx) \<le> 256 \<and>
    length (sr_directions r) \<le> max_iterations (cx_options cx) \<and>
    trials_ok (cx_space cx) origin (max_iterations (cx_options cx)) (sr_trials r)"
proof -
  have "max_solves (cx_options cx) \<le> 256"
    using assms unfolding explore_def search_start_def validate_options_def and_then_Inr err_if_Inr by auto
  moreover from explore_inv [OF assms] obtain s best0 baseline where "r = ss_result s"
    "search_inv cx origin baseline best0 (max_iterations (cx_options cx)) s" by blast
  ultimately show ?thesis by (simp add: search_inv_alt)
qed


definition witness_search :: "(unit, unit) search_context" where
  "witness_search = \<lparr>cx_engine = witness_engine, cx_view = (\<lambda>_. Inr []), cx_objective = InterventionPenalty ''a'' 1 0,
     cx_space = witness_space, cx_options = \<lparr>max_solves = 1, beam_width = 1, max_iterations = 1, min_improvement = 0\<rparr>,
     cx_checkpoint = (\<lambda>_. False)\<rparr>"

lemma witness_goal_value: "is_ok (objective_value witness_engine witness_study (InterventionPenalty ''a'' 1 0) witness_space [0])"
  unfolding objective_value_def witness_selectors witness_space_ok witness_goal_ok witness_change_ok and_then_simps by code_simp

lemma witness_search_parts:
  "is_ok (check_decision_state witness_engine witness_study witness_space [0])" "feasible witness_space [0] tolerance"
  "is_ok (validate_options (cx_options witness_search))"
  by code_simp+

lemma witness_capture: "is_ok (capture (\<lambda>_. Inr []) witness_engine witness_study [0] v)"
  by code_simp

lemma witness_search_runs: "\<exists>r. explore witness_search witness_study [0] = Inr r"
proof -
  obtain v where v: "objective_value witness_engine witness_study (InterventionPenalty ''a'' 1 0) witness_space [0] = Inr v"
    using is_ok_obtain [OF witness_goal_value] by blast
  obtain c where c: "capture (\<lambda>_. Inr []) witness_engine witness_study [0] v = Inr c"
    using is_ok_obtain [OF witness_capture] by blast
  obtain u1 u2 where u: "check_decision_state witness_engine witness_study witness_space [0] = Inr u1"
    "validate_options (cx_options witness_search) = Inr u2"
    using is_ok_obtain [OF witness_search_parts(1)] is_ok_obtain [OF witness_search_parts(3)] by blast
  have cx: "cx_engine witness_search = witness_engine" "cx_space witness_search = witness_space"
    "cx_objective witness_search = InterventionPenalty ''a'' 1 0" "cx_view witness_search = (\<lambda>_. Inr [])"
    by (simp_all add: witness_search_def)
  show ?thesis
    unfolding explore_def search_start_def cx witness_selectors witness_space_ok witness_goal_ok u v c fork_id
      witness_change_ok and_then_simps if_P [OF witness_search_parts(2)] by (rule exI) (rule refl)
qed

theorem search_within_budget_witness:
  "\<exists>r. explore witness_search witness_study [0] = Inr r \<and> sr_solve_count r \<le> 1"
proof -
  from witness_search_runs obtain r where r: "explore witness_search witness_study [0] = Inr r" by blast
  from search_within_budget [OF r] have "sr_solve_count r \<le> 1" by (simp add: witness_search_def)
  with r show ?thesis by blast
qed


definition two_bus_space :: decision_space where
  "two_bus_space = \<lparr>ds_variables =
     [\<lparr>dv_id = ''a'', dv_element = Id 1, intervention = ActiveDemand, lower = 0, upper = 1, increment = 1, budget_weight = 0\<rparr>,
      \<lparr>dv_id = ''b'', dv_element = Id 2, intervention = ActiveDemand, lower = 0, upper = 1, increment = 1, budget_weight = 0\<rparr>],
     total_budget = 0, max_changed_elements = 2, ds_demand = Some (Placement f64_two)\<rparr>"

lemma two_bus_arith: "f64_floor (1 / 1 + f64_1e_10) = 1" "f64_min f64_two 1 = 1" "f64_min 1 1 = (1 :: f64)" "f64_two - 1 = 1" "1 * 1 = (1 :: f64)"
  by code_simp+

lemma two_bus_order: "sort_by (by_gradient (\<lambda>i. [0, 0] ! i)) [0, 1] = [0, 1]" "demand_rows two_bus_space = [0, 1]"
  by code_simp+

lemma two_bus_feasible: "feasible two_bus_space [1, 1] tolerance"
  by code_simp

lemma two_bus_allocate: "allocate two_bus_space (p, f64_two) i = (p[i := 1], 1)" "fst (allocate two_bus_space (p, 1) i) = p[i := 1]" if "i < 2"
  using that by (auto simp: allocate_def Let_def two_bus_space_def two_bus_arith less_2_cases_iff)


end
