(* ===== verification/Planning.thy ===== *)
theory Planning
  imports Exploration
begin

text \<open>
  Capacity planning (\<open>src/crates/tellegen/src/plan.rs\<close>): a bounded search over branch ratings, steered by
  the gradient of a weighted price and verified by an exact solve of every trial. The theory models the checks
  of a specification, the trials of one gradient, the search, the record it leaves and the entries on an instance and on a
  Study. The exact solve, the adjoint solve and the polls of the cancellation flag are fields of a \<open>planner\<close>; the progress callback of
  the source, which every caller leaves empty, is omitted. A comparison sort over a gradient with a NaN has no order in Rust; here it
  is the stable insertion by \<open><\<close>, and no theorem depends on the order.
\<close>

section \<open>Objective, specification and outcome\<close>

record bus_weight =
  bw_bus :: nat
  bw_weight :: f64

datatype ImplicitObjective = WeightedLmp "bus_weight list"

record capacity_plan_spec =
  plan_objective :: ImplicitObjective
  plan_candidates :: "string list"
  max_increase_per_branch_mw :: f64
  budget_mw :: f64
  increment_mw :: f64
  max_changed_lines :: nat
  exact_solve_budget :: nat

record rating_change =
  rc_branch :: string
  rc_delta_mw :: f64

record gradient_entry =
  ge_branch :: string
  ge_value :: f64

record plan_iteration =
  it_gradient :: "gradient_entry list"
  it_delta_mw :: "rating_change list"
  predicted_phi_delta :: f64
  exact_phi_delta :: "f64 option"
  first_order_error :: "f64 option"
  first_order_error_rel :: "f64 option"
  it_accepted :: bool
  it_reason :: string

record plan_summary =
  sum_phi :: f64
  sum_declared_objective :: f64
  sum_exact_solve :: nat

record plan_outcome =
  baseline :: plan_summary
  exact_verified_result :: plan_summary
  baseline_phi :: f64
  final_phi :: f64
  proposal :: "rating_change list"
  spent_budget_mw :: f64
  plan_iterations :: "plan_iteration list"
  exact_solves :: nat

record planned_model =
  planned_outcome :: plan_outcome
  planned_network :: dc_network
  planned_solution :: dc_solution

record plan_execution =
  ex_outcome :: plan_outcome
  amended_instance :: dc_instance
  ex_network :: dc_network
  ex_solution :: dc_solution

text \<open>
  What one run of the planner is given: the exact solve by its number, the weighted adjoint of the
  prices in the line limits, and the answer of each poll of the cancellation flag (no flag: never).
\<close>

record planner =
  plan_solve :: "nat \<Rightarrow> dc_network \<Rightarrow> (string, dc_solution) result"
  plan_adjoint :: "dc_network \<Rightarrow> dc_solution \<Rightarrow> (nat \<times> f64) list \<Rightarrow> nat list \<Rightarrow> (string, f64 list) result"
  plan_cancelled :: "nat \<Rightarrow> bool"

section \<open>Units and thresholds\<close>

fun operand_served_scale :: "Operand \<Rightarrow> f64 \<Rightarrow> f64" where
  "operand_served_scale (Price _) b = 1 / b"
| "operand_served_scale (Dispatch _) b = b"
| "operand_served_scale (Flow _ _) b = b"
| "operand_served_scale (Voltage _) b = 1"

fun parameter_served_scale :: "Parameter \<Rightarrow> f64 \<Rightarrow> f64" where
  "parameter_served_scale (Demand _) b = b"
| "parameter_served_scale LineLimit b = b"
| "parameter_served_scale (GenBound _ _) b = b"
| "parameter_served_scale ConstraintLimit b = b"
| "parameter_served_scale (VoltageBound _) b = 1"
| "parameter_served_scale (Cost _) b = 1"
| "parameter_served_scale (SeriesAdmittance _) b = 1"
| "parameter_served_scale (ShuntAdmittance _) b = 1"
| "parameter_served_scale (Transformer _) b = 1"
| "parameter_served_scale Switching b = 1"

definition served_unit_scale :: "Operand \<Rightarrow> Parameter \<Rightarrow> f64 \<Rightarrow> f64" where
  "served_unit_scale o1 p b = operand_served_scale o1 b / parameter_served_scale p b"

definition NORMALIZED_MIN_IMPROVEMENT :: f64 where "NORMALIZED_MIN_IMPROVEMENT = f64_dec 1 4"
definition NORMALIZED_GRADIENT_FLOOR :: f64 where "NORMALIZED_GRADIENT_FLOOR = f64_1e_7"

definition f64_EPSILON :: f64 where "f64_EPSILON = F64 4372995238176751616"

lemma NORMALIZED_MIN_IMPROVEMENT_bits [code]: "NORMALIZED_MIN_IMPROVEMENT = F64 4547007122018943789"
  using f64_dec_bits [of 4 66 1008]
  by (simp add: NORMALIZED_MIN_IMPROVEMENT_def round_quot_def inf_mag_def f64_pack_def)

definition has_capacity_increase :: "f64 \<Rightarrow> bool" where
  "has_capacity_increase increase \<longleftrightarrow> 0 < increase"

definition remaining_allows_step :: "f64 \<Rightarrow> f64 \<Rightarrow> bool" where
  "remaining_allows_step remaining step \<longleftrightarrow>
     (if step \<le> remaining then True
      else step - remaining \<le> f64_of_int 64 * f64_EPSILON * f64_max \<bar>remaining\<bar> \<bar>step\<bar>)"

definition require_increment_multiple :: "string \<Rightarrow> f64 \<Rightarrow> f64 \<Rightarrow> (string, unit) result" where
  "require_increment_multiple name v step =
     (let steps = v / step
      in err_if (f64_1e_9 * f64_max \<bar>steps\<bar> 1 < \<bar>steps - f64_round steps\<bar>)
           (name @ '' must be a whole multiple of increment_mw''))"

section \<open>The resolved problem\<close>

definition branch_index :: "dc_network \<Rightarrow> string \<Rightarrow> (string, nat) result" where
  "branch_index dc identity =
     ok_or (''plan candidate branch '' @ quote identity @ '' is not in the model'')
       (position (\<lambda>candidate. candidate = identity) (branch_identities dc))"

definition bus_index :: "dc_network \<Rightarrow> nat \<Rightarrow> (string, nat) result" where
  "bus_index dc b =
     ok_or (''objective bus '' @ show_nat b @ '' is not in the model'') (position (\<lambda>candidate. candidate = b) (bus_ids dc))"

definition phi :: "dc_network \<Rightarrow> dc_solution \<Rightarrow> (nat \<times> f64) list \<Rightarrow> f64" where
  "phi dc sol weights = f64_sum (map (\<lambda>(b, w). w * nodal_marginal_values sol (base_mva dc) ! b) weights)"

fun first_repeat :: "nat list \<Rightarrow> (nat \<times> 'a) list \<Rightarrow> 'a option" where
  "first_repeat seen [] = None"
| "first_repeat seen ((d, x) # rest) = (if d \<in> set seen then Some x else first_repeat (d # seen) rest)"

record plan_problem =
  pp_weights :: "(nat \<times> f64) list"
  pp_scale :: f64
  pp_slots :: "nat list"

definition check_bounds :: "dc_network \<Rightarrow> capacity_plan_spec \<Rightarrow> bus_weight list \<Rightarrow> (string, unit) result" where
  "check_bounds dc spec weights =
     and_then (err_if (allow_shed dc) ''capacity planning requires an exact solve without undeclared load shedding'') (\<lambda>_.
     and_then (err_if (\<not> economic dc) ''weighted_lmp requires the network_generator_cost PowerIO objective'') (\<lambda>_.
     and_then (err_if (weights = []) ''the objective names no buses'') (\<lambda>_.
     and_then (err_if (plan_candidates spec = []) ''the plan names no candidate branches'') (\<lambda>_.
     and_then (err_if (\<not> is_finite (increment_mw spec) \<or> increment_mw spec \<le> 0) ''increment_mw must be positive'') (\<lambda>_.
     and_then (err_if (\<not> is_finite (budget_mw spec) \<or> budget_mw spec \<le> 0) ''budget_mw must be positive'') (\<lambda>_.
     and_then (err_if (\<not> is_finite (max_increase_per_branch_mw spec) \<or> max_increase_per_branch_mw spec \<le> 0)
       ''max_increase_per_branch_mw must be positive'') (\<lambda>_.
     and_then (err_if (exact_solve_budget spec = 0) ''exact_solve_budget must include at least the baseline solve'') (\<lambda>_.
     and_then (require_increment_multiple ''budget_mw'' (budget_mw spec) (increment_mw spec)) (\<lambda>_.
     require_increment_multiple ''max_increase_per_branch_mw'' (max_increase_per_branch_mw spec) (increment_mw spec))))))))))"

definition resolve_weights :: "dc_network \<Rightarrow> bus_weight list \<Rightarrow> (string, (nat \<times> f64) list) result" where
  "resolve_weights dc weights =
     and_then (try_map (\<lambda>w. and_then (err_if (\<not> is_finite (bw_weight w))
         (''objective weight for bus '' @ show_nat (bw_bus w) @ '' is not finite'')) (\<lambda>_.
       and_then (bus_index dc (bw_bus w)) (\<lambda>i. Inr (i, bw_weight w)))) weights) (\<lambda>dense.
     case first_repeat [] (zip (map fst dense) weights) of
       Some term \<Rightarrow> Inl (''objective bus '' @ show_nat (bw_bus term) @ '' appears twice; combine its weights into one term'')
     | None \<Rightarrow> Inr dense)"

definition objective_scale :: "(nat \<times> f64) list \<Rightarrow> f64" where
  "objective_scale dense =
     (let largest = foldl f64_max 0 (map (\<lambda>(_, w). \<bar>w\<bar>) dense) in if 0 < largest then largest else 1)"

definition resolve_candidates :: "dc_network \<Rightarrow> capacity_plan_spec \<Rightarrow> (string, nat list) result" where
  "resolve_candidates dc spec =
     and_then (err_if (max_changed_lines spec = 0) ''max_changed_lines must be at least one'') (\<lambda>_.
     and_then (try_map (branch_index dc) (plan_candidates spec)) (\<lambda>slots.
     case first_repeat [] (zip slots (plan_candidates spec)) of
       Some key \<Rightarrow> Inl (''candidate branch '' @ key @ '' appears twice'')
     | None \<Rightarrow>
         and_then (try_each (\<lambda>(dense, identity). err_if (branch_source_rows dc ! dense = None)
             (''candidate branch '' @ quote identity @ '' is a derived analysis row'')) (zip slots (plan_candidates spec))) (\<lambda>_.
         and_then (err_if (length slots < max_changed_lines spec)
             (''max_changed_lines '' @ show_nat (max_changed_lines spec) @ '' exceeds the '' @ show_nat (length slots) @
              '' candidate branches'')) (\<lambda>_.
         Inr slots))))"

definition resolve_plan :: "dc_network \<Rightarrow> capacity_plan_spec \<Rightarrow> (string, plan_problem) result" where
  "resolve_plan dc spec =
     (case plan_objective spec of WeightedLmp weights \<Rightarrow>
        and_then (check_bounds dc spec weights) (\<lambda>_.
        and_then (resolve_weights dc weights) (\<lambda>dense.
        and_then (resolve_candidates dc spec) (\<lambda>slots.
        Inr \<lparr>pp_weights = dense, pp_scale = objective_scale dense, pp_slots = slots\<rparr>))))"

section \<open>The search\<close>

record plan_state =
  st_network :: dc_network
  st_solution :: dc_solution
  st_solves :: nat
  st_verified_at :: nat
  st_cumulative :: "f64 list"
  st_budget_left :: f64
  st_iterations :: "plan_iteration list"
  st_phi :: f64
  st_polls :: nat

definition plan_poll :: "planner \<Rightarrow> plan_state \<Rightarrow> (string, plan_state) result" where
  "plan_poll pl st =
     (if plan_cancelled pl (st_polls st) then Inl ''capacity planning cancelled''
      else Inr (st\<lparr>st_polls := st_polls st + 1\<rparr>))"

definition changed_lines :: "f64 list \<Rightarrow> nat" where
  "changed_lines cumulative = length (filter has_capacity_increase cumulative)"

definition movable :: "capacity_plan_spec \<Rightarrow> plan_problem \<Rightarrow> f64 list \<Rightarrow> nat \<Rightarrow> plan_state \<Rightarrow> nat \<Rightarrow> bool" where
  "movable spec pp gradient changed st slot \<longleftrightarrow>
     \<not> - NORMALIZED_GRADIENT_FLOOR \<le> gradient ! slot / pp_scale pp \<and>
     \<not> (\<not> has_capacity_increase (st_cumulative st ! slot) \<and> max_changed_lines spec \<le> changed) \<and>
     remaining_allows_step (max_increase_per_branch_mw spec - st_cumulative st ! slot) (increment_mw spec)"

definition trial_network :: "dc_network \<Rightarrow> nat \<Rightarrow> f64 \<Rightarrow> dc_network" where
  "trial_network dc dense increase = dc\<lparr>fmax := (fmax dc)[dense := fmax dc ! dense + increase / base_mva dc]\<rparr>"

definition improving :: "plan_problem \<Rightarrow> f64 \<Rightarrow> bool" where
  "improving pp exact \<longleftrightarrow> exact / pp_scale pp < - NORMALIZED_MIN_IMPROVEMENT"

definition solved_iteration ::
  "gradient_entry list \<Rightarrow> rating_change list \<Rightarrow> f64 \<Rightarrow> f64 \<Rightarrow> bool \<Rightarrow> plan_iteration" where
  "solved_iteration reported changes predicted exact accepted =
     \<lparr>it_gradient = reported, it_delta_mw = changes, predicted_phi_delta = predicted, exact_phi_delta = Some exact,
      first_order_error = Some \<bar>exact - predicted\<bar>,
      first_order_error_rel = (if f64_EPSILON < \<bar>exact\<bar> then Some (\<bar>exact - predicted\<bar> / \<bar>exact\<bar>) else None),
      it_accepted = accepted,
      it_reason = (if accepted then ''exact re-solve improves the objective'' else ''exact re-solve does not improve the objective'')\<rparr>"

definition unsolved_iteration :: "gradient_entry list \<Rightarrow> rating_change list \<Rightarrow> f64 \<Rightarrow> string \<Rightarrow> plan_iteration" where
  "unsolved_iteration reported changes predicted reason =
     \<lparr>it_gradient = reported, it_delta_mw = changes, predicted_phi_delta = predicted, exact_phi_delta = None,
      first_order_error = None, first_order_error_rel = None, it_accepted = False, it_reason = reason\<rparr>"

definition record_iteration :: "plan_iteration \<Rightarrow> plan_state \<Rightarrow> plan_state" where
  "record_iteration it st = st\<lparr>st_iterations := st_iterations st @ [it]\<rparr>"

definition accept_trial :: "capacity_plan_spec \<Rightarrow> nat \<Rightarrow> dc_network \<Rightarrow> dc_solution \<Rightarrow> f64 \<Rightarrow> plan_state \<Rightarrow> plan_state" where
  "accept_trial spec slot trial sol value st =
     st\<lparr>st_cumulative := (st_cumulative st)[slot := st_cumulative st ! slot + increment_mw spec],
        st_budget_left := st_budget_left st - increment_mw spec, st_network := trial, st_solution := sol,
        st_phi := value, st_verified_at := st_solves st\<rparr>"

text \<open>The candidates of one gradient, in order: the outcome says whether a trial was made and whether one was kept.\<close>

fun try_slots ::
  "planner \<Rightarrow> capacity_plan_spec \<Rightarrow> plan_problem \<Rightarrow> f64 list \<Rightarrow> gradient_entry list \<Rightarrow> nat \<Rightarrow> bool \<Rightarrow> plan_state
     \<Rightarrow> nat list \<Rightarrow> (string, bool \<times> bool \<times> plan_state) result" where
  "try_slots pl spec pp gradient reported changed attempted st [] = Inr (attempted, False, st)"
| "try_slots pl spec pp gradient reported changed attempted st (slot # order) =
     (if st_solves st = exact_solve_budget spec then Inr (attempted, False, st)
      else if \<not> movable spec pp gradient changed st slot
      then try_slots pl spec pp gradient reported changed attempted st order
      else
        let predicted = gradient ! slot * increment_mw spec;
            changes = [\<lparr>rc_branch = plan_candidates spec ! slot, rc_delta_mw = increment_mw spec\<rparr>];
            trial = trial_network (st_network st) (pp_slots pp ! slot) (increment_mw spec);
            outcome = plan_solve pl (st_solves st) trial
        in case plan_poll pl (st\<lparr>st_solves := st_solves st + 1\<rparr>) of Inl e \<Rightarrow> Inl e | Inr st \<Rightarrow>
          (case outcome of
             Inr sol \<Rightarrow>
               let value = phi trial sol (pp_weights pp); exact = value - st_phi st;
                   kept = improving pp exact;
                   st = record_iteration (solved_iteration reported changes predicted exact kept) st
               in if kept then Inr (True, True, accept_trial spec slot trial sol value st)
                  else try_slots pl spec pp gradient reported changed True st order
           | Inl err \<Rightarrow>
               (case plan_poll pl st of Inl e \<Rightarrow> Inl e | Inr st \<Rightarrow>
                 try_slots pl spec pp gradient reported changed True
                   (record_iteration (unsolved_iteration reported changes predicted (''trial solve failed: '' @ err)) st) order)))"

lemma try_slots_solves:
  assumes "try_slots pl spec pp gradient reported changed attempted st order = Inr (att, acc, st')"
  shows "st_solves st \<le> st_solves st' \<and> (acc \<longrightarrow> st_solves st < st_solves st')"
  using assms
proof (induction order arbitrary: attempted st)
  case (Cons slot order)
  show ?case
    using Cons.prems
    by (auto simp: Let_def and_then_Inr plan_poll_def record_iteration_def accept_trial_def split: if_splits sum.splits
        dest!: Cons.IH)
qed simp

definition slot_order :: "f64 list \<Rightarrow> nat \<Rightarrow> nat list" where
  "slot_order gradient n = sort_by (\<lambda>a b. gradient ! a < gradient ! b) [0..<n]"

definition no_move :: "gradient_entry list \<Rightarrow> plan_iteration" where
  "no_move reported = unsolved_iteration reported [] 0
     ''no candidate capacity increase is available within the gradient, budget, per branch, and global line bounds''"

function plan_search ::
  "planner \<Rightarrow> capacity_plan_spec \<Rightarrow> plan_problem \<Rightarrow> plan_state \<Rightarrow> (string, plan_state) result" where
  "plan_search pl spec pp st0 =
     (if exact_solve_budget spec \<le> st_solves st0 then Inr st0
      else case plan_poll pl st0 of Inl e \<Rightarrow> Inl e | Inr st1 \<Rightarrow>
        if \<not> remaining_allows_step (st_budget_left st1) (increment_mw spec) then Inr st1
        else case plan_adjoint pl (st_network st1) (st_solution st1) (pp_weights pp) (pp_slots pp) of
          Inl e \<Rightarrow> Inl e
        | Inr per_unit \<Rightarrow>
            let scale = served_unit_scale (Price Active) LineLimit (base_mva (st_network st1));
                gradient = map (\<lambda>g. g * scale) per_unit
            in case plan_poll pl st1 of Inl e \<Rightarrow> Inl e | Inr st2 \<Rightarrow>
               let reported = map (\<lambda>(key, v). \<lparr>ge_branch = key, ge_value = v\<rparr>) (zip (plan_candidates spec) gradient)
               in case try_slots pl spec pp gradient reported (changed_lines (st_cumulative st2)) False st2
                     (slot_order gradient (length (pp_slots pp))) of
                    Inl e \<Rightarrow> Inl e
                  | Inr (attempted, accepted, st3) \<Rightarrow>
                      if accepted then plan_search pl spec pp st3
                      else Inr (if attempted then st3 else record_iteration (no_move reported) st3))"
  by pat_completeness auto
termination
  by (relation "measure (\<lambda>(_, spec, _, st). exact_solve_budget spec - st_solves st)")
     (auto simp: plan_poll_def dest!: try_slots_solves split: if_splits)

declare plan_search.simps [simp del]

section \<open>One planning operation\<close>

definition plan_start :: "capacity_plan_spec \<Rightarrow> plan_problem \<Rightarrow> dc_network \<Rightarrow> dc_solution \<Rightarrow> nat \<Rightarrow> plan_state" where
  "plan_start spec pp dc sol polls =
     \<lparr>st_network = dc, st_solution = sol, st_solves = 1, st_verified_at = 1,
      st_cumulative = replicate (length (pp_slots pp)) 0, st_budget_left = budget_mw spec, st_iterations = [],
      st_phi = phi dc sol (pp_weights pp), st_polls = polls\<rparr>"

definition plan_finish :: "capacity_plan_spec \<Rightarrow> plan_state \<Rightarrow> plan_state \<Rightarrow> planned_model" where
  "plan_finish spec begun st =
     \<lparr>planned_outcome = \<lparr>
        baseline = \<lparr>sum_phi = st_phi begun, sum_declared_objective = sol_objective (st_solution begun), sum_exact_solve = 1\<rparr>,
        exact_verified_result = \<lparr>sum_phi = st_phi st, sum_declared_objective = sol_objective (st_solution st),
          sum_exact_solve = st_verified_at st\<rparr>,
        baseline_phi = st_phi begun, final_phi = st_phi st,
        proposal = map (\<lambda>(key, d). \<lparr>rc_branch = key, rc_delta_mw = d\<rparr>)
          (filter (\<lambda>(_, d). has_capacity_increase d) (zip (plan_candidates spec) (st_cumulative st))),
        spent_budget_mw = f64_sum (map abs (st_cumulative st)),
        plan_iterations = st_iterations st, exact_solves = st_solves st\<rparr>,
      planned_network = st_network st, planned_solution = st_solution st\<rparr>"

definition plan_capacity_impl ::
  "planner \<Rightarrow> dc_network \<Rightarrow> capacity_plan_spec \<Rightarrow> dc_solution option \<Rightarrow> (string, planned_model) result" where
  "plan_capacity_impl pl dc spec initial =
     and_then (resolve_plan dc spec) (\<lambda>pp.
     and_then (err_if (plan_cancelled pl 0) ''capacity planning cancelled'') (\<lambda>_.
     and_then (case initial of Some sol \<Rightarrow> Inr sol | None \<Rightarrow> plan_solve pl 0 dc) (\<lambda>sol.
     and_then (err_if (plan_cancelled pl 1) ''capacity planning cancelled'') (\<lambda>_.
     let begun = plan_start spec pp dc sol 2
     in and_then (plan_search pl spec pp begun) (\<lambda>st. Inr (plan_finish spec begun st))))))"

definition amend_rating :: "planned_model \<Rightarrow> network \<Rightarrow> rating_change \<Rightarrow> (string, network) result" where
  "amend_rating p net change =
     and_then (branch_index (planned_network p) (rc_branch change)) (\<lambda>dense.
     and_then (ok_or (''plan candidate branch '' @ quote (rc_branch change) @ '' is a derived analysis row'')
       (branch_source_rows (planned_network p) ! dense)) (\<lambda>row.
     Inr (net\<lparr>branches := (branches net)[row := (branches net ! row)
       \<lparr>rate_a := fmax (planned_network p) ! dense * base_mva (planned_network p)\<rparr>]\<rparr>)))"

definition plan_capacity_cancellable ::
  "('a, 'c) engine \<Rightarrow> planner \<Rightarrow> dc_instance \<Rightarrow> capacity_plan_spec \<Rightarrow> (string, plan_execution) result" where
  "plan_capacity_cancellable eng pl inst spec =
     and_then (dc_prepare eng inst) (\<lambda>dc.
     and_then (plan_capacity_impl pl dc spec None) (\<lambda>p.
     and_then (try_fold (amend_rating p) (dci_network inst) (proposal (planned_outcome p))) (\<lambda>net.
     and_then (dc_with_network eng inst net) (\<lambda>amended.
     Inr \<lparr>ex_outcome = planned_outcome p, amended_instance = amended, ex_network = planned_network p,
          ex_solution = planned_solution p\<rparr>))))"

definition plan_capacity ::
  "('a, 'c) engine \<Rightarrow> planner \<Rightarrow> dc_instance \<Rightarrow> capacity_plan_spec \<Rightarrow> (string, plan_execution) result" where
  "plan_capacity eng pl inst spec = plan_capacity_cancellable eng (pl\<lparr>plan_cancelled := \<lambda>_. False\<rparr>) inst spec"

definition into_solution :: "('a, 'c) engine \<Rightarrow> plan_execution \<Rightarrow> (string, plan_outcome \<times> string) result" where
  "into_solution eng ex =
     and_then (emit_dc eng (amended_instance ex) (ex_network ex) (ex_solution ex)) (\<lambda>sol. Inr (ex_outcome ex, sol))"

definition plan_capacity_from_exact ::
  "planner \<Rightarrow> dc_network \<Rightarrow> dc_solution \<Rightarrow> capacity_plan_spec \<Rightarrow> (string, plan_outcome) result" where
  "plan_capacity_from_exact pl dc sol spec =
     and_then (plan_capacity_impl (pl\<lparr>plan_cancelled := \<lambda>_. False\<rparr>) dc spec (Some sol)) (\<lambda>p. Inr (planned_outcome p))"

definition study_plan :: "planner \<Rightarrow> ('a, 'c) study \<Rightarrow> capacity_plan_spec \<Rightarrow> (string, plan_outcome) result" where
  "study_plan pl st spec =
     (case study_solved st of
        DcState dc sol \<Rightarrow> plan_capacity_from_exact pl dc sol spec
      | _ \<Rightarrow> Inl (''planning requires the DC OPF formulation; this study solves '' @ show_problem (formulation st)))"

section \<open>What an improvement is\<close>

lemma f64_one_pos: "0 < (1 :: f64)" "\<not> (1 :: f64) \<le> 0"
  by (code_simp, code_simp)

lemma objective_scale_pos: "0 < objective_scale dense"
  by (simp add: objective_scale_def Let_def f64_one_pos)

lemma improving_less:
  assumes "improving pp (a - b)" "0 < pp_scale pp"
  shows "a < b"
proof -
  have "- NORMALIZED_MIN_IMPROVEMENT < 0" by code_simp
  with assms(1) have "(a - b) / pp_scale pp < 0" unfolding improving_def by (rule f64_less_trans)
  with assms(2) show ?thesis by (blast intro: f64_minus_neg f64_div_neg)
qed

section \<open>The invariant of a planning search\<close>

text \<open>Amounts after \<open>n\<close> accepted steps, and the model after the accepted slots \<open>acc\<close>.\<close>

definition climb :: "capacity_plan_spec \<Rightarrow> nat \<Rightarrow> f64" where
  "climb spec n = ((\<lambda>d. d + increment_mw spec) ^^ n) 0"

definition descend :: "capacity_plan_spec \<Rightarrow> nat \<Rightarrow> f64" where
  "descend spec n = ((\<lambda>b. b - increment_mw spec) ^^ n) (budget_mw spec)"

definition replay :: "capacity_plan_spec \<Rightarrow> nat list \<Rightarrow> nat list \<Rightarrow> dc_network \<Rightarrow> dc_network" where
  "replay spec slots acc dc = fold (\<lambda>slot n. trial_network n (slots ! slot) (increment_mw spec)) acc dc"

definition step_allowed :: "capacity_plan_spec \<Rightarrow> nat \<Rightarrow> nat list \<Rightarrow> nat \<Rightarrow> bool" where
  "step_allowed spec n acc k \<longleftrightarrow> acc ! k < n \<and> remaining_allows_step (descend spec k) (increment_mw spec) \<and>
     remaining_allows_step (max_increase_per_branch_mw spec - climb spec (count_list (take k acc) (acc ! k))) (increment_mw spec)"

definition amounts :: "capacity_plan_spec \<Rightarrow> nat \<Rightarrow> nat list \<Rightarrow> f64 list" where
  "amounts spec n acc = map (\<lambda>i. climb spec (count_list acc i)) [0..<n]"

definition trials_made :: "plan_iteration list \<Rightarrow> nat" where
  "trials_made its = length (filter (\<lambda>it. it_delta_mw it \<noteq> []) its)"

definition bounded_steps :: "capacity_plan_spec \<Rightarrow> nat \<Rightarrow> plan_state \<Rightarrow> nat list \<Rightarrow> bool" where
  "bounded_steps spec n st acc \<longleftrightarrow> st_cumulative st = amounts spec n acc \<and> st_budget_left st = descend spec (length acc) \<and>
     (\<forall>k < length acc. step_allowed spec n acc k) \<and> changed_lines (st_cumulative st) \<le> max_changed_lines spec \<and>
     st_solves st = 1 + trials_made (st_iterations st) \<and> st_solves st \<le> exact_solve_budget spec"

definition kept_trials :: "capacity_plan_spec \<Rightarrow> plan_problem \<Rightarrow> plan_iteration list \<Rightarrow> nat list \<Rightarrow> bool" where
  "kept_trials spec pp its acc \<longleftrightarrow>
     map it_delta_mw (filter it_accepted its) =
       map (\<lambda>slot. [\<lparr>rc_branch = plan_candidates spec ! slot, rc_delta_mw = increment_mw spec\<rparr>]) acc \<and>
     (\<forall>it \<in> set its. it_accepted it \<longrightarrow> (\<exists>x. exact_phi_delta it = Some x \<and> improving pp x))"

definition verified_state ::
  "planner \<Rightarrow> capacity_plan_spec \<Rightarrow> plan_problem \<Rightarrow> dc_network \<Rightarrow> dc_solution \<Rightarrow> plan_state \<Rightarrow> nat list \<Rightarrow> bool" where
  "verified_state pl spec pp dc sol st acc \<longleftrightarrow> st_network st = replay spec (pp_slots pp) acc dc \<and>
     st_phi st = phi (st_network st) (st_solution st) (pp_weights pp) \<and> st_verified_at st \<le> st_solves st \<and>
     (if acc = [] then st_solution st = sol \<and> st_verified_at st = 1 \<and> st_phi st = phi dc sol (pp_weights pp)
      else 1 < st_verified_at st \<and> plan_solve pl (st_verified_at st - 1) (st_network st) = Inr (st_solution st) \<and>
        st_phi st < phi dc sol (pp_weights pp))"

definition plan_inv ::
  "planner \<Rightarrow> capacity_plan_spec \<Rightarrow> plan_problem \<Rightarrow> dc_network \<Rightarrow> dc_solution \<Rightarrow> plan_state \<Rightarrow> nat list \<Rightarrow> bool" where
  "plan_inv pl spec pp dc sol st acc \<longleftrightarrow> bounded_steps spec (length (pp_slots pp)) st acc \<and>
     kept_trials spec pp (st_iterations st) acc \<and> verified_state pl spec pp dc sol st acc"

lemmas plan_inv_defs = plan_inv_def bounded_steps_def kept_trials_def verified_state_def

lemma plan_inv_poll: "plan_poll pl st = Inr st' \<Longrightarrow> plan_inv pl' spec pp dc sol st' acc = plan_inv pl' spec pp dc sol st acc"
  by (auto simp: plan_poll_def plan_inv_defs split: if_splits)

lemma plan_poll_simps:
  "plan_poll pl st = Inr st' \<Longrightarrow> st_cumulative st' = st_cumulative st" "plan_poll pl st = Inr st' \<Longrightarrow> st_solves st' = st_solves st"
  "plan_poll pl st = Inr st' \<Longrightarrow> st_budget_left st' = st_budget_left st" "plan_poll pl st = Inr st' \<Longrightarrow> st_phi st' = st_phi st"
  "plan_poll pl st = Inr st' \<Longrightarrow> st_network st' = st_network st" "plan_poll pl st = Inr st' \<Longrightarrow> st_solution st' = st_solution st"
  by (auto simp: plan_poll_def split: if_splits)

text \<open>A trial that is not kept adds its iteration and its solve.\<close>

lemma plan_inv_dropped:
  assumes "plan_inv pl spec pp dc sol st acc" "st_solves st < exact_solve_budget spec"
    and "\<not> it_accepted it" "it_delta_mw it \<noteq> []"
  shows "plan_inv pl spec pp dc sol (record_iteration it (st\<lparr>st_solves := st_solves st + 1\<rparr>)) acc"
  using assms by (auto simp: plan_inv_defs record_iteration_def trials_made_def)

lemma plan_inv_idle:
  assumes "plan_inv pl spec pp dc sol st acc" "\<not> it_accepted it" "it_delta_mw it = []"
  shows "plan_inv pl spec pp dc sol (record_iteration it st) acc"
  using assms by (auto simp: plan_inv_defs record_iteration_def trials_made_def)

lemma amounts_step:
  assumes "slot < n"
  shows "amounts spec n (acc @ [slot]) = (amounts spec n acc)[slot := amounts spec n acc ! slot + increment_mw spec]"
  using assms by (intro nth_equalityI) (auto simp: amounts_def climb_def nth_list_update)

lemma changed_lines_update:
  assumes "slot < length cs" "has_capacity_increase (cs ! slot) \<or> changed_lines cs < m" "changed_lines cs \<le> m"
  shows "changed_lines (cs[slot := d]) \<le> m"
proof -
  have "cs = take slot cs @ cs ! slot # drop (Suc slot) cs" using assms(1) by (simp add: id_take_nth_drop)
  then have split: "changed_lines cs = changed_lines (take slot cs) + changed_lines [cs ! slot] + changed_lines (drop (Suc slot) cs)"
    unfolding changed_lines_def by (metis (no_types) append_Cons append_Nil filter_append length_append add.assoc)
  have "changed_lines (cs[slot := d]) = changed_lines (take slot cs) + changed_lines [d] + changed_lines (drop (Suc slot) cs)"
    using assms(1) by (simp add: upd_conv_take_nth_drop changed_lines_def)
  moreover have "changed_lines [d] \<le> 1" by (simp add: changed_lines_def)
  ultimately show ?thesis using assms(2,3) split by (auto simp: changed_lines_def)
qed

lemma plan_inv_kept:
  assumes inv: "plan_inv pl spec pp dc sol st acc" and scale: "0 < pp_scale pp"
    and slot: "slot < length (pp_slots pp)" and budget: "st_solves st < exact_solve_budget spec"
    and left: "remaining_allows_step (st_budget_left st) (increment_mw spec)"
    and mv: "movable spec pp gradient (changed_lines (st_cumulative st)) st slot"
    and trial: "trial = trial_network (st_network st) (pp_slots pp ! slot) (increment_mw spec)"
    and solved: "plan_solve pl (st_solves st) trial = Inr s" and v: "v = phi trial s (pp_weights pp)"
    and imp: "improving pp (v - st_phi st)"
    and it: "it_accepted it" "exact_phi_delta it = Some (v - st_phi st)"
      "it_delta_mw it = [\<lparr>rc_branch = plan_candidates spec ! slot, rc_delta_mw = increment_mw spec\<rparr>]"
  shows "plan_inv pl spec pp dc sol
    (accept_trial spec slot trial s v (record_iteration it (st\<lparr>st_solves := st_solves st + 1\<rparr>))) (acc @ [slot])"
proof -
  let ?n = "length (pp_slots pp)"
  let ?st = "accept_trial spec slot trial s v (record_iteration it (st\<lparr>st_solves := st_solves st + 1\<rparr>))"
  from inv have b: "bounded_steps spec ?n st acc" and k: "kept_trials spec pp (st_iterations st) acc"
    and vs: "verified_state pl spec pp dc sol st acc" by (simp_all add: plan_inv_def)
  have fields: "st_cumulative ?st = amounts spec ?n (acc @ [slot])" "st_budget_left ?st = descend spec (length (acc @ [slot]))"
    "st_solves ?st = st_solves st + 1" "st_iterations ?st = st_iterations st @ [it]"
    using b slot by (simp_all add: accept_trial_def record_iteration_def bounded_steps_def amounts_step descend_def)
  have room: "remaining_allows_step (max_increase_per_branch_mw spec - climb spec (count_list acc slot)) (increment_mw spec)"
    using mv b slot by (simp add: movable_def bounded_steps_def amounts_def)
  have "step_allowed spec ?n (acc @ [slot]) i" if "i < length (acc @ [slot])" for i
  proof (cases "i = length acc")
    case True
    with slot left room b show ?thesis by (simp add: step_allowed_def bounded_steps_def)
  next
    case False
    with that b have "step_allowed spec ?n acc i" "i < length acc" by (simp_all add: bounded_steps_def)
    then show ?thesis by (simp add: step_allowed_def nth_append)
  qed
  moreover have "changed_lines (st_cumulative ?st) \<le> max_changed_lines spec"
    unfolding fields(1) amounts_step [OF slot] using mv b slot
    by (intro changed_lines_update) (auto simp: movable_def bounded_steps_def amounts_def)
  moreover have "st_solves ?st = 1 + trials_made (st_iterations ?st)"
    using b it(3) unfolding fields(3,4) by (simp add: bounded_steps_def trials_made_def)
  moreover have "st_solves ?st \<le> exact_solve_budget spec" using budget unfolding fields(3) by simp
  ultimately have "bounded_steps spec ?n ?st (acc @ [slot])"
    unfolding bounded_steps_def using fields(1,2) by blast
  moreover have "kept_trials spec pp (st_iterations ?st) (acc @ [slot])"
    using k it imp unfolding fields(4) by (auto simp: kept_trials_def)
  moreover have "verified_state pl spec pp dc sol ?st (acc @ [slot])"
  proof -
    have less: "v < st_phi st" by (rule improving_less [OF imp scale])
    have "v < phi dc sol (pp_weights pp)"
      using vs less by (cases "acc = []") (auto simp: verified_state_def intro: f64_less_trans)
    moreover have "0 < st_solves st" using b by (simp add: bounded_steps_def)
    ultimately show ?thesis using vs solved trial v
      by (simp add: verified_state_def accept_trial_def record_iteration_def replay_def)
  qed
  ultimately show ?thesis by (simp add: plan_inv_def)
qed

lemma try_slots_inv:
  assumes "try_slots pl spec pp gradient reported changed attempted st order = Inr (att, ac, st')"
    and "plan_inv pl spec pp dc sol st acc" "0 < pp_scale pp" "changed = changed_lines (st_cumulative st)"
    and "remaining_allows_step (st_budget_left st) (increment_mw spec)" "set order \<subseteq> {..<length (pp_slots pp)}"
  shows "\<exists>acc'. plan_inv pl spec pp dc sol st' acc' \<and> (if ac then acc' \<noteq> [] else acc' = acc)"
  using assms(1,2,4-6)
proof (induction order arbitrary: attempted st)
  case (Cons slot order)
  note inv = Cons.prems(2)
  let ?go = "\<lambda>att st. try_slots pl spec pp gradient reported changed att st order"
  consider "st_solves st = exact_solve_budget spec" "st' = st" "\<not> ac"
    | "st_solves st \<noteq> exact_solve_budget spec" "\<not> movable spec pp gradient changed st slot" "?go attempted st = Inr (att, ac, st')"
    | "st_solves st \<noteq> exact_solve_budget spec" "movable spec pp gradient changed st slot"
    using Cons.prems(1) by (auto split: if_splits)
  then show ?case
  proof cases
    case 1
    with inv show ?thesis by auto
  next
    case 2
    with Cons.IH [OF 2(3) inv Cons.prems(3,4)] Cons.prems(5) show ?thesis by simp
  next
    case 3
    have more: "st_solves st < exact_solve_budget spec" using inv 3(1) by (simp add: plan_inv_defs)
    define trial where "trial = trial_network (st_network st) (pp_slots pp ! slot) (increment_mw spec)"
    define predicted where "predicted = gradient ! slot * increment_mw spec"
    define changes where "changes = [\<lparr>rc_branch = plan_candidates spec ! slot, rc_delta_mw = increment_mw spec\<rparr>]"
    define st1 where "st1 = st\<lparr>st_solves := st_solves st + 1, st_polls := st_polls st + 1\<rparr>"
    have poll: "plan_poll pl (st\<lparr>st_solves := st_solves st + 1\<rparr>) = Inr st1"
      using Cons.prems(1) 3 by (auto simp: Let_def plan_poll_def st1_def split: if_splits)
    have cum: "st_cumulative st1 = st_cumulative st" "st_budget_left st1 = st_budget_left st" "st_phi st1 = st_phi st" by (simp_all add: st1_def)
    show ?thesis
    proof (cases "plan_solve pl (st_solves st) trial")
      case (Inl err)
      define it where "it = unsolved_iteration reported changes predicted (''trial solve failed: '' @ err)"
      obtain st2 where poll2: "plan_poll pl st1 = Inr st2" and run: "?go True (record_iteration it st2) = Inr (att, ac, st')"
        using Cons.prems(1) 3 poll Inl
        by (cases "plan_poll pl st1")
          (simp_all add: Let_def trial_def [symmetric] predicted_def [symmetric] changes_def [symmetric] it_def)
      have "plan_inv pl spec pp dc sol (record_iteration it (st\<lparr>st_solves := st_solves st + 1\<rparr>)) acc"
        by (rule plan_inv_dropped [OF inv more]) (simp_all add: it_def unsolved_iteration_def changes_def)
      then have "plan_inv pl spec pp dc sol (record_iteration it st2) acc"
        using poll2 by (auto simp: plan_inv_defs record_iteration_def plan_poll_def st1_def split: if_splits)
      moreover have "st_cumulative (record_iteration it st2) = st_cumulative st" "st_budget_left (record_iteration it st2) = st_budget_left st"
        using plan_poll_simps [OF poll2] by (simp_all add: record_iteration_def cum)
      ultimately show ?thesis using Cons.IH [OF run] Cons.prems(3-5) by auto
    next
      case (Inr s)
      define v where "v = phi trial s (pp_weights pp)"
      define kept where "kept = improving pp (v - st_phi st1)"
      define it where "it = solved_iteration reported changes predicted (v - st_phi st1) kept"
      have moved: "movable spec pp gradient (changed_lines (st_cumulative st)) st slot" using 3(2) Cons.prems(3) by simp
      have run: "(if kept then Inr (True, True, accept_trial spec slot trial s v (record_iteration it st1))
          else ?go True (record_iteration it st1)) = Inr (att, ac, st')"
        using Cons.prems(1) 3 poll Inr unfolding it_def kept_def v_def trial_def predicted_def changes_def
        by (simp add: Let_def)
      show ?thesis
      proof (cases kept)
        case True
        have "plan_inv pl spec pp dc sol (accept_trial spec slot trial s v (record_iteration it (st\<lparr>st_solves := st_solves st + 1\<rparr>))) (acc @ [slot])"
          by (rule plan_inv_kept [OF inv assms(3) _ more Cons.prems(4) moved trial_def Inr v_def])
             (use Cons.prems(5) True in \<open>simp_all add: it_def kept_def solved_iteration_def changes_def cum\<close>)
        moreover have "st' = accept_trial spec slot trial s v (record_iteration it st1)" "ac" using run True by simp_all
        ultimately have "plan_inv pl spec pp dc sol st' (acc @ [slot]) \<and> ac"
          by (auto simp: plan_inv_defs accept_trial_def record_iteration_def st1_def)
        then show ?thesis by auto
      next
        case False
        have "plan_inv pl spec pp dc sol (record_iteration it (st\<lparr>st_solves := st_solves st + 1\<rparr>)) acc"
          by (rule plan_inv_dropped [OF inv more]) (use False in \<open>simp_all add: it_def solved_iteration_def changes_def\<close>)
        then have "plan_inv pl spec pp dc sol (record_iteration it st1) acc"
          by (auto simp: plan_inv_defs record_iteration_def st1_def)
        then show ?thesis using Cons.IH [of True "record_iteration it st1"] run False Cons.prems(3-5)
          by (auto simp: record_iteration_def cum)
      qed
    qed
  qed
qed auto

lemma plan_search_inv:
  assumes "plan_search pl spec pp st = Inr st'" "plan_inv pl spec pp dc sol st acc" "0 < pp_scale pp"
  shows "\<exists>acc'. plan_inv pl spec pp dc sol st' acc'"
  using assms
proof (induction pl spec pp st arbitrary: acc rule: plan_search.induct)
  case (1 pl spec pp st0)
  show ?case
  proof (cases "exact_solve_budget spec \<le> st_solves st0")
    case True
    with "1.prems" show ?thesis by (auto simp: plan_search.simps [of pl spec pp st0])
  next
    case more: False
    then obtain st1 where p1: "plan_poll pl st0 = Inr st1"
      using "1.prems"(1) by (auto simp: plan_search.simps [of pl spec pp st0] split: sum.splits)
    have inv1: "plan_inv pl spec pp dc sol st1 acc" using plan_inv_poll [OF p1] "1.prems"(2) by blast
    show ?thesis
    proof (cases "remaining_allows_step (st_budget_left st1) (increment_mw spec)")
      case False
      then have "st' = st1" using "1.prems"(1) more p1 by (simp add: plan_search.simps [of pl spec pp st0])
      with inv1 show ?thesis by blast
    next
      case left: True
      then obtain per_unit where g: "plan_adjoint pl (st_network st1) (st_solution st1) (pp_weights pp) (pp_slots pp) = Inr per_unit"
        using "1.prems"(1) more p1 by (auto simp: plan_search.simps [of pl spec pp st0] split: sum.splits)
      define gradient where "gradient = map (\<lambda>g. g * served_unit_scale (Price Active) LineLimit (base_mva (st_network st1))) per_unit"
      define reported where "reported = map (\<lambda>(key, v). \<lparr>ge_branch = key, ge_value = v\<rparr>) (zip (plan_candidates spec) gradient)"
      obtain st2 where p2: "plan_poll pl st1 = Inr st2"
        using "1.prems"(1) more p1 left g by (auto simp: plan_search.simps [of pl spec pp st0] Let_def split: sum.splits)
      have inv2: "plan_inv pl spec pp dc sol st2 acc" using plan_inv_poll [OF p2] inv1 by blast
      let ?trials = "try_slots pl spec pp gradient reported (changed_lines (st_cumulative st2)) False st2 (slot_order gradient (length (pp_slots pp)))"
      have eq: "(case ?trials of Inl e \<Rightarrow> Inl e | Inr (att, ac, st3) \<Rightarrow>
          if ac then plan_search pl spec pp st3 else Inr (if att then st3 else record_iteration (no_move reported) st3)) = Inr st'"
        using "1.prems"(1) more p1 left g p2 unfolding gradient_def reported_def
        by (simp add: plan_search.simps [of pl spec pp st0] Let_def)
      obtain att ac st3 where t: "?trials = Inr (att, ac, st3)"
        and out: "(if ac then plan_search pl spec pp st3 else Inr (if att then st3 else record_iteration (no_move reported) st3)) = Inr st'"
        using eq by (cases ?trials) auto
      have "remaining_allows_step (st_budget_left st2) (increment_mw spec)" using left plan_poll_simps [OF p2] by simp
      moreover have "set (slot_order gradient (length (pp_slots pp))) \<subseteq> {..<length (pp_slots pp)}" by (auto simp: slot_order_def)
      ultimately obtain acc3 where inv3: "plan_inv pl spec pp dc sol st3 acc3"
        using try_slots_inv [OF t inv2 "1.prems"(3) refl] by blast
      show ?thesis
      proof (cases ac)
        case True
        with out have run: "plan_search pl spec pp st3 = Inr st'" by simp
        show ?thesis
          using "1.IH" [OF more p1 _ g refl gradient_def p2 reported_def t _ _ refl] left True run inv3 "1.prems"(3)
          by auto
      next
        case False
        with out inv3 plan_inv_idle [OF inv3, of "no_move reported"] show ?thesis
          by (auto simp: no_move_def unsolved_iteration_def split: if_splits)
      qed
    qed
  qed
qed

section \<open>What a resolved plan is\<close>

lemma resolve_plan_Inr:
  assumes "resolve_plan dc spec = Inr pp"
  obtains "0 < pp_scale pp" "try_map (branch_index dc) (plan_candidates spec) = Inr (pp_slots pp)"
    "0 < max_changed_lines spec" "0 < exact_solve_budget spec" "is_finite (increment_mw spec)"
    "\<forall>(dense, identity) \<in> set (zip (pp_slots pp) (plan_candidates spec)). branch_source_rows dc ! dense \<noteq> None"
  using assms
  by (auto simp: resolve_plan_def resolve_candidates_def check_bounds_def and_then_Inr err_if_Inr try_each_Inr objective_scale_pos
      case_prod_beta split: ImplicitObjective.splits option.splits)

lemma plan_start_inv:
  assumes "resolve_plan dc spec = Inr pp"
  shows "plan_inv pl spec pp dc sol (plan_start spec pp dc sol polls) []"
proof -
  have "amounts spec (length (pp_slots pp)) [] = replicate (length (pp_slots pp)) 0"
    by (simp add: amounts_def climb_def map_replicate_const)
  moreover have "\<not> has_capacity_increase 0" by (simp add: has_capacity_increase_def f64_less_irrefl)
  ultimately show ?thesis using resolve_plan_Inr [OF assms]
    by (auto simp: plan_inv_defs plan_start_def descend_def replay_def trials_made_def changed_lines_def filter_replicate Suc_le_eq)
qed

lemma plan_capacity_impl_Inr:
  assumes "plan_capacity_impl pl dc spec initial = Inr p"
  obtains pp sol st acc where "resolve_plan dc spec = Inr pp" "(case initial of Some s \<Rightarrow> Inr s | None \<Rightarrow> plan_solve pl 0 dc) = Inr sol"
    "p = plan_finish spec (plan_start spec pp dc sol 2) st" "plan_inv pl spec pp dc sol st acc"
proof -
  from assms obtain pp sol st where r: "resolve_plan dc spec = Inr pp" "(case initial of Some s \<Rightarrow> Inr s | None \<Rightarrow> plan_solve pl 0 dc) = Inr sol"
    "plan_search pl spec pp (plan_start spec pp dc sol 2) = Inr st" "p = plan_finish spec (plan_start spec pp dc sol 2) st"
    by (auto simp: plan_capacity_impl_def Let_def and_then_Inr)
  have "0 < pp_scale pp" using resolve_plan_Inr [OF r(1)] by blast
  from plan_search_inv [OF r(3) plan_start_inv [OF r(1)] this] obtain acc where "plan_inv pl spec pp dc sol st acc" by blast
  with r that show thesis by blast
qed

lemma replay_frame: "replay spec slots acc dc = dc\<lparr>fmax := fmax (replay spec slots acc dc)\<rparr>"
proof -
  have "\<exists>f. replay spec slots acc dc = dc\<lparr>fmax := f\<rparr>"
  proof (induction acc rule: rev_induct)
    case (snoc slot acc)
    then obtain f where "replay spec slots acc dc = dc\<lparr>fmax := f\<rparr>" by blast
    then show ?case by (intro exI) (simp add: replay_def trial_network_def)
  qed (auto simp: replay_def intro: exI [of _ "fmax dc"])
  then show ?thesis by auto
qed

lemma proposal_length:
  assumes "length cs \<le> length keys"
  shows "length (filter (\<lambda>(_, d). has_capacity_increase d) (zip keys cs)) = changed_lines cs"
  using assms by (induction keys cs rule: list_induct2') (auto simp: changed_lines_def)


text \<open>C9: What a plan reports was solved exactly. The reported objective is that of the returned solution on the returned
  model, and the declared objective is the solution's own. With no trial accepted the model and the solution are those the search started
  from and nothing is proposed; otherwise the solve reported as \<open>exact_solve\<close> returned this solution for this model, and the
  objective is strictly below the baseline's. Only ratings differ from the model given.\<close>

theorem plan_result_verified:
  assumes "plan_capacity_impl pl dc spec initial = Inr p"
  shows "\<exists>pp sol. (let out = planned_outcome p; res = exact_verified_result out in
     resolve_plan dc spec = Inr pp \<and> (case initial of Some s \<Rightarrow> Inr s | None \<Rightarrow> plan_solve pl 0 dc) = Inr sol \<and>
     baseline_phi out = phi dc sol (pp_weights pp) \<and> final_phi out = phi (planned_network p) (planned_solution p) (pp_weights pp) \<and>
     sum_phi res = final_phi out \<and> sum_declared_objective res = sol_objective (planned_solution p) \<and>
     (if filter it_accepted (plan_iterations out) = []
      then planned_network p = dc \<and> planned_solution p = sol \<and> proposal out = []
      else 1 < sum_exact_solve res \<and> sum_exact_solve res \<le> exact_solves out \<and>
        plan_solve pl (sum_exact_solve res - 1) (planned_network p) = Inr (planned_solution p) \<and> final_phi out < baseline_phi out) \<and>
     planned_network p = dc\<lparr>fmax := fmax (planned_network p)\<rparr>)"
proof -
  from assms obtain pp sol st acc where r: "resolve_plan dc spec = Inr pp"
    and s: "(case initial of Some s \<Rightarrow> Inr s | None \<Rightarrow> plan_solve pl 0 dc) = Inr sol"
    and p: "p = plan_finish spec (plan_start spec pp dc sol 2) st" and inv: "plan_inv pl spec pp dc sol st acc"
    by (rule plan_capacity_impl_Inr)
  have acc: "filter it_accepted (st_iterations st) = [] \<longleftrightarrow> acc = []"
    using inv unfolding plan_inv_def kept_trials_def by (metis (no_types) Nil_is_map_conv)
  have none: "filter (\<lambda>(_, d). has_capacity_increase d) (zip (plan_candidates spec) (st_cumulative st)) = []" if "acc = []"
    using inv that by (auto simp: plan_inv_defs amounts_def climb_def has_capacity_increase_def f64_less_irrefl filter_empty_conv
        dest!: set_zip_rightD)
  have v: "verified_state pl spec pp dc sol st acc" using inv by (simp add: plan_inv_def)
  have net: "st_network st = dc\<lparr>fmax := fmax (st_network st)\<rparr>"
    using v replay_frame [of spec "pp_slots pp" acc dc] by (simp add: verified_state_def)
  have "if acc = [] then st_network st = dc \<and> st_solution st = sol \<and> proposal (planned_outcome p) = []
      else 1 < st_verified_at st \<and> st_verified_at st \<le> st_solves st \<and>
        plan_solve pl (st_verified_at st - 1) (st_network st) = Inr (st_solution st) \<and> st_phi st < phi dc sol (pp_weights pp)"
  proof (cases "acc = []")
    case True
    with v none show ?thesis by (simp add: verified_state_def replay_def p plan_finish_def)
  next
    case False
    with v show ?thesis unfolding verified_state_def by auto
  qed
  moreover have "st_phi st = phi (st_network st) (st_solution st) (pp_weights pp)" using v by (simp add: verified_state_def)
  ultimately show ?thesis
    using r s net
    by (intro exI [of _ pp] exI [of _ sol]) (simp add: Let_def p plan_finish_def plan_start_def acc split del: if_split cong: if_cong)
qed

section \<open>The amended instance\<close>

definition amended_rows :: "planned_model \<Rightarrow> rating_change \<Rightarrow> (nat \<times> f64) option" where
  "amended_rows p change =
     (case branch_index (planned_network p) (rc_branch change) of Inl _ \<Rightarrow> None
      | Inr dense \<Rightarrow> map_option (\<lambda>row. (row, fmax (planned_network p) ! dense * base_mva (planned_network p)))
          (branch_source_rows (planned_network p) ! dense))"

definition rerated :: "planned_model \<Rightarrow> rating_change list \<Rightarrow> branch list \<Rightarrow> branch list \<Rightarrow> bool" where
  "rerated p changes old new \<longleftrightarrow> length new = length old \<and> (\<forall>i < length old.
     if i \<in> fst ` (\<Union>c \<in> set changes. set_option (amended_rows p c))
     then \<exists>c \<in> set changes. \<exists>rate. amended_rows p c = Some (i, rate) \<and> new ! i = (old ! i)\<lparr>rate_a := rate\<rparr>
     else new ! i = old ! i)"

lemma amend_rating_Inr:
  "amended_rows p c = Some (row, rate) \<Longrightarrow>
     amend_rating p net c = Inr (net\<lparr>branches := (branches net)[row := (branches net ! row)\<lparr>rate_a := rate\<rparr>]\<rparr>)"
  by (auto simp: amended_rows_def amend_rating_def and_then_def ok_or_def split: sum.splits option.splits)

lemma rerated_snoc:
  assumes "rerated p changes old new" "amended_rows p c = Some (row, rate)"
  shows "rerated p (changes @ [c]) old (new[row := (new ! row)\<lparr>rate_a := rate\<rparr>])"
proof -
  let ?touched = "\<lambda>cs i. i \<in> fst ` (\<Union>c \<in> set cs. set_option (amended_rows p c))"
  have len: "length new = length old" using assms(1) by (simp add: rerated_def)
  have "if ?touched (changes @ [c]) i
      then \<exists>c' \<in> set (changes @ [c]). \<exists>r. amended_rows p c' = Some (i, r) \<and> new[row := (new ! row)\<lparr>rate_a := rate\<rparr>] ! i = (old ! i)\<lparr>rate_a := r\<rparr>
      else new[row := (new ! row)\<lparr>rate_a := rate\<rparr>] ! i = old ! i" if i: "i < length old" for i
  proof (cases "i = row")
    case True
    have "\<exists>r. new ! i = (old ! i)\<lparr>rate_a := r\<rparr> \<or> new ! i = old ! i"
      using assms(1) i by (auto simp: rerated_def split: if_splits)
    then have "(new ! i)\<lparr>rate_a := rate\<rparr> = (old ! i)\<lparr>rate_a := rate\<rparr>" by auto
    then show ?thesis using True i len assms(2) by force
  next
    case False
    then have "?touched (changes @ [c]) i \<longleftrightarrow> ?touched changes i" using assms(2) by auto
    moreover have "if ?touched changes i then \<exists>c' \<in> set changes. \<exists>r. amended_rows p c' = Some (i, r) \<and> new ! i = (old ! i)\<lparr>rate_a := r\<rparr>
        else new ! i = old ! i" using assms(1) i by (simp add: rerated_def)
    ultimately show ?thesis using False by (auto split: if_splits)
  qed
  then show ?thesis unfolding rerated_def using len by (simp only: length_list_update) blast
qed

lemma amend_ratings:
  assumes "\<forall>c \<in> set changes. amended_rows p c \<noteq> None"
  shows "\<exists>bs. try_fold (amend_rating p) net changes = Inr (net\<lparr>branches := bs\<rparr>) \<and> rerated p changes (branches net) bs"
  using assms
proof (induction changes rule: rev_induct)
  case Nil
  have "rerated p [] (branches net) (branches net)" by (simp add: rerated_def)
  then show ?case by (intro exI [of _ "branches net"]) simp
next
  case (snoc c changes)
  then obtain bs where bs: "try_fold (amend_rating p) net changes = Inr (net\<lparr>branches := bs\<rparr>)" "rerated p changes (branches net) bs" by auto
  obtain row rate where c: "amended_rows p c = Some (row, rate)" using snoc.prems by auto
  have "try_fold (amend_rating p) net (changes @ [c]) = Inr (net\<lparr>branches := bs[row := (bs ! row)\<lparr>rate_a := rate\<rparr>]\<rparr>)"
    by (simp add: try_fold_append bs(1) and_then_def amend_rating_Inr [OF c])
  with rerated_snoc [OF bs(2) c] show ?case by blast
qed

lemma try_map_at: "try_map f xs = Inr ys \<Longrightarrow> i < length xs \<Longrightarrow> f (xs ! i) = Inr (ys ! i)"
  by (induction xs arbitrary: ys i) (auto simp: and_then_Inr nth_Cons split: nat.splits)

text \<open>The amended instance carries the proposal. Every proposed branch resolves to a row of the source network, so a finished search is
  never lost to a refusal while its proposal is written back; in the network handed to PowerIO the ratings of the proposed rows are those of the
  exactly solved model, in MW, and everything else is as in the instance.\<close>

theorem amended_instance_carries_proposal:
  assumes "dc_prepare eng inst = Inr dc" "plan_capacity_impl pl dc spec None = Inr p"
  shows "\<exists>bs. plan_capacity_cancellable eng pl inst spec =
       and_then (dc_with_network eng inst ((dci_network inst)\<lparr>branches := bs\<rparr>)) (\<lambda>amended.
         Inr \<lparr>ex_outcome = planned_outcome p, amended_instance = amended, ex_network = planned_network p, ex_solution = planned_solution p\<rparr>) \<and>
     rerated p (proposal (planned_outcome p)) (branches (dci_network inst)) bs"
proof -
  from assms(2) obtain pp sol st acc where r: "resolve_plan dc spec = Inr pp"
    and p: "p = plan_finish spec (plan_start spec pp dc sol 2) st" and inv: "plan_inv pl spec pp dc sol st acc"
    by (rule plan_capacity_impl_Inr)
  have net: "planned_network p = dc\<lparr>fmax := fmax (planned_network p)\<rparr>"
    using inv replay_frame [of spec "pp_slots pp" acc dc] by (simp add: plan_inv_def verified_state_def p plan_finish_def)
  have map: "try_map (branch_index dc) (plan_candidates spec) = Inr (pp_slots pp)" by (rule resolve_plan_Inr [OF r])
  have src: "\<forall>(dense, identity) \<in> set (zip (pp_slots pp) (plan_candidates spec)). branch_source_rows dc ! dense \<noteq> None"
    by (rule resolve_plan_Inr [OF r])
  have same: "branch_index (planned_network p) key = branch_index dc key" "branch_source_rows (planned_network p) = branch_source_rows dc" for key
    by (subst net, simp add: branch_index_def)+
  have "amended_rows p c \<noteq> None" if "c \<in> set (proposal (planned_outcome p))" for c
  proof -
    from that have "rc_branch c \<in> set (plan_candidates spec)" by (auto simp: p plan_finish_def dest: set_zip_leftD)
    then obtain i where i: "i < length (plan_candidates spec)" "rc_branch c = plan_candidates spec ! i" by (auto simp: in_set_conv_nth)
    then have "branch_index dc (rc_branch c) = Inr (pp_slots pp ! i)" using try_map_at [OF map] by simp
    moreover have "(pp_slots pp ! i, plan_candidates spec ! i) \<in> set (zip (pp_slots pp) (plan_candidates spec))"
      using i try_map_length [OF map] by (auto simp: set_zip)
    with src have "branch_source_rows dc ! (pp_slots pp ! i) \<noteq> None" by blast
    ultimately show ?thesis by (auto simp: amended_rows_def same)
  qed
  then obtain bs where "try_fold (amend_rating p) (dci_network inst) (proposal (planned_outcome p)) = Inr ((dci_network inst)\<lparr>branches := bs\<rparr>)"
    "rerated p (proposal (planned_outcome p)) (branches (dci_network inst)) bs" using amend_ratings by blast
  then show ?thesis using assms by (intro exI [of _ bs]) (simp add: plan_capacity_cancellable_def and_then_def)
qed

section \<open>A plan returns\<close>

lemma try_slots_ok:
  assumes "\<forall>k. \<not> plan_cancelled pl k"
  shows "try_slots pl spec pp gradient reported changed attempted st order \<noteq> Inl e"
proof (induction order arbitrary: attempted st)
  case (Cons slot order)
  then show ?case using assms by (auto simp: Let_def plan_poll_def and_then_def split: sum.splits)
qed simp

lemma plan_search_ok:
  assumes "\<forall>k. \<not> plan_cancelled pl k" "\<And>dc sol. is_ok (plan_adjoint pl dc sol (pp_weights pp) (pp_slots pp))"
  shows "\<exists>st'. plan_search pl spec pp st = Inr st'"
  using assms
proof (induction pl spec pp st rule: plan_search.induct)
  case (1 pl spec pp st0)
  have polls: "\<exists>st'. plan_poll pl st = Inr st'" for st using "1.prems"(1) by (simp add: plan_poll_def)
  obtain st1 where p1: "plan_poll pl st0 = Inr st1" using polls by blast
  obtain st2 where p2: "plan_poll pl st1 = Inr st2" using polls by blast
  obtain per_unit where g: "plan_adjoint pl (st_network st1) (st_solution st1) (pp_weights pp) (pp_slots pp) = Inr per_unit"
    using is_ok_obtain [OF "1.prems"(2)] by blast
  define gradient where "gradient = map (\<lambda>g. g * served_unit_scale (Price Active) LineLimit (base_mva (st_network st1))) per_unit"
  define reported where "reported = map (\<lambda>(key, v). \<lparr>ge_branch = key, ge_value = v\<rparr>) (zip (plan_candidates spec) gradient)"
  let ?trials = "try_slots pl spec pp gradient reported (changed_lines (st_cumulative st2)) False st2 (slot_order gradient (length (pp_slots pp)))"
  obtain att ac st3 where t: "?trials = Inr (att, ac, st3)" using try_slots_ok [OF "1.prems"(1)] by (cases ?trials) auto
  show ?case
  proof (cases "exact_solve_budget spec \<le> st_solves st0 \<or> \<not> remaining_allows_step (st_budget_left st1) (increment_mw spec)")
    case True
    then show ?thesis using p1 by (auto simp: plan_search.simps [of pl spec pp st0])
  next
    case False
    then have more: "\<not> exact_solve_budget spec \<le> st_solves st0" and left: "\<not> \<not> remaining_allows_step (st_budget_left st1) (increment_mw spec)" by auto
    have eq: "plan_search pl spec pp st0 = (case ?trials of Inl e \<Rightarrow> Inl e | Inr (att, ac, st3) \<Rightarrow>
        if ac then plan_search pl spec pp st3 else Inr (if att then st3 else record_iteration (no_move reported) st3))"
      using more p1 p2 left g unfolding gradient_def reported_def by (simp add: plan_search.simps [of pl spec pp st0] Let_def)
    show ?thesis
    proof (cases ac)
      case True
      have "\<exists>st'. plan_search pl spec pp st3 = Inr st'"
        by (rule "1.IH" [OF more p1 left g refl gradient_def p2 reported_def t refl refl True "1.prems"])
      with True show ?thesis by (simp only: eq t) simp
    qed (simp only: eq t, simp)
  qed
qed


section \<open>A concrete plan\<close>

text \<open>The first trial lowers the price of the second bus by one, which spends the budget.\<close>

definition witness_planner :: planner where
  "witness_planner = \<lparr>plan_solve = (\<lambda>k dc. Inr (witness_solution\<lparr>nu_bal := [0, if k = 0 then 1 else 0]\<rparr>)),
     plan_adjoint = (\<lambda>_ _ _ slots. Inr (map (\<lambda>_. - 1) slots)), plan_cancelled = (\<lambda>_. False)\<rparr>"

definition witness_spec :: capacity_plan_spec where
  "witness_spec = \<lparr>plan_objective = WeightedLmp [\<lparr>bw_bus = 2, bw_weight = 1\<rparr>], plan_candidates = [''branches:0''],
     max_increase_per_branch_mw = 1, budget_mw = 1, increment_mw = 1,
     max_changed_lines = 1, exact_solve_budget = 3\<rparr>"

definition witness_plan_dc :: dc_network where
  "witness_plan_dc = witness_dc\<lparr>allow_shed := False\<rparr>"

definition witness_problem :: plan_problem where
  "witness_problem = \<lparr>pp_weights = [(1, 1)], pp_scale = 1, pp_slots = [0]\<rparr>"

definition witness_begin :: plan_state where
  "witness_begin = plan_start witness_spec witness_problem witness_plan_dc (witness_solution\<lparr>nu_bal := [0, 1]\<rparr>) 2"

lemma witness_bounds: "check_bounds witness_plan_dc witness_spec [\<lparr>bw_bus = 2, bw_weight = 1\<rparr>] = Inr ()"
  by code_simp

lemma witness_weights: "resolve_weights witness_plan_dc [\<lparr>bw_bus = 2, bw_weight = 1\<rparr>] = Inr [(1, 1)]" "objective_scale [(1, 1)] = 1"
  by (code_simp, code_simp)

lemma witness_candidates: "resolve_candidates witness_plan_dc witness_spec = Inr [0]"
  by code_simp

lemma witness_resolves: "resolve_plan witness_plan_dc witness_spec = Inr witness_problem"
proof -
  have "plan_objective witness_spec = WeightedLmp [\<lparr>bw_bus = 2, bw_weight = 1\<rparr>]" by (simp add: witness_spec_def)
  then show ?thesis
    by (simp add: resolve_plan_def witness_bounds witness_weights witness_candidates witness_problem_def and_then_def del: One_nat_def)
qed

definition plan_view :: "plan_state \<Rightarrow> f64 list \<times> nat \<times> bool list \<times> f64 list" where
  "plan_view st = (st_cumulative st, st_solves st, map it_accepted (st_iterations st), fmax (st_network st))"

lemma witness_search: "map_sum id plan_view (plan_search witness_planner witness_spec witness_problem witness_begin) =
    Inr ([1], 2, [True], [f64_two])"
  by code_simp

lemma witness_plan:
  obtains st where "plan_capacity_impl witness_planner witness_plan_dc witness_spec None = Inr (plan_finish witness_spec witness_begin st)"
    "plan_view st = ([1], 2, [True], [f64_two])"
proof -
  obtain st where st: "plan_search witness_planner witness_spec witness_problem witness_begin = Inr st" "plan_view st = ([1], 2, [True], [f64_two])"
    using witness_search by (cases "plan_search witness_planner witness_spec witness_problem witness_begin") auto
  have "plan_capacity_impl witness_planner witness_plan_dc witness_spec None = Inr (plan_finish witness_spec witness_begin st)"
    using st(1) by (simp add: plan_capacity_impl_def witness_resolves and_then_def err_if_def witness_begin_def witness_planner_def)
  with st(2) that show thesis by blast
qed


theorem plan_result_verified_witness:
  "\<exists>p. plan_capacity_impl witness_planner witness_plan_dc witness_spec None = Inr p \<and>
     plan_solve witness_planner (sum_exact_solve (exact_verified_result (planned_outcome p)) - 1) (planned_network p) = Inr (planned_solution p) \<and>
     final_phi (planned_outcome p) < baseline_phi (planned_outcome p)"
proof -
  obtain st where st: "plan_capacity_impl witness_planner witness_plan_dc witness_spec None = Inr (plan_finish witness_spec witness_begin st)"
    "plan_view st = ([1], 2, [True], [f64_two])" by (rule witness_plan)
  let ?out = "planned_outcome (plan_finish witness_spec witness_begin st)"
  have "filter it_accepted (plan_iterations ?out) \<noteq> []"
    using st(2) by (auto simp: plan_finish_def plan_view_def)
  with plan_result_verified [OF st(1)] st(1) show ?thesis by (fastforce simp: Let_def)
qed

theorem amended_instance_carries_proposal_witness:
  "is_ok (plan_capacity_cancellable (witness_engine\<lparr>dc_prepare := \<lambda>_. Inr witness_plan_dc\<rparr>) witness_planner
     \<lparr>dci_network = witness_net, dci_rest = []\<rparr> witness_spec)"
proof -
  obtain st where st: "plan_capacity_impl witness_planner witness_plan_dc witness_spec None = Inr (plan_finish witness_spec witness_begin st)"
    by (rule witness_plan)
  have "dc_prepare (witness_engine\<lparr>dc_prepare := \<lambda>_. Inr witness_plan_dc\<rparr>) \<lparr>dci_network = witness_net, dci_rest = []\<rparr> = Inr witness_plan_dc"
    by simp
  from amended_instance_carries_proposal [OF this st] show ?thesis by (auto simp: and_then_def is_ok_def witness_engine_def)
qed


text \<open>The tolerance of \<open>remaining_allows_step\<close> admits a step of one when the largest number below one is left.\<close>

lemma step_past_the_budget: "remaining_allows_step (F64 4607182418800017407) 1" "F64 4607182418800017407 < 1"
  by (code_simp, code_simp)

end
