(* ===== verification/Document.thy ===== *)
theory Document
  imports Exploration
begin

text \<open>
  The saved Study (\<open>src/crates/tellegen/src/document.rs\<close>, \<open>content_id.rs\<close>): a document of
  goals, states, experiments and decisions, each stored under the SHA-256 of its JSON, and the
  artifacts they refer to. The theory models the identities, every operation of \<open>StudyBundle\<close>,
  its validation and the revision-checked transaction. A \<open>&mut self\<close> operation returns its outcome
  and the bundle after it, so that what an early return leaves behind is visible. JSON, SHA-256,
  PowerIO's GeoLayer reader and the network reader of \<open>study_ops.rs\<close> are fields of a \<open>codec\<close>.
  Text is the list of its UTF-8 bytes.
\<close>

section \<open>Records of a Study\<close>

datatype ArtifactKind = PowerioIr | GeoLayer | Evidence

record study_artifact =
  art_kind :: ArtifactKind
  art_text :: string

record state_node =
  sn_parent :: "string option"
  sn_formulation :: Problem
  sn_input :: string
  sn_solution :: "string option"
  sn_view :: "string option"
  sn_label :: string

record goal_revision =
  gr_parent :: "string option"
  anchor_state :: string
  gr_request :: string
  gr_interpretation :: string
  gr_objective :: StudyObjective
  gr_decisions :: decision_space
  success_value :: "f64 option"

datatype ExperimentKind = Inspection | Sensitivity | Planning | Counterfactual | Challenge | HistoricalImport

record trial_record =
  trc_changes :: "f64 list"
  predicted_value :: "f64 option"
  exact_value :: "f64 option"
  trc_state :: "string option"
  accepted :: bool
  failure :: "string option"
  trc_evidence :: "string list"

record experiment_record =
  start_state :: "string option"
  ex_goal :: "string option"
  ex_kind :: ExperimentKind
  ex_rationale :: string
  ex_evidence :: "string list"
  trials :: "trial_record list"
  result_states :: "string list"
  assessed_recommendation :: "string option"
  solve_count :: nat
  termination_note :: string

datatype DecisionKind = Retain | Reject | Recommend | Apply

record decision_record =
  dr_experiment :: string
  dr_state :: "string option"
  choice :: DecisionKind
  dr_rationale :: string
  dr_evidence :: "string list"

record camera =
  center :: "f64 \<times> f64"
  zoom :: f64
  bearing :: f64
  pitch :: f64

record diagram_camera =
  dc_center :: "f64 \<times> f64"
  dc_scale :: f64

record display_context =
  case_id :: string
  geography :: string
  layers :: "string list"
  dsp_camera :: "camera option"
  dsp_diagram :: "diagram_camera option"

text \<open>\<open>revision\<close> is a \<open>u64\<close>. Model details are stored and never read here.\<close>

record study_document =
  schema :: string
  version :: nat
  doc_id :: string
  title :: string
  revision :: "64 word"
  goals :: "(string, goal_revision) btree"
  states :: "(string, state_node) btree"
  experiments :: "(string, experiment_record) btree"
  experiment_order :: "string list"
  decisions_made :: "(string, decision_record) btree"
  active_goal :: "string option"
  inspected_state :: "string option"
  recommended_state :: "string option"
  applied_state :: "string option"
  base_input :: "string option"
  display :: "display_context option"
  model_details :: "string option"

record study_bundle =
  document :: study_document
  artifacts :: "(string, study_artifact) btree"

record experiment_summary =
  es_id :: string
  es_kind :: ExperimentKind
  es_start :: "string option"
  es_goal :: "string option"
  es_rationale :: string
  es_solve_count :: nat
  es_trial_count :: nat
  es_results :: "string list"
  es_termination :: string

record study_summary =
  sum_id :: string
  sum_title :: string
  sum_revision :: "64 word"
  sum_goal :: "(string \<times> goal_revision) option"
  sum_inspected :: "string option"
  sum_recommended :: "string option"
  sum_applied :: "string option"
  state_count :: nat
  experiment_count :: nat
  recent_experiments :: "experiment_summary list"
  unavailable_states :: nat

section \<open>Text\<close>

definition STUDY_VERSION :: nat where "STUDY_VERSION = 2"
definition MAX_RECORDS :: int where "MAX_RECORDS = 100000"
definition MAX_BUNDLE_BYTES :: int where "MAX_BUNDLE_BYTES = 512 * 1024 * 1024"

abbreviation byte_len :: "string \<Rightarrow> int" where
  "byte_len t \<equiv> int (length t)"

text \<open>\<open>trim().is_empty()\<close>: only characters of Unicode's White_Space, in UTF-8.\<close>

definition byte :: "char \<Rightarrow> int" where
  "byte c = of_char c"

fun blank :: "string \<Rightarrow> bool" where
  "blank [] = True"
| "blank (a # cs) =
     (if 9 \<le> byte a \<and> byte a \<le> 13 \<or> byte a = 32 then blank cs
      else case cs of
        [] \<Rightarrow> False
      | b # ds \<Rightarrow>
          if byte a = 0xC2 \<and> (byte b = 0x85 \<or> byte b = 0xA0) then blank ds
          else case ds of
            [] \<Rightarrow> False
          | c # es \<Rightarrow>
              (byte a = 0xE1 \<and> byte b = 0x9A \<and> byte c = 0x80 \<or>
               byte a = 0xE2 \<and> byte b = 0x80 \<and> (0x80 \<le> byte c \<and> byte c \<le> 0x8A \<or> byte c \<in> {0xA8, 0xA9, 0xAF}) \<or>
               byte a = 0xE2 \<and> byte b = 0x81 \<and> byte c = 0x9F \<or>
               byte a = 0xE3 \<and> byte b = 0x80 \<and> byte c = 0x80) \<and> blank es)"

text \<open>\<open>chars().take(n)\<close>: a byte with the bits 10 in front continues the character before it.\<close>

fun take_chars :: "nat \<Rightarrow> string \<Rightarrow> string" where
  "take_chars n [] = []"
| "take_chars n (c # cs) =
     (if 0x80 \<le> byte c \<and> byte c < 0xC0 then c # take_chars n cs
      else case n of 0 \<Rightarrow> [] | Suc m \<Rightarrow> c # take_chars m cs)"

text \<open>\<open>content_id\<close> prints each byte of the digest as two lowercase hexadecimal digits.\<close>

definition HEX :: string where "HEX = ''0123456789abcdef''"

definition hex_byte :: "8 word \<Rightarrow> string" where
  "hex_byte b = [HEX ! unat (drop_bit 4 b), HEX ! unat (take_bit 4 b)]"

definition content_id :: "(string \<Rightarrow> 8 word list) \<Rightarrow> string \<Rightarrow> string" where
  "content_id sha bytes = ''sha256:'' @ concat (map hex_byte (sha bytes))"

section \<open>The codec\<close>

text \<open>The values \<open>record_id\<close> is applied to; an experiment is hashed with its position.\<close>

datatype record_value = ArtifactValue study_artifact | StateValue state_node | GoalValue goal_revision
  | ExperimentValue nat experiment_record | DecisionValue decision_record

record journal_probe =
  jp_schema :: "string option"
  jp_version :: "int option"
  jp_records_array :: bool

record ('a, 'c) codec =
  cd_engine :: "('a, 'c) engine"
  sha256 :: "string \<Rightarrow> 8 word list"
  record_json :: "record_value \<Rightarrow> (string, string) result"
  parse_view :: "string \<Rightarrow> (string, solve_response) result"
  view_json :: "solve_response \<Rightarrow> (string, string) result"
  parse_json :: "string \<Rightarrow> (string, unit) result"
  parse_ir_header :: "string \<Rightarrow> (string, string \<times> int) result"
  parse_bundle_schema :: "string \<Rightarrow> (string, string option) result"
  parse_bundle :: "string \<Rightarrow> (string, study_bundle) result"
  bundle_json :: "study_bundle \<Rightarrow> (string, string) result"
  parse_journal :: "string \<Rightarrow> (string, journal_probe) result"
  parse_geo :: "string \<Rightarrow> (string, nat \<times> nat) result"
  module_new :: "pio_value \<Rightarrow> pio_module"
  dc_solution_instance :: "string \<Rightarrow> dc_instance"
  ac_pf_solution_instance :: "string \<Rightarrow> ac_pf_instance"
  socwr_solution_instance :: "string \<Rightarrow> ac_opf_instance"

definition record_id :: "('a, 'c) codec \<Rightarrow> record_value \<Rightarrow> (string, string) result" where
  "record_id cd v = and_then (record_json cd v) (\<lambda>json. Inr (content_id (sha256 cd) json))"

definition input_network :: "('a, 'c) codec \<Rightarrow> string \<Rightarrow> (string, network) result" where
  "input_network cd t =
     and_then (deserialize_module (cd_engine cd) t) (\<lambda>m.
     case pm_value m of
       BalancedNetworkValue n \<Rightarrow> Inr n
     | DcOpfInstanceValue i \<Rightarrow> Inr (dci_network i)
     | AcPfInstanceValue i \<Rightarrow> Inr (pfi_network i)
     | AcOpfInstanceValue i \<Rightarrow> Inr (opi_network i)
     | _ \<Rightarrow> Inl ''input must contain a balanced network or supported problem instance'')"

definition state_network :: "('a, 'c) codec \<Rightarrow> study_bundle \<Rightarrow> string \<Rightarrow> (string, network) result" where
  "state_network cd b key =
     and_then (ok_or ''state is unavailable'' (map_of (states (document b)) key)) (\<lambda>s.
     and_then (ok_or ''state input is unavailable'' (map_of (artifacts b) (sn_input s))) (\<lambda>a.
     input_network cd (art_text a)))"

definition state_view :: "('a, 'c) codec \<Rightarrow> study_bundle \<Rightarrow> string \<Rightarrow> (string, solve_response) result" where
  "state_view cd b key =
     and_then (ok_or ''state is unavailable'' (map_of (states (document b)) key)) (\<lambda>s.
     and_then (ok_or ''This state has no solve result'' (sn_view s)) (\<lambda>view.
     and_then (ok_or ''state evidence is unavailable'' (map_of (artifacts b) view)) (\<lambda>a.
     parse_view cd (art_text a))))"

section \<open>Validation\<close>

text \<open>
  One artifact: an electrical one is identified by the instance it holds, a solution by the
  instance inside it.
\<close>

definition electrical_identity :: "('a, 'c) codec \<Rightarrow> pio_value \<Rightarrow> (Problem \<times> bool \<times> pio_value) option" where
  "electrical_identity cd v =
     (case v of
        DcOpfInstanceValue i \<Rightarrow> Some (DcOpf, False, DcOpfInstanceValue i)
      | AcPfInstanceValue i \<Rightarrow> Some (AcPf, False, AcPfInstanceValue i)
      | AcOpfInstanceValue i \<Rightarrow> Some (Socwr, False, AcOpfInstanceValue i)
      | DcOpfSolutionValue s \<Rightarrow> Some (DcOpf, True, DcOpfInstanceValue (dc_solution_instance cd s))
      | AcPfSolutionValue s \<Rightarrow> Some (AcPf, True, AcPfInstanceValue (ac_pf_solution_instance cd s))
      | SocwrOpfSolutionValue s \<Rightarrow> Some (Socwr, True, AcOpfInstanceValue (socwr_solution_instance cd s))
      | _ \<Rightarrow> None)"

definition validate_artifact ::
  "('a, 'c) codec \<Rightarrow> study_artifact \<Rightarrow> (string, (Problem \<times> bool \<times> string) option) result" where
  "validate_artifact cd a =
     and_then (err_if (MAX_BUNDLE_BYTES < byte_len (art_text a)) ''Study artifact exceeds 512 MiB'') (\<lambda>_.
     case art_kind a of
       GeoLayer \<Rightarrow>
         and_then (parse_geo cd (art_text a)) (\<lambda>(features, diagnostics).
         and_then (err_if (features = 0 \<or> diagnostics \<noteq> 0) ''invalid or empty Study geography'') (\<lambda>_. Inr None))
     | Evidence \<Rightarrow>
         (case parse_json cd (art_text a) of
            Inl e \<Rightarrow> Inl (''invalid Study artifact: '' @ e)
          | Inr _ \<Rightarrow> Inr None)
     | PowerioIr \<Rightarrow>
         (case parse_ir_header cd (art_text a) of
            Inl e \<Rightarrow> Inl (''invalid Study artifact: '' @ e)
          | Inr (sch, ver) \<Rightarrow>
              and_then (err_if (sch \<noteq> ''pio-ir'' \<or> ver \<noteq> 2) ''electrical Study artifacts require PowerIO IR generation 2'') (\<lambda>_.
              and_then (deserialize_module (cd_engine cd) (art_text a)) (\<lambda>m.
              case electrical_identity cd (pm_value m) of
                None \<Rightarrow> Inr None
              | Some (problem, solution, inst) \<Rightarrow>
                  and_then (serialize_module (cd_engine cd) (module_new cd inst)) (\<lambda>canonical.
                  Inr (Some (problem, solution, content_id (sha256 cd) canonical)))))))"

definition verify_record :: "('a, 'c) codec \<Rightarrow> string \<Rightarrow> record_value \<Rightarrow> (string, unit) result" where
  "verify_record cd key v =
     and_then (record_id cd v) (\<lambda>actual. err_if (key \<noteq> actual) (''Study hash mismatch for '' @ key))"

definition require :: "(string, 'v) btree \<Rightarrow> string \<Rightarrow> string \<Rightarrow> (string, unit) result" where
  "require m key what = err_if (\<not> bt_contains m key) (''missing '' @ what @ '' '' @ key)"

definition require_artifact :: "study_bundle \<Rightarrow> string \<Rightarrow> bool \<Rightarrow> (string, unit) result" where
  "require_artifact b key electrical =
     and_then (ok_or (''missing Study artifact '' @ key) (map_of (artifacts b) key)) (\<lambda>a.
     err_if ((art_kind a = PowerioIr) \<noteq> electrical) ''Study artifact has an unexpected kind'')"

text \<open>\<open>map[key]\<close> panics where the key is missing; validation reads only keys it has checked.\<close>

definition index :: "('k, 'v) btree \<Rightarrow> 'k \<Rightarrow> (string, 'v) result" where
  "index m key = ok_or ''no entry found for key'' (map_of m key)"

definition check_artifacts ::
  "('a, 'c) codec \<Rightarrow> (string, study_artifact) btree \<Rightarrow> (string, (string, Problem \<times> bool \<times> string) btree) result" where
  "check_artifacts cd arts =
     try_fold (\<lambda>electrical (key, a).
       and_then (verify_record cd key (ArtifactValue a)) (\<lambda>_.
       and_then (validate_artifact cd a) (\<lambda>identity.
       Inr (case identity of None \<Rightarrow> electrical | Some v \<Rightarrow> bt_insert key v electrical)))) [] arts"

definition validate_document :: "study_document \<Rightarrow> nat \<Rightarrow> (string, unit) result" where
  "validate_document d artifact_count =
     and_then (err_if (schema d \<noteq> ''tellegen-study'' \<or> \<not> (1 \<le> version d \<and> version d \<le> STUDY_VERSION)) ''unsupported Study document version'') (\<lambda>_.
     and_then (err_if (blank (doc_id d) \<or> 256 < byte_len (doc_id d) \<or> 4096 < byte_len (title d)) ''invalid Study identity or title'') (\<lambda>_.
     err_if (MAX_RECORDS < int (length (states d) + length (goals d) + length (experiments d) + length (decisions_made d) + artifact_count))
       ''Study contains more than 100000 records''))"

definition require_layer :: "study_bundle \<Rightarrow> string \<Rightarrow> string \<Rightarrow> string \<Rightarrow> (string, unit) result" where
  "require_layer b key missing wrong =
     and_then (ok_or missing (map_of (artifacts b) key)) (\<lambda>a. err_if (art_kind a \<noteq> GeoLayer) wrong)"

definition diagram_ok :: "diagram_camera \<Rightarrow> bool" where
  "diagram_ok c \<longleftrightarrow> is_finite (fst (dc_center c)) \<and> is_finite (snd (dc_center c)) \<and> is_finite (dc_scale c) \<and> \<not> dc_scale c \<le> 0"

definition camera_ok :: "camera \<Rightarrow> bool" where
  "camera_ok c \<longleftrightarrow>
     (\<forall>x \<in> {fst (center c), snd (center c), zoom c, bearing c, pitch c}. is_finite x) \<and>
     - f64_of_int 90 \<le> snd (center c) \<and> snd (center c) \<le> f64_of_int 90 \<and> 0 \<le> zoom c \<and> zoom c \<le> f64_of_int 24 \<and>
     0 \<le> pitch c \<and> pitch c \<le> f64_of_int 85"

definition validate_display :: "study_bundle \<Rightarrow> display_context \<Rightarrow> (string, unit) result" where
  "validate_display b dsp =
     and_then (require_layer b (geography dsp) ''missing display geography'' ''display geography requires a PowerIO GeoLayer'') (\<lambda>_.
     and_then (try_each (\<lambda>layer. require_layer b layer ''missing display layer'' ''display layer requires a PowerIO GeoLayer'') (layers dsp)) (\<lambda>_.
     and_then (err_if (case_id dsp = []) ''display case identity is empty'') (\<lambda>_.
     and_then (try_opt (\<lambda>c. err_if (\<not> diagram_ok c) ''invalid drawing camera'') (dsp_diagram dsp)) (\<lambda>_.
     try_opt (\<lambda>c. err_if (\<not> camera_ok c) ''invalid display camera'') (dsp_camera dsp)))))"

text \<open>A solved state pairs an instance with a solution of that very instance.\<close>

definition check_pair ::
  "Problem \<Rightarrow> (Problem \<times> bool \<times> string) option \<Rightarrow> (Problem \<times> bool \<times> string) option \<Rightarrow> (string, unit) result" where
  "check_pair problem input solution =
     (case (input, solution) of
        (Some (ik, False, iid), Some (sk, True, sid)) \<Rightarrow>
          if ik = problem \<and> sk = problem then err_if (iid \<noteq> sid) ''Study solution belongs to a different problem instance''
          else Inl ''Study state must pair its declared instance and solution formulation''
      | _ \<Rightarrow> Inl ''Study state must pair its declared instance and solution formulation'')"

definition validate_state ::
  "('a, 'c) codec \<Rightarrow> study_bundle \<Rightarrow> (string, Problem \<times> bool \<times> string) btree \<Rightarrow> string \<times> state_node \<Rightarrow> (string, unit) result" where
  "validate_state cd b electrical = (\<lambda>(key, s).
     and_then (verify_record cd key (StateValue s)) (\<lambda>_.
     and_then (require_artifact b (sn_input s) True) (\<lambda>_.
     and_then (try_opt (\<lambda>parent. require (states (document b)) parent ''parent state'') (sn_parent s)) (\<lambda>_.
     case (sn_solution s, sn_view s) of
       (Some solution, Some view) \<Rightarrow>
         and_then (require_artifact b solution True) (\<lambda>_.
         and_then (require_artifact b view False) (\<lambda>_.
         and_then (state_view cd b key) (\<lambda>shown.
         and_then (err_if (resp_formulation shown \<noteq> sn_formulation s) ''state view has a different formulation'') (\<lambda>_.
         check_pair (sn_formulation s) (map_of electrical (sn_input s)) (map_of electrical solution)))))
     | (solution, view) \<Rightarrow>
         and_then (err_if (version (document b) < 2 \<or> solution \<noteq> None \<or> view \<noteq> None)
           ''a state requires both solution and result, or neither'') (\<lambda>_.
         and_then (index (artifacts b) (sn_input s)) (\<lambda>a.
         and_then (input_network cd (art_text a)) (\<lambda>_. Inr ())))))))"

text \<open>The walk up the parents of one record, with the set of the keys already seen.\<close>

function walk_parents :: "string \<Rightarrow> (string \<times> string option) list \<Rightarrow> string list \<Rightarrow> string \<Rightarrow> (string, unit) result" where
  "walk_parents what parents visited key =
     (if key \<in> set visited then Inl (''Study '' @ what @ '' contain a cycle'')
      else case map_of parents key of
        None \<Rightarrow> Inl ''no entry found for key''
      | Some None \<Rightarrow> Inr ()
      | Some (Some parent) \<Rightarrow> walk_parents what parents (key # visited) parent)"
  by pat_completeness auto
termination
proof (relation "measure (\<lambda>(_, parents, visited, _). card (fst ` set parents - set visited))", simp)
  fix what :: string and parents :: "(string \<times> string option) list" and visited key x2 parent
  assume "key \<notin> set visited" "map_of parents key = Some x2" "x2 = Some parent"
  then have "key \<in> fst ` set parents - set visited" by (force dest: map_of_SomeD)
  then have "card (fst ` set parents - set (key # visited)) < card (fst ` set parents - set visited)"
    by (intro psubset_card_mono) auto
  then show "((what, parents, key # visited, parent), what, parents, visited, key)
      \<in> measure (\<lambda>(_, parents, visited, _). card (fst ` set parents - set visited))" by simp
qed

declare walk_parents.simps [simp del]

definition check_chains :: "string \<Rightarrow> (string \<times> string option) list \<Rightarrow> (string, unit) result" where
  "check_chains what parents = try_each (walk_parents what parents []) (map fst parents)"

definition state_parents :: "study_document \<Rightarrow> (string \<times> string option) list" where
  "state_parents d = map (\<lambda>(key, s). (key, sn_parent s)) (states d)"

definition goal_parents :: "study_document \<Rightarrow> (string \<times> string option) list" where
  "goal_parents d = map (\<lambda>(key, g). (key, gr_parent g)) (goals d)"

definition validate_goal :: "('a, 'c) codec \<Rightarrow> study_document \<Rightarrow> string \<times> goal_revision \<Rightarrow> (string, unit) result" where
  "validate_goal cd d = (\<lambda>(key, g).
     and_then (verify_record cd key (GoalValue g)) (\<lambda>_.
     and_then (require (states d) (anchor_state g) ''goal anchor'') (\<lambda>_.
     and_then (index (states d) (anchor_state g)) (\<lambda>anchor.
     and_then (validate_space (conic (cd_engine cd)) (gr_decisions g) (sn_formulation anchor)) (\<lambda>_.
     and_then (validate_objective (gr_objective g) (gr_decisions g)) (\<lambda>_.
     and_then (try_opt (\<lambda>x. err_if (\<not> is_finite x) ''goal success value must be finite'') (success_value g)) (\<lambda>_.
     try_opt (\<lambda>parent. require (goals d) parent ''parent goal'') (gr_parent g))))))))"

definition check_order :: "study_document \<Rightarrow> (string, unit) result" where
  "check_order d =
     err_if (length (experiment_order d) \<noteq> length (experiments d) \<or> set (experiment_order d) \<noteq> fst ` set (experiments d))
       ''experiment order must name every experiment exactly once''"

definition validate_trial :: "study_bundle \<Rightarrow> trial_record \<Rightarrow> (string, unit) result" where
  "validate_trial b t =
     and_then (err_if (list_ex (\<lambda>x. \<not> is_finite x) (trc_changes t) \<or> (\<exists>x \<in> set_option (predicted_value t). \<not> is_finite x) \<or>
                 (\<exists>x \<in> set_option (exact_value t). \<not> is_finite x)) ''trial values must be finite'') (\<lambda>_.
     and_then (try_opt (\<lambda>s. require (states (document b)) s ''trial state'') (trc_state t)) (\<lambda>_.
     and_then (err_if (accepted t \<and> (trc_state t = None \<or> exact_value t = None \<or> failure t \<noteq> None))
                 ''accepted trial requires an exact successful state'') (\<lambda>_.
     try_each (\<lambda>e. require_artifact b e False) (trc_evidence t))))"

definition validate_experiment :: "('a, 'c) codec \<Rightarrow> study_bundle \<Rightarrow> nat \<times> string \<Rightarrow> (string, unit) result" where
  "validate_experiment cd b = (\<lambda>(position, key).
     let d = document b
     in and_then (index (experiments d) key) (\<lambda>e.
        and_then (verify_record cd key (ExperimentValue position e)) (\<lambda>_.
        and_then (err_if (ex_kind e \<noteq> HistoricalImport \<and> start_state e = None) ''activity requires a starting state'') (\<lambda>_.
        and_then (err_if (ex_kind e = Planning \<and> ex_goal e = None) ''planning activity requires a goal revision'') (\<lambda>_.
        and_then (try_opt (\<lambda>s. require (states d) s ''experiment start'') (start_state e)) (\<lambda>_.
        and_then (try_opt (\<lambda>g. require (goals d) g ''experiment goal'') (ex_goal e)) (\<lambda>_.
        and_then (try_each (\<lambda>s. require (states d) s ''experiment result'')
          (result_states e @ (case assessed_recommendation e of None \<Rightarrow> [] | Some s \<Rightarrow> [s]))) (\<lambda>_.
        and_then (try_each (\<lambda>a. require_artifact b a False) (ex_evidence e)) (\<lambda>_.
        and_then (err_if ((ex_kind e = Inspection \<or> ex_kind e = Sensitivity) \<and>
            (result_states e \<noteq> [] \<or> list_ex (\<lambda>t. trc_state t \<noteq> None) (trials e)))
          ''inspection and sensitivity experiments cannot create electrical states'') (\<lambda>_.
        try_each (validate_trial b) (trials e)))))))))))"

definition validate_decision :: "('a, 'c) codec \<Rightarrow> study_bundle \<Rightarrow> string \<times> decision_record \<Rightarrow> (string, unit) result" where
  "validate_decision cd b = (\<lambda>(key, r).
     and_then (verify_record cd key (DecisionValue r)) (\<lambda>_.
     and_then (require (experiments (document b)) (dr_experiment r) ''decision experiment'') (\<lambda>_.
     and_then (try_opt (\<lambda>s. require (states (document b)) s ''decision state'') (dr_state r)) (\<lambda>_.
     try_each (\<lambda>a. require_artifact b a False) (dr_evidence r)))))"

definition validate_pointers :: "study_document \<Rightarrow> (string, unit) result" where
  "validate_pointers d =
     and_then (try_each (try_opt (\<lambda>s. require (states d) s ''state pointer''))
       [inspected_state d, recommended_state d, applied_state d]) (\<lambda>_.
     try_opt (\<lambda>g. require (goals d) g ''active goal'') (active_goal d))"

definition validate :: "('a, 'c) codec \<Rightarrow> study_bundle \<Rightarrow> (string, unit) result" where
  "validate cd b =
     (let d = document b
      in and_then (validate_document d (length (artifacts b))) (\<lambda>_.
         and_then (err_if (MAX_BUNDLE_BYTES < sum_list (map (\<lambda>(_, a). byte_len (art_text a)) (artifacts b))) ''Study artifacts exceed 512 MiB'') (\<lambda>_.
         and_then (check_artifacts cd (artifacts b)) (\<lambda>electrical.
         and_then (try_opt (\<lambda>input.
             and_then (require_artifact b input True) (\<lambda>_.
             and_then (index (artifacts b) input) (\<lambda>a. and_then (input_network cd (art_text a)) (\<lambda>_. Inr ())))) (base_input d)) (\<lambda>_.
         and_then (try_opt (validate_display b) (display d)) (\<lambda>_.
         and_then (try_each (validate_state cd b electrical) (states d)) (\<lambda>_.
         and_then (check_chains ''states'' (state_parents d)) (\<lambda>_.
         and_then (try_each (validate_goal cd d) (goals d)) (\<lambda>_.
         and_then (check_chains ''goals'' (goal_parents d)) (\<lambda>_.
         and_then (check_order d) (\<lambda>_.
         and_then (try_each (validate_experiment cd b) (zip [0..<length (experiment_order d)] (experiment_order d))) (\<lambda>_.
         and_then (try_each (validate_decision cd b) (decisions_made d)) (\<lambda>_.
         validate_pointers d)))))))))))))"

section \<open>Operations\<close>

text \<open>An operation on \<open>&mut StudyBundle\<close> and its \<open>?\<close>: a failure keeps what was written before it.\<close>

type_synonym ('s, 'a) stateful = "(string, 'a) result \<times> 's"

definition then_do :: "('s, 'a) stateful \<Rightarrow> ('a \<Rightarrow> 's \<Rightarrow> ('s, 'b) stateful) \<Rightarrow> ('s, 'b) stateful" where
  "then_do m f = (case m of (Inl e, s) \<Rightarrow> (Inl e, s) | (Inr x, s) \<Rightarrow> f x s)"

fun do_map :: "('x \<Rightarrow> 's \<Rightarrow> ('s, 'y) stateful) \<Rightarrow> 'x list \<Rightarrow> 's \<Rightarrow> ('s, 'y list) stateful" where
  "do_map f [] s = (Inr [], s)"
| "do_map f (x # xs) s = then_do (f x s) (\<lambda>y s'. then_do (do_map f xs s') (\<lambda>ys s''. (Inr (y # ys), s'')))"

definition edit_document :: "(study_document \<Rightarrow> study_document) \<Rightarrow> study_bundle \<Rightarrow> study_bundle" where
  "edit_document f b = b\<lparr>document := f (document b)\<rparr>"

definition empty_bundle :: "string \<Rightarrow> string \<Rightarrow> (string, study_bundle) result" where
  "empty_bundle key name =
     and_then (err_if (blank key \<or> 256 < byte_len key \<or> 4096 < byte_len name) ''Study requires a bounded identity and title'') (\<lambda>_.
     Inr \<lparr>document = \<lparr>schema = ''tellegen-study'', version = STUDY_VERSION, doc_id = key, title = name, revision = 0, goals = [],
            states = [], experiments = [], experiment_order = [], decisions_made = [], active_goal = None, inspected_state = None,
            recommended_state = None, applied_state = None, base_input = None, display = None, model_details = None\<rparr>,
          artifacts = []\<rparr>)"

definition check_revision :: "study_bundle \<Rightarrow> 64 word \<Rightarrow> (string, unit) result" where
  "check_revision b expected =
     err_if (revision (document b) \<noteq> expected)
       (''stale Study revision: expected '' @ show_nat (unat expected) @ '', current '' @ show_nat (unat (revision (document b))))"

definition checked_succ :: "64 word \<Rightarrow> 64 word option" where
  "checked_succ n = (if n = - 1 then None else Some (n + 1))"

definition transaction ::
  "('a, 'c) codec \<Rightarrow> 64 word \<Rightarrow> (study_bundle \<Rightarrow> (study_bundle, 't) stateful) \<Rightarrow> study_bundle \<Rightarrow> (study_bundle, 't) stateful" where
  "transaction cd expected operation b =
     (case check_revision b expected of
        Inl e \<Rightarrow> (Inl e, b)
      | Inr _ \<Rightarrow>
          (case operation (edit_document (\<lambda>d. d\<lparr>version := STUDY_VERSION\<rparr>) b) of
             (Inl e, _) \<Rightarrow> (Inl e, b)
           | (Inr r, next_bundle) \<Rightarrow>
               (case checked_succ expected of
                  None \<Rightarrow> (Inl ''Study revision exhausted'', b)
                | Some n \<Rightarrow>
                    (let published = edit_document (\<lambda>d. d\<lparr>revision := n\<rparr>) next_bundle
                     in case validate cd published of
                          Inl e \<Rightarrow> (Inl e, b)
                        | Inr _ \<Rightarrow> (Inr r, published)))))"

definition add_artifact :: "('a, 'c) codec \<Rightarrow> ArtifactKind \<Rightarrow> string \<Rightarrow> study_bundle \<Rightarrow> (study_bundle, string) stateful" where
  "add_artifact cd k t b =
     (let a = \<lparr>art_kind = k, art_text = t\<rparr>
      in case and_then (validate_artifact cd a) (\<lambda>_. record_id cd (ArtifactValue a)) of
           Inl e \<Rightarrow> (Inl e, b)
         | Inr key \<Rightarrow> (Inr key, b\<lparr>artifacts := bt_or_insert key a (artifacts b)\<rparr>))"

definition add_state :: "('a, 'c) codec \<Rightarrow> state_node \<Rightarrow> study_bundle \<Rightarrow> (study_bundle, string) stateful" where
  "add_state cd s b =
     (case record_id cd (StateValue s) of
        Inl e \<Rightarrow> (Inl e, b)
      | Inr key \<Rightarrow> (Inr key, edit_document (\<lambda>d. d\<lparr>states := bt_or_insert key s (states d)\<rparr>) b))"

definition capture_state ::
  "('a, 'c) codec \<Rightarrow> exact_candidate \<Rightarrow> string option \<Rightarrow> string \<Rightarrow> study_bundle \<Rightarrow> (study_bundle, string) stateful" where
  "capture_state cd cand parent label b =
     (case parse_view cd (ec_view cand) of
        Inl e \<Rightarrow> (Inl e, b)
      | Inr view \<Rightarrow>
          then_do (add_artifact cd PowerioIr (ec_input cand) b) (\<lambda>input b1.
          then_do (add_artifact cd PowerioIr (ec_solution cand) b1) (\<lambda>solution b2.
          then_do (add_artifact cd Evidence (ec_view cand) b2) (\<lambda>evidence b3.
          add_state cd \<lparr>sn_parent = parent, sn_formulation = resp_formulation view, sn_input = input, sn_solution = Some solution,
            sn_view = Some evidence, sn_label = label\<rparr> b3))))"

definition add_experiment :: "('a, 'c) codec \<Rightarrow> experiment_record \<Rightarrow> study_bundle \<Rightarrow> (study_bundle, string) stateful" where
  "add_experiment cd e b =
     (case record_id cd (ExperimentValue (length (experiment_order (document b))) e) of
        Inl err \<Rightarrow> (Inl err, b)
      | Inr key \<Rightarrow> (Inr key, edit_document (\<lambda>d. d\<lparr>
           experiment_order := (if bt_contains (experiments d) key then experiment_order d else experiment_order d @ [key]),
           experiments := bt_or_insert key e (experiments d)\<rparr>) b))"

definition add_decision :: "('a, 'c) codec \<Rightarrow> decision_record \<Rightarrow> study_bundle \<Rightarrow> (study_bundle, string) stateful" where
  "add_decision cd r b =
     (case record_id cd (DecisionValue r) of
        Inl e \<Rightarrow> (Inl e, b)
      | Inr key \<Rightarrow> (Inr key, edit_document (\<lambda>d. d\<lparr>decisions_made := bt_or_insert key r (decisions_made d)\<rparr>) b))"

definition check_goal :: "('a, 'c) codec \<Rightarrow> study_bundle \<Rightarrow> goal_revision \<Rightarrow> (string, unit) result" where
  "check_goal cd b g =
     and_then (ok_or ''goal anchor state is unavailable'' (map_of (states (document b)) (anchor_state g))) (\<lambda>s.
     and_then (validate_space (conic (cd_engine cd)) (gr_decisions g) (sn_formulation s)) (\<lambda>_.
     and_then (validate_objective (gr_objective g) (gr_decisions g)) (\<lambda>_.
     and_then (state_network cd b (anchor_state g)) (\<lambda>net.
     and_then (if sn_view s \<noteq> None
               then and_then (state_view cd b (anchor_state g)) (\<lambda>view.
                    and_then (evaluate view net (bt_collect (map (\<lambda>v. (dv_id v, 0)) (ds_variables (gr_decisions g)))) (gr_objective g)) (\<lambda>_. Inr ()))
               else Inr ()) (\<lambda>_.
     err_if (gr_parent g \<noteq> active_goal (document b)) ''goal revision must name the current goal as its parent'')))))"

definition revise_goal :: "('a, 'c) codec \<Rightarrow> goal_revision \<Rightarrow> study_bundle \<Rightarrow> (study_bundle, string) stateful" where
  "revise_goal cd g b =
     (case and_then (check_goal cd b g) (\<lambda>_. record_id cd (GoalValue g)) of
        Inl e \<Rightarrow> (Inl e, b)
      | Inr key \<Rightarrow> (Inr key, edit_document (\<lambda>d. d\<lparr>goals := bt_insert key g (goals d), active_goal := Some key, recommended_state := None\<rparr>) b))"

definition inspect :: "string \<Rightarrow> study_bundle \<Rightarrow> (study_bundle, unit) stateful" where
  "inspect key b =
     (if bt_contains (states (document b)) key then (Inr (), edit_document (\<lambda>d. d\<lparr>inspected_state := Some key\<rparr>) b)
      else (Inl ''inspection state is unavailable'', b))"

definition experiment_summary_of :: "string \<Rightarrow> experiment_record \<Rightarrow> experiment_summary" where
  "experiment_summary_of key e = \<lparr>es_id = key, es_kind = ex_kind e, es_start = start_state e, es_goal = ex_goal e,
     es_rationale = take_chars 320 (ex_rationale e), es_solve_count = solve_count e, es_trial_count = length (trials e),
     es_results = take 8 (result_states e), es_termination = termination_note e\<rparr>"

definition summary :: "nat \<Rightarrow> study_bundle \<Rightarrow> (string, study_summary) result" where
  "summary limit b =
     (let d = document b
      in and_then (try_map (\<lambda>key. and_then (index (experiments d) key) (\<lambda>e. Inr (experiment_summary_of key e)))
           (take (min limit 20) (rev (experiment_order d)))) (\<lambda>recent.
         Inr \<lparr>sum_id = doc_id d, sum_title = title d, sum_revision = revision d,
              sum_goal = Option.bind (active_goal d) (\<lambda>key. map_option (Pair key) (map_of (goals d) key)),
              sum_inspected = inspected_state d, sum_recommended = recommended_state d, sum_applied = applied_state d,
              state_count = length (states d), experiment_count = length (experiments d), recent_experiments = recent,
              unavailable_states = length (filter (\<lambda>(_, e). start_state e = None) (experiments d))\<rparr>))"

definition import_journal :: "('a, 'c) codec \<Rightarrow> string \<Rightarrow> string \<Rightarrow> string \<Rightarrow> (string, study_bundle) result" where
  "import_journal cd key name t =
     and_then (err_if (MAX_BUNDLE_BYTES < byte_len t) ''journal exceeds the import limit'') (\<lambda>_.
     and_then (parse_journal cd t) (\<lambda>j.
     and_then (err_if (jp_schema j \<noteq> Some ''tellegen.experiment-journal'' \<or> jp_version j \<noteq> Some 1 \<or> \<not> jp_records_array j)
       ''unsupported historical journal'') (\<lambda>_.
     and_then (empty_bundle key name) (\<lambda>b.
     case add_artifact cd Evidence t b of
       (Inl e, _) \<Rightarrow> Inl e
     | (Inr artifact, b1) \<Rightarrow>
         (case add_experiment cd \<lparr>start_state = None, ex_goal = None, ex_kind = HistoricalImport,
             ex_rationale = ''Imported completed journal evidence; electrical states are unavailable'', ex_evidence = [artifact],
             trials = [], result_states = [], assessed_recommendation = None, solve_count = 0,
             termination_note = ''historical_evidence_only''\<rparr> b1 of
            (Inl e, _) \<Rightarrow> Inl e
          | (Inr _, b2) \<Rightarrow> and_then (validate cd b2) (\<lambda>_. Inr b2))))))"

definition import_study :: "('a, 'c) codec \<Rightarrow> string \<Rightarrow> (string, study_bundle) result" where
  "import_study cd t =
     and_then (err_if (MAX_BUNDLE_BYTES < byte_len t) ''Study bundle exceeds the 512 MiB import limit'') (\<lambda>_.
     case parse_bundle_schema cd t of
       Inl e \<Rightarrow> Inl (''invalid Study bundle: '' @ e)
     | Inr sch \<Rightarrow>
         if sch = Some ''tellegen.experiment-journal''
         then import_journal cd (content_id (sha256 cd) t) ''Imported journal evidence'' t
         else case parse_bundle cd t of
           Inl e \<Rightarrow> Inl (''invalid Study bundle: '' @ e)
         | Inr b \<Rightarrow> and_then (validate cd b) (\<lambda>_. Inr (edit_document (\<lambda>d. d\<lparr>version := STUDY_VERSION\<rparr>) b)))"

definition export_study :: "('a, 'c) codec \<Rightarrow> study_bundle \<Rightarrow> (string, string) result" where
  "export_study cd b =
     and_then (validate cd b) (\<lambda>_.
     and_then (bundle_json cd b) (\<lambda>t.
     and_then (err_if (MAX_BUNDLE_BYTES < byte_len t) ''Study exceeds 512 MiB; export a branch or remove unneeded artifacts in a copy'') (\<lambda>_.
     Inr t)))"

section \<open>Parent chains\<close>

definition parent_rel :: "(string \<times> string option) list \<Rightarrow> string rel" where
  "parent_rel parents = {(key, parent). map_of parents key = Some (Some parent)}"

lemma parent_rel_single: "(key, p) \<in> parent_rel parents \<Longrightarrow> (key, q) \<in> (parent_rel parents)\<^sup>+ \<Longrightarrow> (p, q) \<in> (parent_rel parents)\<^sup>*"
  by (erule converse_tranclE) (auto simp: parent_rel_def)

lemma walk_parents_sound:
  assumes "walk_parents what parents visited key = Inr ()"
  shows "key \<notin> set visited \<and> (\<forall>v \<in> set visited. (key, v) \<notin> (parent_rel parents)\<^sup>*) \<and> (key, key) \<notin> (parent_rel parents)\<^sup>+ \<and>
    map_of parents key \<noteq> None"
  using assms
proof (induction what parents visited key rule: walk_parents.induct)
  case (1 what parents visited key)
  from "1.prems" have fresh: "key \<notin> set visited" by (subst (asm) walk_parents.simps) (auto split: if_splits)
  with "1.prems" consider "map_of parents key = Some None"
    | p where "map_of parents key = Some (Some p)" "walk_parents what parents (key # visited) p = Inr ()"
    by (subst (asm) walk_parents.simps) (auto split: option.splits)
  then show ?case
  proof cases
    case 1
    then have "(key, v) \<notin> (parent_rel parents)\<^sup>+" for v by (auto simp: parent_rel_def dest: tranclD)
    with 1 fresh show ?thesis by (auto simp: rtrancl_eq_or_trancl)
  next
    case (2 p)
    with "1.IH" fresh have IH: "\<forall>v \<in> set (key # visited). (p, v) \<notin> (parent_rel parents)\<^sup>*" by blast
    have "(key, p) \<in> parent_rel parents" using 2(1) by (simp add: parent_rel_def)
    note step = parent_rel_single [OF this]
    with IH have "\<forall>v \<in> set (key # visited). (key, v) \<notin> (parent_rel parents)\<^sup>+" by blast
    with 2(1) fresh show ?thesis by (auto simp: rtrancl_eq_or_trancl)
  qed
qed

lemma walk_parents_complete:
  assumes "acyclic (parent_rel parents)" "\<forall>k p. (k, p) \<in> parent_rel parents \<longrightarrow> map_of parents p \<noteq> None"
    and "\<forall>v \<in> set visited. (v, key) \<in> (parent_rel parents)\<^sup>+" "map_of parents key \<noteq> None"
  shows "walk_parents what parents visited key = Inr ()"
  using assms
proof (induction what parents visited key rule: walk_parents.induct)
  case (1 what parents visited key)
  have fresh: "key \<notin> set visited" using "1.prems"(1,3) by (auto simp: acyclic_def)
  show ?case
  proof (cases "map_of parents key")
    case (Some x)
    show ?thesis
    proof (cases x)
      case None
      with Some fresh show ?thesis by (simp add: walk_parents.simps)
    next
      case (Some p)
      with \<open>map_of parents key = Some x\<close> have edge: "(key, p) \<in> parent_rel parents" by (simp add: parent_rel_def)
      have "\<forall>v \<in> set (key # visited). (v, p) \<in> (parent_rel parents)\<^sup>+"
        using "1.prems"(3) edge by (auto intro: trancl_into_trancl)
      moreover have "map_of parents p \<noteq> None" using "1.prems"(2) edge by blast
      moreover note "1.IH" [OF fresh \<open>map_of parents key = Some x\<close> Some "1.prems"(1,2)]
      ultimately have "walk_parents what parents (key # visited) p = Inr ()" by blast
      with fresh Some \<open>map_of parents key = Some x\<close> show ?thesis by (simp add: walk_parents.simps)
    qed
  qed (use "1.prems"(4) in simp)
qed

lemma check_chains_exact:
  "check_chains what parents = Inr () \<longleftrightarrow>
     acyclic (parent_rel parents) \<and> (\<forall>k p. (k, p) \<in> parent_rel parents \<longrightarrow> map_of parents p \<noteq> None)"
proof
  assume "check_chains what parents = Inr ()"
  then have walk: "walk_parents what parents [] k = Inr ()" if "map_of parents k \<noteq> None" for k
    using that by (auto simp: check_chains_def try_each_Inr map_of_eq_None_iff)
  have "(k, k) \<notin> (parent_rel parents)\<^sup>+" for k
  proof
    assume loop: "(k, k) \<in> (parent_rel parents)\<^sup>+"
    then have "map_of parents k \<noteq> None" by (auto simp: parent_rel_def dest: tranclD)
    from walk_parents_sound [OF walk [OF this]] loop show False by blast
  qed
  moreover have "map_of parents p \<noteq> None" if "(k, p) \<in> parent_rel parents" for k p
  proof -
    from that have k: "map_of parents k = Some (Some p)" by (simp add: parent_rel_def)
    then have "walk_parents what parents [] k = Inr ()" by (simp add: walk)
    with k have "walk_parents what parents [k] p = Inr ()" by (simp add: walk_parents.simps [of what parents "[]"])
    from walk_parents_sound [OF this] show ?thesis by blast
  qed
  ultimately show "acyclic (parent_rel parents) \<and> (\<forall>k p. (k, p) \<in> parent_rel parents \<longrightarrow> map_of parents p \<noteq> None)"
    by (auto simp: acyclic_def)
next
  assume ok: "acyclic (parent_rel parents) \<and> (\<forall>k p. (k, p) \<in> parent_rel parents \<longrightarrow> map_of parents p \<noteq> None)"
  have "walk_parents what parents [] k = Inr ()" if "k \<in> fst ` set parents" for k
    by (rule walk_parents_complete) (use ok that in \<open>auto simp: map_of_eq_None_iff\<close>)
  then show "check_chains what parents = Inr ()" by (auto simp: check_chains_def try_each_Inr)
qed

section \<open>Content identities\<close>

definition unhex_digit :: "char \<Rightarrow> nat option" where
  "unhex_digit c = position (\<lambda>d. d = c) HEX"

fun unhex :: "string \<Rightarrow> 8 word list option" where
  "unhex [] = Some []"
| "unhex [_] = None"
| "unhex (a # b # cs) =
     Option.bind (unhex_digit a) (\<lambda>h. Option.bind (unhex_digit b) (\<lambda>l. map_option (Cons (of_nat (16 * h + l))) (unhex cs)))"

lemma unhex_digit_HEX: "n < 16 \<Longrightarrow> unhex_digit (HEX ! n) = Some n"
  unfolding unhex_digit_def HEX_def by (auto simp: less_Suc_eq numeral_eq_Suc)

lemma nibbles: "unat (drop_bit 4 b) < 16" "unat (take_bit 4 b) < 16" "16 * unat (drop_bit 4 b) + unat (take_bit 4 b) = unat b"
  "16 * drop_bit 4 b + take_bit 4 b = (b :: 8 word)"
proof -
  have b: "unat b < 256" using unsigned_less [of b, where 'a = nat] by simp
  have d: "unat (drop_bit 4 b) = unat b div 16" unfolding unat_drop_bit_eq by (simp add: drop_bit_eq_div)
  have t: "unat (take_bit 4 b) = unat b mod 16" unfolding unsigned_take_bit_eq by (simp add: take_bit_eq_mod)
  show "unat (drop_bit 4 b) < 16" "unat (take_bit 4 b) < 16" "16 * unat (drop_bit 4 b) + unat (take_bit 4 b) = unat b"
    using b by (simp_all add: d t)
  show "16 * drop_bit 4 b + take_bit 4 b = b" using bits_ident [of 4 b] by (simp add: push_bit_eq_mult mult.commute)
qed

lemma unhex_hex: "unhex (concat (map hex_byte bs)) = Some bs"
  by (induction bs) (simp_all add: hex_byte_def unhex_digit_HEX nibbles)

lemma content_id_eq: "content_id sha s = content_id sha t \<longleftrightarrow> sha s = sha t"
  unfolding content_id_def using unhex_hex by (metis append_same_eq same_append_eq option.inject)

section \<open>What a validated bundle satisfies\<close>

text \<open>The type invariant of the \<open>BTreeMap\<close>s.\<close>

definition bundle_wf :: "study_bundle \<Rightarrow> bool" where
  "bundle_wf b \<longleftrightarrow> bt_ok (states (document b)) \<and> bt_ok (goals (document b)) \<and> bt_ok (experiments (document b)) \<and>
     bt_ok (decisions_made (document b)) \<and> bt_ok (artifacts b)"

definition present :: "(string, 'v) btree \<Rightarrow> string option \<Rightarrow> bool" where
  "present m key \<longleftrightarrow> (\<forall>k. key = Some k \<longrightarrow> map_of m k \<noteq> None)"

definition holds_artifact :: "study_bundle \<Rightarrow> bool \<Rightarrow> string \<Rightarrow> bool" where
  "holds_artifact b electrical key \<longleftrightarrow> (\<exists>a. map_of (artifacts b) key = Some a \<and> (art_kind a = PowerioIr \<longleftrightarrow> electrical))"

definition addressed :: "('a, 'c) codec \<Rightarrow> study_bundle \<Rightarrow> bool" where
  "addressed cd b \<longleftrightarrow>
     (\<forall>(key, a) \<in> set (artifacts b). record_id cd (ArtifactValue a) = Inr key) \<and>
     (\<forall>(key, s) \<in> set (states (document b)). record_id cd (StateValue s) = Inr key) \<and>
     (\<forall>(key, g) \<in> set (goals (document b)). record_id cd (GoalValue g) = Inr key) \<and>
     (\<forall>(key, r) \<in> set (decisions_made (document b)). record_id cd (DecisionValue r) = Inr key) \<and>
     (\<forall>i < length (experiment_order (document b)). \<exists>e. map_of (experiments (document b)) (experiment_order (document b) ! i) = Some e \<and>
        record_id cd (ExperimentValue i e) = Inr (experiment_order (document b) ! i))"

definition state_resolved :: "study_bundle \<Rightarrow> state_node \<Rightarrow> bool" where
  "state_resolved b s \<longleftrightarrow> holds_artifact b True (sn_input s) \<and> present (states (document b)) (sn_parent s) \<and>
     (sn_solution s = None \<longleftrightarrow> sn_view s = None) \<and> (\<forall>k. sn_solution s = Some k \<longrightarrow> holds_artifact b True k) \<and>
     (\<forall>k. sn_view s = Some k \<longrightarrow> holds_artifact b False k)"

definition trial_resolved :: "study_bundle \<Rightarrow> trial_record \<Rightarrow> bool" where
  "trial_resolved b t \<longleftrightarrow> present (states (document b)) (trc_state t) \<and>
     (accepted t \<longrightarrow> trc_state t \<noteq> None \<and> exact_value t \<noteq> None \<and> failure t = None) \<and>
     (\<forall>k \<in> set (trc_evidence t). holds_artifact b False k)"

definition experiment_resolved :: "study_bundle \<Rightarrow> experiment_record \<Rightarrow> bool" where
  "experiment_resolved b e \<longleftrightarrow> present (states (document b)) (start_state e) \<and> present (goals (document b)) (ex_goal e) \<and>
     (ex_kind e \<noteq> HistoricalImport \<longrightarrow> start_state e \<noteq> None) \<and> (ex_kind e = Planning \<longrightarrow> ex_goal e \<noteq> None) \<and>
     (\<forall>k \<in> set (result_states e). map_of (states (document b)) k \<noteq> None) \<and>
     present (states (document b)) (assessed_recommendation e) \<and> (\<forall>k \<in> set (ex_evidence e). holds_artifact b False k) \<and>
     (\<forall>t \<in> set (trials e). trial_resolved b t)"

definition resolved :: "study_bundle \<Rightarrow> bool" where
  "resolved b \<longleftrightarrow>
     (\<forall>(_, s) \<in> set (states (document b)). state_resolved b s) \<and>
     (\<forall>(_, g) \<in> set (goals (document b)). map_of (states (document b)) (anchor_state g) \<noteq> None \<and> present (goals (document b)) (gr_parent g)) \<and>
     (\<forall>key \<in> set (experiment_order (document b)). \<forall>e. map_of (experiments (document b)) key = Some e \<longrightarrow> experiment_resolved b e) \<and>
     (\<forall>(_, r) \<in> set (decisions_made (document b)). map_of (experiments (document b)) (dr_experiment r) \<noteq> None \<and>
        present (states (document b)) (dr_state r) \<and> (\<forall>k \<in> set (dr_evidence r). holds_artifact b False k)) \<and>
     present (states (document b)) (inspected_state (document b)) \<and> present (states (document b)) (recommended_state (document b)) \<and>
     present (states (document b)) (applied_state (document b)) \<and> present (goals (document b)) (active_goal (document b)) \<and>
     (\<forall>k. base_input (document b) = Some k \<longrightarrow> holds_artifact b True k)"

text \<open>The solution of a solved state was computed for the instance stored as its input.\<close>

definition paired :: "('a, 'c) codec \<Rightarrow> study_bundle \<Rightarrow> bool" where
  "paired cd b \<longleftrightarrow>
     (\<forall>(_, s) \<in> set (states (document b)). \<forall>k. sn_solution s = Some k \<longrightarrow>
        (\<exists>input solution inst. map_of (artifacts b) (sn_input s) = Some input \<and> map_of (artifacts b) k = Some solution \<and>
           validate_artifact cd input = Inr (Some (sn_formulation s, False, inst)) \<and>
           validate_artifact cd solution = Inr (Some (sn_formulation s, True, inst))))"

lemma require_Inr [result_simps]: "require m key what = Inr u \<longleftrightarrow> map_of m key \<noteq> None"
  by (simp add: require_def bt_contains_def err_if_Inr)

lemma require_artifact_Inr [result_simps]: "require_artifact b key electrical = Inr u \<longleftrightarrow> holds_artifact b electrical key"
  by (auto simp: require_artifact_def holds_artifact_def and_then_Inr ok_or_Inr err_if_Inr)

lemma verify_record_Inr [result_simps]: "verify_record cd key v = Inr u \<longleftrightarrow> record_id cd v = Inr key"
  by (auto simp: verify_record_def and_then_Inr err_if_Inr)

lemma index_Inr [result_simps]: "index m key = Inr v \<longleftrightarrow> map_of m key = Some v"
  by (simp add: index_def ok_or_Inr)

lemma check_pair_Inr [result_simps]:
  "check_pair p input solution = Inr u \<longleftrightarrow> (\<exists>i. input = Some (p, False, i) \<and> solution = Some (p, True, i))"
  by (auto simp: check_pair_def err_if_Inr split: option.splits bool.splits)

lemma check_artifacts_Inr:
  assumes "check_artifacts cd arts = Inr electrical" "bt_ok arts"
  shows "(\<forall>(key, a) \<in> set arts. record_id cd (ArtifactValue a) = Inr key) \<and>
    (\<forall>key v. map_of electrical key = Some v \<longrightarrow> (\<exists>a. map_of arts key = Some a \<and> validate_artifact cd a = Inr (Some v)))"
proof
  show "\<forall>(key, a) \<in> set arts. record_id cd (ArtifactValue a) = Inr key"
    using assms(1) unfolding check_artifacts_def
  proof (induction arts arbitrary: electrical rule: rev_induct)
    case (snoc x xs)
    then show ?case by (cases x) (auto simp: try_fold_append and_then_Inr verify_record_Inr)
  qed simp
  show "\<forall>key v. map_of electrical key = Some v \<longrightarrow> (\<exists>a. map_of arts key = Some a \<and> validate_artifact cd a = Inr (Some v))"
    using assms(1) unfolding check_artifacts_def
  proof (rule try_fold_invariant)
    show "\<forall>key v. map_of [] key = Some v \<longrightarrow> (\<exists>a. map_of arts key = Some a \<and> validate_artifact cd a = Inr (Some v))" by simp
  next
    fix m x m'
    assume "\<forall>key v. map_of m key = Some v \<longrightarrow> (\<exists>a. map_of arts key = Some a \<and> validate_artifact cd a = Inr (Some v))"
      "x \<in> set arts" "(case x of (key, a) \<Rightarrow> and_then (verify_record cd key (ArtifactValue a)) (\<lambda>_.
       and_then (validate_artifact cd a) (\<lambda>identity.
       Inr (case identity of None \<Rightarrow> m | Some v \<Rightarrow> bt_insert key v m)))) = Inr m'"
    then show "\<forall>key v. map_of m' key = Some v \<longrightarrow> (\<exists>a. map_of arts key = Some a \<and> validate_artifact cd a = Inr (Some v))"
      using bt_ok_map_of_set [OF assms(2)]
      by (cases x) (fastforce simp: and_then_Inr map_of_bt_insert split: option.splits if_splits)
  qed
qed

lemma validate_state_Inr:
  assumes "validate_state cd b electrical (key, s) = Inr ()"
  shows "record_id cd (StateValue s) = Inr key" "state_resolved b s"
    "sn_solution s = Some k \<Longrightarrow> \<exists>i. map_of electrical (sn_input s) = Some (sn_formulation s, False, i) \<and>
       map_of electrical k = Some (sn_formulation s, True, i)"
  using assms
  by (auto simp: validate_state_def state_resolved_def present_def result_simps split: option.splits)

lemma validate_trial_Inr: "validate_trial b t = Inr () \<Longrightarrow> trial_resolved b t"
  by (auto simp: validate_trial_def trial_resolved_def present_def result_simps)

lemma validate_experiment_Inr:
  assumes "validate_experiment cd b (i, key) = Inr ()"
  shows "\<exists>e. map_of (experiments (document b)) key = Some e \<and> record_id cd (ExperimentValue i e) = Inr key \<and> experiment_resolved b e"
  using assms
  by (fastforce simp: validate_experiment_def experiment_resolved_def present_def Let_def result_simps
      intro: validate_trial_Inr split: option.splits)

lemma validate_goal_Inr:
  assumes "validate_goal cd d (key, g) = Inr ()"
  shows "record_id cd (GoalValue g) = Inr key \<and> map_of (states d) (anchor_state g) \<noteq> None \<and> present (goals d) (gr_parent g)"
  using assms by (auto simp: validate_goal_def present_def result_simps)

lemma validate_decision_Inr:
  assumes "validate_decision cd b (key, r) = Inr ()"
  shows "record_id cd (DecisionValue r) = Inr key \<and> map_of (experiments (document b)) (dr_experiment r) \<noteq> None \<and>
    present (states (document b)) (dr_state r) \<and> (\<forall>k \<in> set (dr_evidence r). holds_artifact b False k)"
  using assms by (auto simp: validate_decision_def present_def result_simps)

lemma validate_pointers_Inr:
  assumes "validate_pointers d = Inr ()"
  shows "present (states d) (inspected_state d) \<and> present (states d) (recommended_state d) \<and> present (states d) (applied_state d) \<and>
    present (goals d) (active_goal d)"
  using assms by (auto simp: validate_pointers_def present_def result_simps)

lemma validate_steps:
  assumes "validate cd b = Inr ()"
  obtains electrical where
    "check_artifacts cd (artifacts b) = Inr electrical"
    "try_each (validate_state cd b electrical) (states (document b)) = Inr ()"
    "check_chains ''states'' (state_parents (document b)) = Inr ()"
    "try_each (validate_goal cd (document b)) (goals (document b)) = Inr ()"
    "check_chains ''goals'' (goal_parents (document b)) = Inr ()" "check_order (document b) = Inr ()"
    "try_each (validate_experiment cd b) (zip [0..<length (experiment_order (document b))] (experiment_order (document b))) = Inr ()"
    "try_each (validate_decision cd b) (decisions_made (document b)) = Inr ()" "validate_pointers (document b) = Inr ()"
    "\<And>k. base_input (document b) = Some k \<Longrightarrow> holds_artifact b True k"
  using assms unfolding validate_def Let_def and_then_Inr
  by (elim exE conjE, intro that) (auto simp: try_opt_Inr and_then_Inr require_artifact_Inr)


section \<open>The transaction\<close>

lemma checked_succ_Some: "checked_succ n = Some m \<Longrightarrow> unat m = unat n + 1"
  using unatSuc [of n] by (auto simp: checked_succ_def add.commute eq_neg_iff_add_eq_0 split: if_splits)

lemma edit_document_simps [simp]: "document (edit_document f b) = f (document b)" "artifacts (edit_document f b) = artifacts b"
  by (simp_all add: edit_document_def)

lemma transaction_cases:
  "(\<exists>e. transaction cd n operation b = (Inl e, b)) \<or>
   (\<exists>r c m. check_revision b n = Inr () \<and> operation (edit_document (\<lambda>d. d\<lparr>version := STUDY_VERSION\<rparr>) b) = (Inr r, c) \<and>
      checked_succ n = Some m \<and> validate cd (edit_document (\<lambda>d. d\<lparr>revision := m\<rparr>) c) = Inr () \<and>
      transaction cd n operation b = (Inr r, edit_document (\<lambda>d. d\<lparr>revision := m\<rparr>) c))"
  unfolding transaction_def Let_def by (simp split: sum.split prod.split option.split)

text \<open>C19: a transaction is all or nothing. When it reports a failure (a stale revision, a failing operation,
  an exhausted counter or a result that does not validate) the bundle is untouched; when it
  succeeds, the bundle was at the expected revision, the published one is the operation's result
  on the upgraded copy, one revision later without wrapping around, and it validates.\<close>

theorem transaction_atomic:
  "case transaction cd n operation b of
     (Inl e, b') \<Rightarrow> b' = b
   | (Inr r, b') \<Rightarrow>
       revision (document b) = n \<and> unat (revision (document b')) = unat n + 1 \<and> validate cd b' = Inr () \<and>
       (\<exists>c. operation (edit_document (\<lambda>d. d\<lparr>version := STUDY_VERSION\<rparr>) b) = (Inr r, c) \<and>
          b' = edit_document (\<lambda>d. d\<lparr>revision := revision (document b')\<rparr>) c)"
  using transaction_cases [of cd n operation b]
proof (elim disjE exE conjE)
  fix r c m
  assume "check_revision b n = Inr ()" "operation (edit_document (\<lambda>d. d\<lparr>version := STUDY_VERSION\<rparr>) b) = (Inr r, c)"
    "checked_succ n = Some m" "validate cd (edit_document (\<lambda>d. d\<lparr>revision := m\<rparr>) c) = Inr ()"
    "transaction cd n operation b = (Inr r, edit_document (\<lambda>d. d\<lparr>revision := m\<rparr>) c)"
  then show ?thesis by (auto simp: check_revision_def err_if_Inr checked_succ_Some)
qed simp

section \<open>Import and export\<close>

text \<open>A validated bundle of an older version stays valid when it is upgraded.\<close>

lemma validate_state_upgrade:
  assumes "validate_state cd b electrical x = Inr ()"
  shows "validate_state cd (edit_document (\<lambda>d. d\<lparr>version := STUDY_VERSION\<rparr>) b) electrical x = Inr ()"
proof (cases x)
  case (Pair key s)
  have same: "require_artifact (edit_document (\<lambda>d. d\<lparr>version := STUDY_VERSION\<rparr>) b) = require_artifact b"
    "state_view cd (edit_document (\<lambda>d. d\<lparr>version := STUDY_VERSION\<rparr>) b) key = state_view cd b key"
    by (simp_all add: fun_eq_iff require_artifact_def state_view_def)
  show ?thesis
    using assms unfolding Pair validate_state_def split same
    by (auto simp: and_then_Inr err_if_Inr STUDY_VERSION_def split: option.splits)
qed

lemma validate_upgrade:
  assumes "validate cd b = Inr ()"
  shows "validate cd (edit_document (\<lambda>d. d\<lparr>version := STUDY_VERSION\<rparr>) b) = Inr ()"
proof -
  let ?b = "edit_document (\<lambda>d. d\<lparr>version := STUDY_VERSION\<rparr>) b"
  have req: "require_artifact ?b = require_artifact b" "require_layer ?b = require_layer b"
    by (simp_all add: fun_eq_iff require_artifact_def require_layer_def)
  have trial: "validate_trial ?b = validate_trial b" by (rule ext) (simp add: validate_trial_def req)
  have same: "validate_display ?b = validate_display b" "validate_experiment cd ?b = validate_experiment cd b"
    "validate_decision cd ?b = validate_decision cd b" "validate_goal cd (document ?b) = validate_goal cd (document b)"
    unfolding validate_display_def validate_experiment_def validate_decision_def validate_goal_def Let_def req trial by simp_all
  have doc: "check_order (document ?b) = check_order (document b)" "state_parents (document ?b) = state_parents (document b)"
    "goal_parents (document ?b) = goal_parents (document b)" "validate_pointers (document ?b) = validate_pointers (document b)"
    by (simp_all add: check_order_def state_parents_def goal_parents_def validate_pointers_def)
  have "validate_document (document ?b) n = Inr ()" if "validate_document (document b) n = Inr ()" for n
    using that by (auto simp: validate_document_def and_then_Inr err_if_Inr STUDY_VERSION_def)
  moreover have "try_each (validate_state cd ?b el) xs = Inr ()" if "try_each (validate_state cd b el) xs = Inr ()" for el xs
    using that unfolding try_each_Inr by (blast intro: validate_state_upgrade)
  ultimately show ?thesis
    using assms unfolding validate_def Let_def req same doc by (auto simp: and_then_Inr)
qed

text \<open>What \<open>serde_json\<close> documents for this format: the text of a bundle with finite numbers parses back to it,
  and its top level has no \<open>schema\<close> key (the document inside has).\<close>

definition json_roundtrip :: "('a, 'c) codec \<Rightarrow> study_bundle \<Rightarrow> bool" where
  "json_roundtrip cd b \<longleftrightarrow> (\<forall>t. bundle_json cd b = Inr t \<longrightarrow> parse_bundle cd t = Inr b \<and> parse_bundle_schema cd t = Inr None)"

lemma import_exported:
  assumes "export_study cd b = Inr t" "json_roundtrip cd b"
  shows "import_study cd t = Inr (edit_document (\<lambda>d. d\<lparr>version := STUDY_VERSION\<rparr>) b)"
proof -
  from assms(1) have ok: "validate cd b = Inr ()" "bundle_json cd b = Inr t" "\<not> MAX_BUNDLE_BYTES < byte_len t"
    by (auto simp: export_study_def and_then_Inr err_if_Inr)
  from assms(2) ok(2) have "parse_bundle cd t = Inr b" "parse_bundle_schema cd t = Inr None"
    by (simp_all add: json_roundtrip_def)
  with ok show ?thesis by (simp add: import_study_def)
qed


section \<open>What an operation may change\<close>

locale preorder_effect =
  fixes related :: "'s \<Rightarrow> 's \<Rightarrow> bool"
  assumes refl: "related s s"
    and trans: "related s t \<Longrightarrow> related t u \<Longrightarrow> related s u"
begin

lemma chained: "related s (snd m) \<Longrightarrow> (\<And>x. related (snd m) (snd (f x (snd m)))) \<Longrightarrow> related s (snd (then_do m f))"
  by (cases m) (auto simp: then_do_def intro: trans split: sum.split)

lemma chained_map: "(\<And>x s. related s (snd (f x s))) \<Longrightarrow> related s (snd (do_map f xs s))"
proof (induction xs arbitrary: s)
  case (Cons x xs)
  show ?case by (simp, intro chained Cons.prems Cons.IH) (simp add: refl)
qed (simp add: refl)

end

text \<open>Records are only ever added: artifacts, states, experiments and decisions keep their values, goals
  their identities, and the experiments their order.\<close>

definition grows :: "study_bundle \<Rightarrow> study_bundle \<Rightarrow> bool" where
  "grows b b' \<longleftrightarrow>
     (bundle_wf b \<longrightarrow> bundle_wf b') \<and> map_of (artifacts b) \<subseteq>\<^sub>m map_of (artifacts b') \<and>
     map_of (states (document b)) \<subseteq>\<^sub>m map_of (states (document b')) \<and>
     map_of (experiments (document b)) \<subseteq>\<^sub>m map_of (experiments (document b')) \<and>
     map_of (decisions_made (document b)) \<subseteq>\<^sub>m map_of (decisions_made (document b')) \<and>
     dom (map_of (goals (document b))) \<subseteq> dom (map_of (goals (document b'))) \<and>
     (\<exists>added. experiment_order (document b') = experiment_order (document b) @ added) \<and>
     doc_id (document b') = doc_id (document b) \<and> base_input (document b') = base_input (document b)"

text \<open>The pointer to the applied state and the revision.\<close>

definition steady :: "study_bundle \<Rightarrow> study_bundle \<Rightarrow> bool" where
  "steady b b' \<longleftrightarrow> applied_state (document b') = applied_state (document b) \<and> revision (document b') = revision (document b)"

interpretation growing: preorder_effect grows
proof
  fix b b' b'' assume "grows b b'" "grows b' b''"
  then show "grows b b''" by (auto simp: grows_def intro: map_le_trans)
qed (simp add: grows_def)

interpretation staying: preorder_effect steady
  by unfold_locales (simp_all add: steady_def)

lemma map_le_or_insert: "map_of m \<subseteq>\<^sub>m map_of (bt_or_insert k v m)"
  by (auto simp: map_le_def map_of_bt_or_insert split: if_splits)

lemma add_artifact_effect: "grows b (snd (add_artifact cd k t b))" "steady b (snd (add_artifact cd k t b))"
  by (auto simp: add_artifact_def grows_def steady_def Let_def bundle_wf_def map_le_or_insert bt_ok_or_insert split: sum.split)

lemma add_state_effect: "grows b (snd (add_state cd s b))" "steady b (snd (add_state cd s b))"
  by (auto simp: add_state_def grows_def steady_def bundle_wf_def map_le_or_insert bt_ok_or_insert split: sum.split)

lemma add_experiment_effect: "grows b (snd (add_experiment cd e b))" "steady b (snd (add_experiment cd e b))"
  by (auto simp: add_experiment_def grows_def steady_def bundle_wf_def map_le_or_insert bt_ok_or_insert split: sum.split)

lemma add_decision_effect: "grows b (snd (add_decision cd r b))" "steady b (snd (add_decision cd r b))"
  by (auto simp: add_decision_def grows_def steady_def bundle_wf_def map_le_or_insert bt_ok_or_insert split: sum.split)

lemma revise_goal_effect: "grows b (snd (revise_goal cd g b))" "steady b (snd (revise_goal cd g b))"
  by (auto simp: revise_goal_def grows_def steady_def bundle_wf_def bt_ok_insert map_of_bt_insert split: sum.split)

lemma inspect_effect: "grows b (snd (inspect key b))" "steady b (snd (inspect key b))"
  by (auto simp: inspect_def grows_def steady_def bundle_wf_def)

lemma capture_state_effect: "grows b (snd (capture_state cd cand parent label b))" "steady b (snd (capture_state cd cand parent label b))"
proof -
  show "grows b (snd (capture_state cd cand parent label b))"
    unfolding capture_state_def by (auto split: sum.split intro!: growing.refl growing.chained add_artifact_effect add_state_effect)
  show "steady b (snd (capture_state cd cand parent label b))"
    unfolding capture_state_def by (auto split: sum.split intro!: staying.refl staying.chained add_artifact_effect add_state_effect)
qed

section \<open>A concrete Study\<close>

definition key_of :: "string \<Rightarrow> string" where
  "key_of hex = ''sha256:'' @ hex @ replicate 60 (CHR ''0'')"

text \<open>Two unsolved states on two networks, the first one applied, and one comparison of them.\<close>

definition witness_bundle :: study_bundle where
  "witness_bundle = \<lparr>document = \<lparr>schema = ''tellegen-study'', version = 2, doc_id = ''study'', title = [], revision = 4, goals = [],
     states = [(key_of ''7361'', \<lparr>sn_parent = None, sn_formulation = DcOpf, sn_input = key_of ''616e'', sn_solution = None,
                  sn_view = None, sn_label = ''a''\<rparr>),
               (key_of ''7362'', \<lparr>sn_parent = Some (key_of ''7361''), sn_formulation = DcOpf, sn_input = key_of ''616d'', sn_solution = None,
                  sn_view = None, sn_label = ''b''\<rparr>)],
     experiments = [(key_of ''6530'', \<lparr>start_state = Some (key_of ''7361''), ex_goal = None, ex_kind = Counterfactual, ex_rationale = [],
                  ex_evidence = [], trials = [], result_states = [key_of ''7362''], assessed_recommendation = None, solve_count = 1,
                  termination_note = ''solve_failed''\<rparr>)],
     experiment_order = [key_of ''6530''], decisions_made = [], active_goal = None, inspected_state = Some (key_of ''7361''),
     recommended_state = Some (key_of ''7362''), applied_state = Some (key_of ''7361''), base_input = Some (key_of ''616e''),
     display = None, model_details = None\<rparr>,
     artifacts = [(key_of ''616d'', \<lparr>art_kind = PowerioIr, art_text = ''m''\<rparr>), (key_of ''616e'', \<lparr>art_kind = PowerioIr, art_text = ''n''\<rparr>)]\<rparr>"

definition witness_codec :: "(unit, unit) codec" where
  "witness_codec = \<lparr>cd_engine = witness_engine\<lparr>deserialize_module := (\<lambda>t. Inr \<lparr>pm_value = BalancedNetworkValue
       (if t = ''n'' then witness_net else witness_net\<lparr>buses := []\<rparr>), pm_history = [], pm_rest = []\<rparr>)\<rparr>,
     sha256 = (\<lambda>s. take 32 (map (\<lambda>c. word_of_int (byte c)) s @ replicate 32 0)),
     record_json = (\<lambda>v. Inr (case v of ArtifactValue a \<Rightarrow> CHR ''a'' # art_text a | StateValue s \<Rightarrow> CHR ''s'' # sn_label s
       | GoalValue g \<Rightarrow> ''g'' | ExperimentValue n e \<Rightarrow> CHR ''e'' # show_nat n | DecisionValue r \<Rightarrow> ''d'')),
     parse_view = (\<lambda>_. Inr witness_response), view_json = (\<lambda>_. Inr ''v''), parse_json = (\<lambda>_. Inr ()),
     parse_ir_header = (\<lambda>_. Inr (''pio-ir'', 2)), parse_bundle_schema = (\<lambda>_. Inr None),
     parse_bundle = (\<lambda>_. Inr witness_bundle), bundle_json = (\<lambda>_. Inr ''{}''), parse_journal = (\<lambda>_. Inl ''syntax''),
     parse_geo = (\<lambda>_. Inr (1, 0)), module_new = (\<lambda>v. \<lparr>pm_value = v, pm_history = [], pm_rest = []\<rparr>),
     dc_solution_instance = (\<lambda>_. \<lparr>dci_network = witness_net, dci_rest = []\<rparr>),
     ac_pf_solution_instance = (\<lambda>_. \<lparr>pfi_network = witness_net, specifications = [], initial_point = None\<rparr>),
     socwr_solution_instance = (\<lambda>_. \<lparr>opi_network = witness_net, opi_rest = []\<rparr>)\<rparr>"

lemma witness_bundle_parts:
  "validate_document (document witness_bundle) 2 = Inr ()" "check_artifacts witness_codec (artifacts witness_bundle) = Inr []"
  "check_chains ''states'' (state_parents (document witness_bundle)) = Inr ()" "check_order (document witness_bundle) = Inr ()"
  "check_chains ''goals'' (goal_parents (document witness_bundle)) = Inr ()"
  "sum_list (map (\<lambda>(_, a). byte_len (art_text a)) (artifacts witness_bundle)) = 2" "length (artifacts witness_bundle) = 2"
  "display (document witness_bundle) = None" "goals (document witness_bundle) = []" "decisions_made (document witness_bundle) = []"
  "validate_pointers (document witness_bundle) = Inr ()"
  by code_simp+

lemma witness_bundle_loops:
  "try_each (validate_state witness_codec witness_bundle []) (states (document witness_bundle)) = Inr ()"
  "try_each (validate_experiment witness_codec witness_bundle) (zip [0..<length (experiment_order (document witness_bundle))]
     (experiment_order (document witness_bundle))) = Inr ()"
  by code_simp+

lemma witness_bundle_base:
  "base_input (document witness_bundle) = Some (key_of ''616e'')" "require_artifact witness_bundle (key_of ''616e'') True = Inr ()"
  "index (artifacts witness_bundle) (key_of ''616e'') = Inr \<lparr>art_kind = PowerioIr, art_text = ''n''\<rparr>"
  "input_network witness_codec ''n'' = Inr witness_net"
  by code_simp+

lemma witness_bundle_valid: "validate witness_codec witness_bundle = Inr ()"
  by (simp add: validate_def Let_def witness_bundle_parts witness_bundle_loops witness_bundle_base MAX_BUNDLE_BYTES_def)

lemma witness_bundle_wf: "bundle_wf witness_bundle"
  unfolding bundle_wf_def by code_simp


lemma witness_export: "export_study witness_codec witness_bundle = Inr ''{}''"
  unfolding export_study_def witness_bundle_valid by (simp add: witness_codec_def MAX_BUNDLE_BYTES_def)

lemma witness_json: "json_roundtrip witness_codec witness_bundle"
  by (simp add: json_roundtrip_def witness_codec_def)


end
