(* ===== verification/Study_Ops.thy ===== *)
theory Study_Ops
  imports Document
begin

text \<open>
  The operations of the browser, command-line and agent adapters on a saved Study
  (\<open>src/crates/tellegen/src/study_ops.rs\<close>): creation, the nine requests of \<open>execute_study\<close> run
  inside a transaction, comparisons, demand bookkeeping and the asynchronous entry. The closure
  that polls for cancellation is a function from the number of the poll to its answer. Rendering
  of evidence, of a comparison and of a signed number are fields of the \<open>host\<close>.
\<close>

section \<open>Requests and results\<close>

record demand_adjustment =
  da_bus :: ElementKey
  delta_mw :: f64

record demand_change_record =
  dcr_bus :: ElementKey
  base_mw :: f64
  demand_mw :: f64
  dcr_delta :: f64

record comparison =
  cmp_goal :: "string option"
  cmp_left :: string
  cmp_right :: string
  left_value :: "f64 option"
  right_value :: "f64 option"
  improvement :: "f64 option"
  left_view :: "solve_response option"
  right_view :: "solve_response option"

text \<open>The request \<open>Apply\<close> is \<open>ApplyProposal\<close> here; the decision of that name belongs to the document.\<close>

datatype StudyOperation =
    Inspect string
  | Branch string string
  | ReviseGoal goal_revision
  | Compare string string "string option"
  | Propose string string search_options string
  | EditDemand string "string option" bool "demand_adjustment list" string
  | RestoreBase string "string option" string
  | RecordEvidence string "string option" bool "string option" string string
  | ApplyProposal string string "string option" string

record study_operation_result =
  op_summary :: study_summary
  op_experiment :: "string option"
  inspected_view :: "solve_response option"
  op_comparison :: "comparison option"
  op_demand_changes :: "demand_change_record list option"

record create_display =
  cdy_case :: string
  geo_layer :: string
  cdy_layers :: "string list"
  cdy_camera :: "camera option"
  cdy_diagram :: "diagram_camera option"

record create_study_request =
  cs_id :: string
  cs_title :: string
  cs_input :: string
  cs_base_input :: "string option"
  cs_formulation :: Problem
  cs_request :: string
  cs_interpretation :: string
  cs_objective :: "StudyObjective option"
  cs_decisions :: "decision_space option"
  cs_success :: "f64 option"
  cs_solution :: "string option"
  cs_view :: "solve_response option"
  cs_display :: "create_display option"
  cs_model_details :: "string option"

text \<open>The JSON objects the operations write as evidence, one constructor per literal.\<close>

datatype evidence_value =
    SolveEvidence nat
  | SavedEditEvidence bool "demand_change_record list option" "string option"
  | EditEvidence bool f64 bool "demand_change_record list option" nat
  | SearchEvidence "objective_result list" f64 nat string
  | TrialEvidence nat "string list" "string list" "f64 option" "string option"

record ('a, 'c) host =
  host_codec :: "('a, 'c) codec"
  evidence_json :: "evidence_value \<Rightarrow> string"
  comparison_json :: "comparison \<Rightarrow> (string, string) result"
  format_signed :: "f64 \<Rightarrow> string"

abbreviation host_engine :: "('a, 'c) host \<Rightarrow> ('a, 'c) engine" where
  "host_engine h \<equiv> cd_engine (host_codec h)"

section \<open>Demand bookkeeping\<close>

definition bus_identities :: "network \<Rightarrow> (nat \<times> string option) set" where
  "bus_identities net = set (map (\<lambda>b. (bus_id b, bus_uid b)) (buses net))"

definition same_bus_identities :: "network \<Rightarrow> network \<Rightarrow> (string, unit) result" where
  "same_bus_identities base_net current =
     err_if (bus_identities base_net \<noteq> bus_identities current) ''base case and selected state have different bus identities''"

definition demand_by_bus :: "network \<Rightarrow> (nat, f64) btree" where
  "demand_by_bus net = foldl (\<lambda>m l. bt_modify (load_bus l) 0 (\<lambda>v. v + load_p l) m) [] (filter load_in_service (loads net))"

definition demand_row :: "(nat, f64) btree \<Rightarrow> (nat, f64) btree \<Rightarrow> bus \<Rightarrow> demand_change_record option" where
  "demand_row original selected b =
     (let before = (case map_of original (bus_id b) of None \<Rightarrow> 0 | Some v \<Rightarrow> v);
          after = (case map_of selected (bus_id b) of None \<Rightarrow> 0 | Some v \<Rightarrow> v);
          change = after - before
      in if f64_1e_9 < \<bar>change\<bar>
         then Some \<lparr>dcr_bus = (case bus_uid b of Some u \<Rightarrow> Uid u | None \<Rightarrow> Id (as_i64 (bus_id b))), base_mw = before,
                demand_mw = after, dcr_delta = change\<rparr>
         else None)"

definition demand_changes :: "('a, 'c) codec \<Rightarrow> study_bundle \<Rightarrow> string \<Rightarrow> (string, demand_change_record list option) result" where
  "demand_changes cd b state =
     (case base_input (document b) of
        None \<Rightarrow> Inr None
      | Some key \<Rightarrow>
          and_then (ok_or ''base case input is unavailable'' (map_of (artifacts b) key)) (\<lambda>a.
          and_then (input_network cd (art_text a)) (\<lambda>base_net.
          and_then (state_network cd b state) (\<lambda>current.
          and_then (same_bus_identities base_net current) (\<lambda>_.
          Inr (Some (List.map_filter (demand_row (demand_by_bus base_net) (demand_by_bus current)) (buses current))))))))"

definition decision_level :: "network \<Rightarrow> decision_variable \<Rightarrow> (string, f64) result" where
  "decision_level net v =
     and_then (source_element_id net (parameter_axis (intervention_parameter (intervention v))) (dv_element v)) (\<lambda>i.
     case intervention v of
       BranchRating \<Rightarrow>
         and_then (ok_or ''branch ids start at 1'' (checked_sub1 i)) (\<lambda>row.
         and_then (ok_or ''branch is unavailable'' (nth_opt (branches net) row)) (\<lambda>br. Inr (rate_a br)))
     | ActiveDemand \<Rightarrow>
         and_then (err_if (\<not> (\<exists>b \<in> set (buses net). bus_id b = i)) ''bus is unavailable'') (\<lambda>_. Inr (bus_demand net i)))"

definition network_changes :: "network \<Rightarrow> network \<Rightarrow> decision_space \<Rightarrow> (string, f64 list) result" where
  "network_changes base_net current space =
     try_map (\<lambda>v. and_then (decision_level current v) (\<lambda>now. and_then (decision_level base_net v) (\<lambda>was. Inr (now - was)))) (ds_variables space)"

definition state_changes :: "('a, 'c) codec \<Rightarrow> study_bundle \<Rightarrow> string \<Rightarrow> string \<Rightarrow> decision_space \<Rightarrow> (string, f64 list) result" where
  "state_changes cd b anchor state space =
     and_then (state_network cd b anchor) (\<lambda>base_net. and_then (state_network cd b state) (\<lambda>current. network_changes base_net current space))"

section \<open>Comparison\<close>

definition compared_value :: "('a, 'c) codec \<Rightarrow> study_bundle \<Rightarrow> goal_revision \<Rightarrow> string \<Rightarrow> (string, f64 \<times> solve_response) result" where
  "compared_value cd b g state =
     and_then (state_view cd b state) (\<lambda>view.
     and_then (state_network cd b state) (\<lambda>net.
     and_then (state_changes cd b (anchor_state g) state (gr_decisions g)) (\<lambda>changes.
     and_then (evaluate view net (named_changes (gr_decisions g) changes) (gr_objective g)) (\<lambda>ev. Inr (ev_value ev, view)))))"

definition compare_states :: "('a, 'c) codec \<Rightarrow> study_bundle \<Rightarrow> string \<Rightarrow> string \<Rightarrow> string \<Rightarrow> (string, comparison) result" where
  "compare_states cd b left right key =
     and_then (ok_or ''goal revision is unavailable'' (map_of (goals (document b)) key)) (\<lambda>g.
     and_then (compared_value cd b g left) (\<lambda>(lv, lview).
     and_then (compared_value cd b g right) (\<lambda>(rv, rview).
     Inr \<lparr>cmp_goal = Some key, cmp_left = left, cmp_right = right, left_value = Some lv, right_value = Some rv,
          improvement = Some (lv - rv), left_view = Some lview, right_view = Some rview\<rparr>)))"

definition optional_view :: "('a, 'c) codec \<Rightarrow> study_bundle \<Rightarrow> string \<Rightarrow> (string, solve_response option) result" where
  "optional_view cd b key =
     and_then (ok_or ''state is unavailable'' (map_of (states (document b)) key)) (\<lambda>s.
     transpose_opt (map_option (\<lambda>_. state_view cd b key) (sn_view s)))"

definition compare_states_optional ::
  "('a, 'c) codec \<Rightarrow> study_bundle \<Rightarrow> string \<Rightarrow> string \<Rightarrow> string option \<Rightarrow> (string, comparison) result" where
  "compare_states_optional cd b left right goal =
     (case goal of
        Some key \<Rightarrow> compare_states cd b left right key
      | None \<Rightarrow>
          and_then (optional_view cd b left) (\<lambda>lview.
          and_then (optional_view cd b right) (\<lambda>rview.
          Inr \<lparr>cmp_goal = None, cmp_left = left, cmp_right = right, left_value = None, right_value = None, improvement = None,
               left_view = lview, right_view = rview\<rparr>)))"

section \<open>Demand edits and the base case\<close>

definition adjustment_label :: "('a, 'c) host \<Rightarrow> string \<Rightarrow> demand_adjustment list \<Rightarrow> string" where
  "adjustment_label h what adjustments =
     (case adjustments of
        [a] \<Rightarrow> ''Bus '' @ show_key (da_bus a) @ '': '' @ format_signed h (delta_mw a) @ '' MW''
      | _ \<Rightarrow> what @ '' at '' @ show_nat (length adjustments) @ '' buses'')"

definition bounded_adjustments :: "string \<Rightarrow> demand_adjustment list \<Rightarrow> (string, unit) result" where
  "bounded_adjustments message adjustments = err_if (adjustments = [] \<or> 65536 < int (length adjustments)) message"

definition balanced_text :: "('a, 'c) host \<Rightarrow> network \<Rightarrow> (string, string) result" where
  "balanced_text h net = serialize_module (host_engine h) (module_new (host_codec h) (BalancedNetworkValue net))"

text \<open>The network and the label of an unconstrained edit, or of a return to the base case (\<open>None\<close>).\<close>

definition edited_network ::
  "('a, 'c) host \<Rightarrow> study_bundle \<Rightarrow> string \<Rightarrow> demand_adjustment list option \<Rightarrow> (string, network \<times> string) result" where
  "edited_network h b state adjustments =
     (case adjustments of
        None \<Rightarrow>
          and_then (ok_or ''The base case is unavailable'' (base_input (document b))) (\<lambda>key.
          and_then (index (artifacts b) key) (\<lambda>a.
          and_then (input_network (host_codec h) (art_text a)) (\<lambda>net. Inr (net, ''Base case''))))
      | Some adj \<Rightarrow>
          and_then (state_network (host_codec h) b state) (\<lambda>net.
          and_then (bounded_adjustments ''Choose between 1 and 65536 demand changes'' adj) (\<lambda>_.
          and_then (apply_network_edits (e_load_new (host_engine h)) net (map (\<lambda>a. AddLoad (da_bus a) (delta_mw a)) adj)) (\<lambda>net'.
          Inr (net', adjustment_label h ''Demand changes'' adj)))))"

definition edit_saved_case ::
  "('a, 'c) host \<Rightarrow> string \<Rightarrow> string option \<Rightarrow> demand_adjustment list option \<Rightarrow> string \<Rightarrow> (nat \<Rightarrow> bool) \<Rightarrow> study_bundle
     \<Rightarrow> (study_bundle, string) stateful" where
  "edit_saved_case h state_id goal adjustments rationale cancelled b =
     (let cd = host_codec h; restore = (adjustments = None)
      in then_do (and_then (err_if (cancelled 0) ''cancelled'') (\<lambda>_.
           and_then (ok_or ''state is unavailable'' (map_of (states (document b)) state_id)) (\<lambda>state.
           and_then (edited_network h b state_id adjustments) (\<lambda>(net, label).
           and_then (balanced_text h net) (\<lambda>input.
           and_then (err_if (cancelled 1) ''cancelled'') (\<lambda>_. Inr (state, label, input)))))), b) (\<lambda>(state, label, input) b.
         then_do
           (case study_new (host_engine h) input (sn_formulation state) of
              Inr study \<Rightarrow>
                then_do (capture (view_json cd) (host_engine h) study [] 0, b) (\<lambda>exact b.
                then_do (capture_state cd exact (Some state_id) label b) (\<lambda>saved b. (Inr (saved, None), b)))
            | Inl err \<Rightarrow>
                then_do (add_artifact cd PowerioIr input b) (\<lambda>key b.
                then_do (add_state cd \<lparr>sn_parent = Some state_id, sn_formulation = sn_formulation state, sn_input = key, sn_solution = None,
                    sn_view = None, sn_label = label\<rparr> b) (\<lambda>saved b. (Inr (saved, Some err), b)))) (\<lambda>(result_state, failed) b.
         then_do (demand_changes cd b result_state, b) (\<lambda>rows b.
         then_do (add_artifact cd Evidence (evidence_json h (SavedEditEvidence restore rows failed)) b) (\<lambda>evidence b.
         then_do (add_experiment cd \<lparr>start_state = Some state_id, ex_goal = goal, ex_kind = Counterfactual, ex_rationale = rationale,
             ex_evidence = [evidence], trials = [], result_states = [result_state], assessed_recommendation = None, solve_count = 1,
             termination_note = (if failed \<noteq> None then ''solve_failed'' else ''completed'')\<rparr> b) (\<lambda>key b.
         then_do (inspect result_state b) (\<lambda>_ b.
         (Inr key, edit_document (\<lambda>d. d\<lparr>recommended_state := Some result_state\<rparr>) b))))))))"

text \<open>
  A goal-constrained edit: the selected state must be the anchor with the goal's own interventions,
  the increments land on permitted buses, and the sums stay within the declared limits.
\<close>

record edit_plan =
  plan_changes :: "f64 list"
  plan_edits :: "NetworkEdit list"
  plan_label :: string
  plan_input :: string

definition add_adjustment :: "network \<Rightarrow> decision_space \<Rightarrow> f64 list \<Rightarrow> demand_adjustment \<Rightarrow> (string, f64 list) result" where
  "add_adjustment current space changes a =
     and_then (err_if (\<not> is_finite (delta_mw a)) ''demand increments must be finite'') (\<lambda>_.
     and_then (source_element_id current AxisBus (da_bus a)) (\<lambda>bus_no.
     and_then (ok_or ''demand edit is outside the goal's permitted buses''
         (position (\<lambda>v. intervention v = ActiveDemand \<and> source_element_id current AxisBus (dv_element v) = Inr bus_no) (ds_variables space))) (\<lambda>i.
     Inr (changes[i := changes ! i + delta_mw a]))))"

definition plan_edit ::
  "('a, 'c) host \<Rightarrow> study_bundle \<Rightarrow> goal_revision \<Rightarrow> network \<Rightarrow> network \<Rightarrow> f64 list \<Rightarrow> demand_adjustment list \<Rightarrow> (string, edit_plan) result" where
  "plan_edit h b g anchor current changes adjustments =
     and_then (bounded_adjustments ''demand edits require between 1 and 65536 adjustments'' adjustments) (\<lambda>_.
     and_then (apply_network_edits (e_load_new (host_engine h)) anchor (decision_edits (gr_decisions g) changes)) (\<lambda>expected.
     and_then (balanced_text h expected) (\<lambda>expected_text.
     and_then (balanced_text h current) (\<lambda>current_text.
     and_then (err_if (expected_text \<noteq> current_text)
         ''selected state contains changes outside the goal's permitted interventions; revise the goal first'') (\<lambda>_.
     and_then (try_fold (add_adjustment current (gr_decisions g)) changes adjustments) (\<lambda>total.
     and_then (err_if (\<not> within_limits (gr_decisions g) total f64_1e_7)
         ''cumulative demand edits exceed the declared bounds, increments, budget or bus count'') (\<lambda>_.
     and_then (index (states (document b)) (anchor_state g)) (\<lambda>s.
     and_then (index (artifacts b) (sn_input s)) (\<lambda>a.
     Inr \<lparr>plan_changes = total, plan_edits = decision_edits (gr_decisions g) total,
          plan_label = adjustment_label h ''Demand edits'' adjustments, plan_input = art_text a\<rparr>)))))))))"

definition plan_restore ::
  "('a, 'c) host \<Rightarrow> study_bundle \<Rightarrow> goal_revision \<Rightarrow> network \<Rightarrow> network \<Rightarrow> (string, edit_plan) result" where
  "plan_restore h b g anchor current =
     and_then (ok_or ''original base case is unavailable in this Study'' (base_input (document b))) (\<lambda>key.
     and_then (index (artifacts b) key) (\<lambda>a.
     and_then (input_network (host_codec h) (art_text a)) (\<lambda>base_net.
     and_then (same_bus_identities base_net current) (\<lambda>_.
     and_then (network_changes anchor base_net (gr_decisions g)) (\<lambda>changes.
     Inr \<lparr>plan_changes = changes, plan_edits = [], plan_label = ''Original network base case'', plan_input = art_text a\<rparr>)))))"

text \<open>The solves of the plan, with the number of solves started.\<close>

definition run_plan ::
  "('a, 'c) host \<Rightarrow> Problem \<Rightarrow> goal_revision \<Rightarrow> edit_plan \<Rightarrow> bool \<Rightarrow> (nat \<Rightarrow> bool) \<Rightarrow> (string, exact_candidate) result \<times> nat" where
  "run_plan h problem g plan restore cancelled =
     (let finish = (\<lambda>st.
            and_then (objective_value (host_engine h) st (gr_objective g) (gr_decisions g) (plan_changes plan)) (\<lambda>v.
            capture (view_json (host_codec h)) (host_engine h) st (plan_changes plan) v))
      in if cancelled 0 then (Inl ''cancelled'', 0)
         else case study_new (host_engine h) (plan_input plan) problem of
           Inl e \<Rightarrow> (Inl e, 1)
         | Inr study \<Rightarrow>
             if restore then (finish study, 1)
             else if cancelled 1 then (Inl ''cancelled'', 1)
             else (case commit (host_engine h) study (plan_edits plan) of
               (Inl e, _) \<Rightarrow> (Inl e, 2)
             | (Inr _, committed) \<Rightarrow> (finish committed, 2)))"

definition record_plan ::
  "('a, 'c) host \<Rightarrow> string \<Rightarrow> string \<Rightarrow> bool \<Rightarrow> bool \<Rightarrow> edit_plan \<Rightarrow> string \<Rightarrow> (string, exact_candidate) result \<times> nat \<Rightarrow> study_bundle
     \<Rightarrow> (study_bundle, string) stateful" where
  "record_plan h state_id goal_id restore permitted plan rationale run b =
     (let cd = host_codec h; solves = snd run;
          record = \<lparr>start_state = Some state_id, ex_goal = Some goal_id, ex_kind = Counterfactual, ex_rationale = rationale,
             ex_evidence = [], trials = [], result_states = [], assessed_recommendation = None, solve_count = solves,
             termination_note = ''completed''\<rparr>
      in then_do
           (case fst run of
              Inl e \<Rightarrow> (Inr (record\<lparr>termination_note := e\<rparr>, None), b)
            | Inr exact \<Rightarrow>
                then_do (capture_state cd exact (Some state_id) (plan_label plan) b) (\<lambda>saved b.
                then_do (demand_changes cd b saved, b) (\<lambda>rows b.
                then_do (add_artifact cd Evidence (evidence_json h (EditEvidence restore (ec_value exact) permitted rows solves)) b) (\<lambda>evidence b.
                then_do (inspect saved b) (\<lambda>_ b.
                (Inr (record\<lparr>ex_evidence := [evidence], result_states := [saved], termination_note :=
                    (if restore then ''base_case_ready'' else if permitted then ''completed'' else ''demand_total_incomplete'')\<rparr>,
                  if restore \<or> permitted then Some saved else None), b)))))) (\<lambda>(done, candidate) b.
         then_do (add_experiment cd done b) (\<lambda>key b.
         let b = edit_document (\<lambda>d. d\<lparr>recommended_state := candidate\<rparr>) b
         in case candidate of
              None \<Rightarrow> (Inr key, b)
            | Some saved \<Rightarrow>
                then_do (add_decision cd \<lparr>dr_experiment = key, dr_state = Some saved, choice = Recommend,
                    dr_rationale = (if restore then ''Exact restoration of the retained network data, awaiting explicit application''
                      else ''Demand edits satisfy the declared intervention limits and total, awaiting explicit application''),
                    dr_evidence = ex_evidence done\<rparr> b) (\<lambda>_ b. (Inr key, b)))))"

definition counterfactual ::
  "('a, 'c) host \<Rightarrow> string \<Rightarrow> string option \<Rightarrow> demand_adjustment list option \<Rightarrow> bool \<Rightarrow> string \<Rightarrow> (nat \<Rightarrow> bool) \<Rightarrow> study_bundle
     \<Rightarrow> (study_bundle, string) stateful" where
  "counterfactual h state_id goal adjustments constrain rationale cancelled b =
     (if active_goal (document b) \<noteq> goal then (Inl ''operation requires the active goal revision'', b)
      else case (goal, constrain) of
        (Some goal_id, True) \<Rightarrow>
          then_do (and_then (ok_or ''goal is unavailable'' (map_of (goals (document b)) goal_id)) (\<lambda>g.
            and_then (ok_or ''state is unavailable'' (map_of (states (document b)) state_id)) (\<lambda>state.
            and_then (index (states (document b)) (anchor_state g)) (\<lambda>anchor_node.
            and_then (err_if (sn_formulation anchor_node \<noteq> sn_formulation state) ''goal and selected state use different formulations'') (\<lambda>_.
            and_then (state_network (host_codec h) b (anchor_state g)) (\<lambda>anchor.
            and_then (state_network (host_codec h) b state_id) (\<lambda>current.
            and_then (network_changes anchor current (gr_decisions g)) (\<lambda>changes.
            and_then (case adjustments of
                Some adj \<Rightarrow> plan_edit h b g anchor current changes adj
              | None \<Rightarrow> plan_restore h b g anchor current) (\<lambda>plan. Inr (g, state, plan))))))))), b) (\<lambda>(g, state, plan) b.
          let restore = (adjustments = None); permitted = feasible (gr_decisions g) (plan_changes plan) f64_1e_7
          in record_plan h state_id goal_id restore permitted plan rationale
               (run_plan h (sn_formulation state) g plan restore cancelled) b)
      | _ \<Rightarrow> edit_saved_case h state_id goal adjustments rationale cancelled b)"

section \<open>Proposals\<close>

definition canonical_text :: "('a, 'c) host \<Rightarrow> string \<Rightarrow> (string, string) result" where
  "canonical_text h t =
     and_then (deserialize_module (host_engine h) t) (\<lambda>m. serialize_module (host_engine h) (module_new (host_codec h) (pm_value m)))"

text \<open>
  The solves of a proposal: the anchor, the replacement that reaches the start, then the search with
  what is left of the budget. The result comes with the number of solves started before the search.
\<close>

definition run_search ::
  "('a, 'c) host \<Rightarrow> Problem \<Rightarrow> goal_revision \<Rightarrow> search_options \<Rightarrow> string \<Rightarrow> string \<Rightarrow> f64 list \<Rightarrow> (nat \<Rightarrow> bool)
     \<Rightarrow> (string, search_result) result \<times> nat" where
  "run_search h problem g options input start_input changes checkpoint =
     (let eng = host_engine h;
          search = (\<lambda>study solves polls.
            (and_then (save_instance_module eng study) (\<lambda>saved.
             and_then (canonical_text h saved) (\<lambda>now.
             and_then (canonical_text h start_input) (\<lambda>wanted.
             and_then (err_if (now \<noteq> wanted) ''starting state contains changes outside the selected goal's decisions'') (\<lambda>_.
             explore \<lparr>cx_engine = eng, cx_view = view_json (host_codec h), cx_objective = gr_objective g, cx_space = gr_decisions g,
                 cx_options = options\<lparr>max_solves := max_solves options - solves\<rparr>, cx_checkpoint = (\<lambda>n. checkpoint (polls + n))\<rparr>
               study changes)))), solves))
      in if checkpoint 0 then (Inl ''cancelled'', 0)
         else if max_solves options = 0 then (Inl ''solve_budget'', 0)
         else case study_new eng input problem of
           Inl e \<Rightarrow> (Inl e, 1)
         | Inr study \<Rightarrow>
             if list_ex (\<lambda>x. f64_1e_10 < \<bar>x\<bar>) changes then
               if checkpoint 1 then (Inl ''cancelled'', 1)
               else if max_solves options \<le> 1 then (Inl ''solve_budget'', 1)
               else (case replace_edits eng study (decision_edits (gr_decisions g) changes) of
                 (Inl e, _) \<Rightarrow> (Inl e, 2)
               | (Inr _, moved) \<Rightarrow> search moved 2 2)
             else search study 1 1)"

record trial_log =
  tl_states :: "string option list"
  tl_results :: "string list"
  tl_trials :: "trial_record list"
  tl_recommendation :: "string option"

definition save_trial ::
  "('a, 'c) host \<Rightarrow> string \<Rightarrow> nat \<Rightarrow> search_trial \<Rightarrow> trial_log \<Rightarrow> study_bundle \<Rightarrow> (study_bundle, trial_log) stateful" where
  "save_trial h state_id i t acc b =
     (let cd = host_codec h;
          parent = (case Option.bind (tr_parent t) (\<lambda>j. Option.bind (nth_opt (tl_states acc) j) id) of None \<Rightarrow> state_id | Some k \<Rightarrow> k);
          exact_v = map_option ec_value (tr_exact t)
      in then_do (case tr_exact t of
             None \<Rightarrow> (Inr None, b)
           | Some exact \<Rightarrow> then_do (capture_state cd exact (Some parent) (''Trial '' @ show_nat (i + 1)) b) (\<lambda>k b. (Inr (Some k), b))) (\<lambda>saved b.
         then_do (add_artifact cd Evidence (evidence_json h (TrialEvidence (tr_iteration t) (tr_added t) (tr_removed t)
             (map_option (\<lambda>v. v - tr_predicted t) exact_v) (tr_failure t))) b) (\<lambda>evidence b.
         (Inr \<lparr>tl_states = tl_states acc @ [saved],
            tl_results = tl_results acc @ (case saved of None \<Rightarrow> [] | Some k \<Rightarrow> [k]),
            tl_trials = tl_trials acc @ [\<lparr>trc_changes = tr_changes t, predicted_value = Some (tr_predicted t), exact_value = exact_v,
              trc_state = saved, accepted = tr_accepted t, failure = tr_failure t, trc_evidence = [evidence]\<rparr>],
            tl_recommendation = (if tr_accepted t then saved else tl_recommendation acc)\<rparr>, b))))"

fun save_trials ::
  "('a, 'c) host \<Rightarrow> string \<Rightarrow> nat \<Rightarrow> search_trial list \<Rightarrow> trial_log \<Rightarrow> study_bundle \<Rightarrow> (study_bundle, trial_log) stateful" where
  "save_trials h state_id i [] acc b = (Inr acc, b)"
| "save_trials h state_id i (t # ts) acc b = then_do (save_trial h state_id i t acc b) (\<lambda>acc b. save_trials h state_id (i + 1) ts acc b)"

text \<open>The planning record of a finished search, and the state it recommends.\<close>

definition record_search ::
  "('a, 'c) host \<Rightarrow> string \<Rightarrow> experiment_record \<Rightarrow> (string, search_result) result \<Rightarrow> study_bundle
     \<Rightarrow> (study_bundle, experiment_record \<times> string option) stateful" where
  "record_search h state_id record run b =
     (case run of
        Inl e \<Rightarrow> (Inr (record\<lparr>termination_note := e\<rparr>, None), b)
      | Inr search \<Rightarrow>
          let solves = solve_count record + sr_solve_count search
          in then_do (add_artifact (host_codec h) Evidence (evidence_json h (SearchEvidence (sr_directions search) (sr_baseline search) solves
                (sr_termination search))) b) (\<lambda>evidence b.
             then_do (save_trials h state_id 0 (sr_trials search)
                 \<lparr>tl_states = [], tl_results = [], tl_trials = [], tl_recommendation = None\<rparr> b) (\<lambda>saved b.
             let keep = (tl_recommendation saved = None \<and> sr_best search \<noteq> None)
             in (Inr (record\<lparr>solve_count := solves, termination_note := sr_termination search, ex_evidence := [evidence],
                    trials := tl_trials saved, result_states := tl_results saved @ (if keep then [state_id] else [])\<rparr>,
                  if keep then Some state_id else tl_recommendation saved), b))))"

definition proposal_start ::
  "('a, 'c) codec \<Rightarrow> study_bundle \<Rightarrow> string \<Rightarrow> string \<Rightarrow> (string, goal_revision \<times> Problem \<times> f64 list \<times> string \<times> string) result" where
  "proposal_start cd b state_id goal_id =
     and_then (err_if (active_goal (document b) \<noteq> Some goal_id) ''proposal requires the active goal revision'') (\<lambda>_.
     and_then (ok_or ''goal is unavailable'' (map_of (goals (document b)) goal_id)) (\<lambda>g.
     and_then (ok_or ''starting state is unavailable'' (map_of (states (document b)) state_id)) (\<lambda>state.
     and_then (ok_or ''goal anchor is unavailable'' (map_of (states (document b)) (anchor_state g))) (\<lambda>anchor.
     and_then (err_if (sn_formulation state \<noteq> sn_formulation anchor) ''goal and starting state use different formulations'') (\<lambda>_.
     and_then (state_changes cd b (anchor_state g) state_id (gr_decisions g)) (\<lambda>changes.
     and_then (ok_or ''goal input is unavailable'' (map_of (artifacts b) (sn_input anchor))) (\<lambda>input.
     and_then (ok_or ''starting input is unavailable'' (map_of (artifacts b) (sn_input state))) (\<lambda>start_input.
     Inr (g, sn_formulation state, changes, art_text input, art_text start_input)))))))))"

definition recommend_best ::
  "('a, 'c) codec \<Rightarrow> string \<Rightarrow> string list \<Rightarrow> string option \<Rightarrow> study_bundle \<Rightarrow> (study_bundle, string) stateful" where
  "recommend_best cd key evidence recommendation b =
     (case recommendation of
        None \<Rightarrow> (Inr key, b)
      | Some best \<Rightarrow>
          then_do (add_decision cd \<lparr>dr_experiment = key, dr_state = Some best, choice = Recommend,
              dr_rationale = ''Best feasible candidate verified by exact solves within the declared search budget'',
              dr_evidence = evidence\<rparr> b) (\<lambda>_ b.
          (Inr key, edit_document (\<lambda>d. d\<lparr>recommended_state := Some best\<rparr>) b)))"

definition record_proposal ::
  "('a, 'c) host \<Rightarrow> string \<Rightarrow> string \<Rightarrow> string \<Rightarrow> (string, search_result) result \<times> nat \<Rightarrow> study_bundle \<Rightarrow> (study_bundle, string) stateful" where
  "record_proposal h state_id goal_id rationale run b =
     then_do (record_search h state_id \<lparr>start_state = Some state_id, ex_goal = Some goal_id, ex_kind = Planning,
         ex_rationale = rationale, ex_evidence = [], trials = [], result_states = [], assessed_recommendation = None,
         solve_count = snd run, termination_note = ''completed''\<rparr> (fst run) b) (\<lambda>(done, recommendation) b.
     then_do (add_experiment (host_codec h) done b) (\<lambda>key b. recommend_best (host_codec h) key (ex_evidence done) recommendation b))"

definition propose ::
  "('a, 'c) host \<Rightarrow> string \<Rightarrow> string \<Rightarrow> search_options \<Rightarrow> string \<Rightarrow> (nat \<Rightarrow> bool) \<Rightarrow> study_bundle \<Rightarrow> (study_bundle, string) stateful" where
  "propose h state_id goal_id options rationale checkpoint b =
     then_do (proposal_start (host_codec h) b state_id goal_id, b) (\<lambda>(g, problem, changes, input, start_input) b.
     record_proposal h state_id goal_id rationale (run_search h problem g options input start_input changes checkpoint) b)"

section \<open>Requests\<close>

definition plain_record :: "string \<Rightarrow> string option \<Rightarrow> ExperimentKind \<Rightarrow> string \<Rightarrow> string list \<Rightarrow> string \<Rightarrow> experiment_record" where
  "plain_record state goal k rationale evidence note = \<lparr>start_state = Some state, ex_goal = goal, ex_kind = k, ex_rationale = rationale,
     ex_evidence = evidence, trials = [], result_states = [], assessed_recommendation = None, solve_count = 0, termination_note = note\<rparr>"

definition approval_matches ::
  "study_document \<Rightarrow> experiment_record \<Rightarrow> string \<Rightarrow> string option \<Rightarrow> string \<Rightarrow> bool" where
  "approval_matches d record state goal base_state \<longleftrightarrow>
     ex_kind record \<in> {Planning, Counterfactual} \<and> ex_goal record = goal \<and> start_state record = Some base_state \<and>
     active_goal d = goal \<and> recommended_state d = Some state \<and> state \<in> set (result_states record)"

definition apply_proposal ::
  "('a, 'c) codec \<Rightarrow> string \<Rightarrow> string \<Rightarrow> string option \<Rightarrow> string \<Rightarrow> study_bundle \<Rightarrow> (study_bundle, string) stateful" where
  "apply_proposal cd proposal state goal base_state b =
     then_do (and_then (ok_or ''proposal is unavailable'' (map_of (experiments (document b)) proposal)) (\<lambda>record.
       and_then (err_if (\<not> approval_matches (document b) record state goal base_state)
         ''proposal approval no longer matches the goal, base and recommended state'') (\<lambda>_. Inr record)), b) (\<lambda>record b.
     then_do (add_decision cd \<lparr>dr_experiment = proposal, dr_state = Some state, choice = Apply,
         dr_rationale = ''Explicitly applied the proposal bound to this goal and base state'', dr_evidence = ex_evidence record\<rparr> b) (\<lambda>_ b.
     then_do (inspect state (edit_document (\<lambda>d. d\<lparr>applied_state := Some state\<rparr>) b)) (\<lambda>_ b. (Inr proposal, b))))"

definition study_operation ::
  "('a, 'c) host \<Rightarrow> (nat \<Rightarrow> bool) \<Rightarrow> StudyOperation \<Rightarrow> study_bundle
     \<Rightarrow> (study_bundle, string option \<times> comparison option) stateful" where
  "study_operation h cancelled op b =
     (let cd = host_codec h; recorded = (\<lambda>m. then_do m (\<lambda>key b. (Inr (Some key, None), b)))
      in case op of
        Inspect state \<Rightarrow> then_do (inspect state b) (\<lambda>_ b. (Inr (None, None), b))
      | Branch state rationale \<Rightarrow>
          then_do (inspect state b) (\<lambda>_ b.
          recorded (add_experiment cd (plain_record state (active_goal (document b)) Inspection rationale [] ''branch_selected'') b))
      | ReviseGoal g \<Rightarrow> then_do (revise_goal cd g b) (\<lambda>_ b. (Inr (None, None), b))
      | Compare left right goal \<Rightarrow>
          then_do (compare_states_optional cd b left right goal, b) (\<lambda>cmp b.
          then_do (comparison_json h cmp, b) (\<lambda>t b.
          then_do (add_artifact cd Evidence t b) (\<lambda>evidence b.
          then_do (add_experiment cd (plain_record left goal Inspection
              ''Compare exact saved candidates under the selected goal revision'' [evidence] ''completed'') b) (\<lambda>key b.
          (Inr (Some key, Some cmp), b)))))
      | EditDemand state goal constrain changes rationale \<Rightarrow>
          recorded (counterfactual h state goal (Some changes) constrain rationale cancelled b)
      | RestoreBase state goal rationale \<Rightarrow> recorded (counterfactual h state goal None False rationale cancelled b)
      | RecordEvidence state goal sensitivity assessed rationale evidence \<Rightarrow>
          then_do (add_artifact cd Evidence evidence b) (\<lambda>artifact b.
          recorded (add_experiment cd ((plain_record state goal
            (if assessed \<noteq> None then Challenge else if sensitivity then Sensitivity else Inspection) rationale [artifact] ''completed'')
            \<lparr>assessed_recommendation := assessed\<rparr>) b))
      | Propose state goal options rationale \<Rightarrow>
          then_do (validate_options options, b) (\<lambda>_ b. recorded (propose h state goal options rationale cancelled b))
      | ApplyProposal proposal state goal base_state \<Rightarrow> recorded (apply_proposal cd proposal state goal base_state b))"

definition operation_result ::
  "('a, 'c) codec \<Rightarrow> study_bundle \<Rightarrow> string option \<Rightarrow> comparison option \<Rightarrow> (string, study_operation_result) result" where
  "operation_result cd b experiment cmp =
     and_then (case inspected_state (document b) of
         None \<Rightarrow> Inr None
       | Some state \<Rightarrow>
           and_then (index (states (document b)) state) (\<lambda>s.
           if sn_view s \<noteq> None then and_then (state_view cd b state) (\<lambda>view. Inr (Some view)) else Inr None)) (\<lambda>shown.
     and_then (summary 8 b) (\<lambda>overview.
     and_then (case inspected_state (document b) of None \<Rightarrow> Inr None | Some state \<Rightarrow> demand_changes cd b state) (\<lambda>rows.
     Inr \<lparr>op_summary = overview, op_experiment = experiment, inspected_view = shown, op_comparison = cmp, op_demand_changes = rows\<rparr>)))"

definition execute_study ::
  "('a, 'c) host \<Rightarrow> (nat \<Rightarrow> bool) \<Rightarrow> 64 word \<Rightarrow> StudyOperation \<Rightarrow> study_bundle \<Rightarrow> (study_bundle, study_operation_result) stateful" where
  "execute_study h cancelled expected op b =
     then_do (and_then (check_revision b expected) (\<lambda>_. validate (host_codec h) b), b) (\<lambda>_ b.
     then_do (transaction (host_codec h) expected (study_operation h cancelled op) b) (\<lambda>(experiment, cmp) b.
     (operation_result (host_codec h) b experiment cmp, b)))"

text \<open>The asynchronous entry: a proposal runs on a copy, any other request as above and uncancelled.\<close>

definition execute_study_async ::
  "('a, 'c) host \<Rightarrow> (nat \<Rightarrow> bool) \<Rightarrow> 64 word \<Rightarrow> StudyOperation \<Rightarrow> study_bundle \<Rightarrow> (study_bundle, study_operation_result) stateful" where
  "execute_study_async h checkpoint expected op b =
     (case op of
        Propose state goal options rationale \<Rightarrow>
          then_do (and_then (check_revision b expected) (\<lambda>_. and_then (validate (host_codec h) b) (\<lambda>_. validate_options options)), b) (\<lambda>_ b.
          case propose h state goal options rationale checkpoint b of
            (Inl e, _) \<Rightarrow> (Inl e, b)
          | (Inr experiment, candidate) \<Rightarrow>
              then_do (transaction (host_codec h) expected (\<lambda>_. (Inr (), candidate)) b) (\<lambda>_ b.
              (operation_result (host_codec h) b (Some experiment) None, b)))
      | _ \<Rightarrow> execute_study h (\<lambda>_. False) expected op b)"

section \<open>Creation\<close>

definition create_display_context ::
  "('a, 'c) codec \<Rightarrow> create_display \<Rightarrow> study_bundle \<Rightarrow> (study_bundle, unit) stateful" where
  "create_display_context cd dsp b =
     then_do (add_artifact cd GeoLayer (geo_layer dsp) b) (\<lambda>geo b.
     then_do (do_map (\<lambda>t. add_artifact cd GeoLayer t) (cdy_layers dsp) b) (\<lambda>ls b.
     (Inr (), edit_document (\<lambda>d. d\<lparr>display := Some \<lparr>case_id = cdy_case dsp, geography = geo, layers = ls, dsp_camera = cdy_camera dsp,
        dsp_diagram = cdy_diagram dsp\<rparr>\<rparr>) b)))"

definition create_goal ::
  "('a, 'c) codec \<Rightarrow> create_study_request \<Rightarrow> (string, (StudyObjective \<times> decision_space) option) result" where
  "create_goal cd req =
     (case (cs_objective req, cs_decisions req) of
        (Some obj, Some space) \<Rightarrow>
          and_then (validate_space (conic (cd_engine cd)) space (cs_formulation req)) (\<lambda>_.
          and_then (validate_objective obj space) (\<lambda>_. Inr (Some (obj, space))))
      | (None, None) \<Rightarrow> Inr None
      | _ \<Rightarrow> Inl ''A planning goal requires both an objective and permitted changes'')"

text \<open>The starting state: a saved result, an exact solve for a goal, or an unsolved input.\<close>

definition create_root ::
  "('a, 'c) host \<Rightarrow> create_study_request \<Rightarrow> (StudyObjective \<times> decision_space) option \<Rightarrow> study_bundle
     \<Rightarrow> (study_bundle, string \<times> nat) stateful" where
  "create_root h req goal b =
     (let cd = host_codec h; eng = host_engine h; label = ''Starting point''
      in case (cs_solution req, cs_view req) of
        (Some solution, Some view) \<Rightarrow>
          then_do (view_json cd view, b) (\<lambda>shown b.
          then_do (capture_state cd \<lparr>ec_input = cs_input req, ec_solution = solution, ec_view = shown, ec_changes = [], ec_value = 0\<rparr>
            None label b) (\<lambda>key b. (Inr (key, 0), b)))
      | (None, None) \<Rightarrow>
          (case goal of
             Some (obj, space) \<Rightarrow>
               (let changes = replicate (length (ds_variables space)) 0
                in then_do (and_then (study_new eng (cs_input req) (cs_formulation req)) (\<lambda>study.
                     and_then (check_decision_state eng study space changes) (\<lambda>_.
                     and_then (objective_value eng study obj space changes) (\<lambda>v.
                     capture (view_json cd) eng study changes v))), b) (\<lambda>exact b.
                   then_do (capture_state cd exact None label b) (\<lambda>key b. (Inr (key, 1), b))))
           | None \<Rightarrow>
               then_do (add_artifact cd PowerioIr (cs_input req) b) (\<lambda>input b.
               then_do (add_state cd \<lparr>sn_parent = None, sn_formulation = cs_formulation req, sn_input = input, sn_solution = None,
                 sn_view = None, sn_label = label\<rparr> b) (\<lambda>key b. (Inr (key, 0), b))))
      | _ \<Rightarrow> (Inl ''A saved result requires both its solution and display values'', b))"

definition create_pointers ::
  "('a, 'c) codec \<Rightarrow> create_study_request \<Rightarrow> (StudyObjective \<times> decision_space) option \<Rightarrow> string \<Rightarrow> study_bundle
     \<Rightarrow> (study_bundle, unit) stateful" where
  "create_pointers cd req goal root b =
     (let b = edit_document (\<lambda>d. d\<lparr>applied_state := Some root, inspected_state := Some root\<rparr>) b
      in case goal of
           None \<Rightarrow> (Inr (), b)
         | Some (obj, space) \<Rightarrow>
             then_do (revise_goal cd \<lparr>gr_parent = None, anchor_state = root, gr_request = cs_request req,
                 gr_interpretation = cs_interpretation req, gr_objective = obj, gr_decisions = space,
                 success_value = cs_success req\<rparr> b) (\<lambda>_ b. (Inr (), b)))"

definition record_start_solve :: "('a, 'c) host \<Rightarrow> string \<Rightarrow> nat \<Rightarrow> study_bundle \<Rightarrow> (study_bundle, unit) stateful" where
  "record_start_solve h root solves b =
     (if solves = 0 then (Inr (), b)
      else then_do (add_artifact (host_codec h) Evidence (evidence_json h (SolveEvidence solves)) b) (\<lambda>evidence b.
           then_do (add_experiment (host_codec h) ((plain_record root (active_goal (document b)) Counterfactual ''Solve the starting case''
             [evidence] ''completed'')\<lparr>solve_count := solves\<rparr>) b) (\<lambda>_ b. (Inr (), b))))"

definition create_contents ::
  "('a, 'c) host \<Rightarrow> create_study_request \<Rightarrow> string \<Rightarrow> study_bundle \<Rightarrow> (study_bundle, unit) stateful" where
  "create_contents h req base_text b =
     (let cd = host_codec h
      in then_do (add_artifact cd PowerioIr base_text b) (\<lambda>base_key b.
         then_do (let b = edit_document (\<lambda>d. d\<lparr>base_input := Some base_key\<rparr>) b
                  in case cs_display req of None \<Rightarrow> (Inr (), b) | Some dsp \<Rightarrow> create_display_context cd dsp b) (\<lambda>_ b.
         then_do (create_goal cd req, edit_document (\<lambda>d. d\<lparr>model_details := cs_model_details req\<rparr>) b) (\<lambda>goal b.
         then_do (create_root h req goal b) (\<lambda>(root, solves) b.
         then_do (create_pointers cd req goal root b) (\<lambda>_ b.
         then_do (record_start_solve h root solves b) (\<lambda>_ b. (validate cd b, b))))))))"

definition create_study :: "('a, 'c) host \<Rightarrow> create_study_request \<Rightarrow> (string, study_bundle) result" where
  "create_study h req =
     (let cd = host_codec h; base_text = (case cs_base_input req of None \<Rightarrow> cs_input req | Some t \<Rightarrow> t)
      in and_then (input_network cd base_text) (\<lambda>base_net.
         and_then (input_network cd (cs_input req)) (\<lambda>current.
         and_then (same_bus_identities base_net current) (\<lambda>_.
         and_then (empty_bundle (cs_id req) (cs_title req)) (\<lambda>b.
         case create_contents h req base_text b of
           (Inl e, _) \<Rightarrow> Inl e
         | (Inr _, b) \<Rightarrow> Inr b)))))"

section \<open>What a request may change\<close>

lemmas effects = add_artifact_effect add_state_effect add_experiment_effect add_decision_effect revise_goal_effect inspect_effect
  capture_state_effect

lemma recommend_effect [simp]:
  "grows b (edit_document (\<lambda>d. d\<lparr>recommended_state := v\<rparr>) b)" "steady b (edit_document (\<lambda>d. d\<lparr>recommended_state := v\<rparr>) b)"
  by (simp_all add: grows_def steady_def bundle_wf_def)

lemma counter_effect [simp]:
  "grows b (edit_document (\<lambda>d. d\<lparr>revision := n\<rparr>) b)" "grows b (edit_document (\<lambda>d. d\<lparr>version := v\<rparr>) b)"
  "grows b (edit_document (\<lambda>d. d\<lparr>applied_state := a\<rparr>) b)"
  by (simp_all add: grows_def bundle_wf_def)

lemma edit_saved_case_effect:
  "grows b (snd (edit_saved_case h s g adj why c b))" "steady b (snd (edit_saved_case h s g adj why c b))"
proof -
  show "grows b (snd (edit_saved_case h s g adj why c b))"
    unfolding edit_saved_case_def Let_def
    by (auto intro!: growing.chained effects growing.refl split: prod.split sum.split)
  show "steady b (snd (edit_saved_case h s g adj why c b))"
    unfolding edit_saved_case_def Let_def
    by (auto intro!: staying.chained effects staying.refl split: prod.split sum.split)
qed

lemma recommended_decision:
  "grows b (snd (add_decision cd r (edit_document (\<lambda>d. d\<lparr>recommended_state := v\<rparr>) b)))"
  "steady b (snd (add_decision cd r (edit_document (\<lambda>d. d\<lparr>recommended_state := v\<rparr>) b)))"
  by (rule growing.trans [OF recommend_effect(1) add_decision_effect(1)], rule staying.trans [OF recommend_effect(2) add_decision_effect(2)])

lemma record_plan_effect:
  "grows b (snd (record_plan h s g r p plan why run b))" "steady b (snd (record_plan h s g r p plan why run b))"
proof -
  show "grows b (snd (record_plan h s g r p plan why run b))"
    unfolding record_plan_def Let_def
    by (auto intro!: growing.chained recommended_decision effects growing.refl split: prod.split sum.split option.split)
  show "steady b (snd (record_plan h s g r p plan why run b))"
    unfolding record_plan_def Let_def
    by (auto intro!: staying.chained recommended_decision effects staying.refl split: prod.split sum.split option.split)
qed

lemma counterfactual_effect:
  "grows b (snd (counterfactual h s g adj k why c b))" "steady b (snd (counterfactual h s g adj k why c b))"
proof -
  show "grows b (snd (counterfactual h s g adj k why c b))"
    unfolding counterfactual_def Let_def
    by (auto intro!: growing.chained edit_saved_case_effect record_plan_effect growing.refl split: prod.split option.split bool.split)
  show "steady b (snd (counterfactual h s g adj k why c b))"
    unfolding counterfactual_def Let_def
    by (auto intro!: staying.chained edit_saved_case_effect record_plan_effect staying.refl split: prod.split option.split bool.split)
qed

lemma save_trials_effect:
  "grows b (snd (save_trials h s i ts acc b))" "steady b (snd (save_trials h s i ts acc b))"
proof -
  have "grows b (snd (save_trial h s i t acc b))" "steady b (snd (save_trial h s i t acc b))" for i t acc b
    unfolding save_trial_def Let_def
    by (auto intro!: growing.chained staying.chained effects growing.refl staying.refl split: option.split)
  then show "grows b (snd (save_trials h s i ts acc b))" "steady b (snd (save_trials h s i ts acc b))"
    by (induction h s i ts acc b rule: save_trials.induct)
      (auto intro!: growing.chained staying.chained growing.refl staying.refl)
qed

lemma record_search_effect:
  "grows b (snd (record_search h s record run b))" "steady b (snd (record_search h s record run b))"
  unfolding record_search_def Let_def
  by (auto intro!: growing.chained staying.chained effects save_trials_effect growing.refl staying.refl split: sum.split)

lemma record_proposal_effect:
  "grows b (snd (record_proposal h s g why run b))" "steady b (snd (record_proposal h s g why run b))"
  unfolding record_proposal_def recommend_best_def
  by (auto intro!: growing.chained staying.chained record_search_effect effects growing.refl staying.refl split: option.split)

lemma propose_effect:
  "grows b (snd (propose h s g opt why c b))" "steady b (snd (propose h s g opt why c b))"
  unfolding propose_def
  by (auto intro!: growing.chained staying.chained record_proposal_effect growing.refl staying.refl split: prod.split)

lemma apply_proposal_effect: "grows b (snd (apply_proposal cd p s g base_state b))"
proof -
  have "grows x (snd (inspect s (edit_document (\<lambda>d. d\<lparr>applied_state := Some s\<rparr>) x)))" for x
    by (rule growing.trans [OF counter_effect(3) inspect_effect(1)])
  then show ?thesis
    unfolding apply_proposal_def by (auto intro!: growing.chained effects growing.refl)
qed

definition is_apply :: "StudyOperation \<Rightarrow> bool" where
  "is_apply op \<longleftrightarrow> (case op of ApplyProposal _ _ _ _ \<Rightarrow> True | _ \<Rightarrow> False)"

lemma study_operation_effect:
  "grows b (snd (study_operation h c op b))" "\<not> is_apply op \<Longrightarrow> steady b (snd (study_operation h c op b))"
proof -
  show "grows b (snd (study_operation h c op b))"
    unfolding study_operation_def Let_def
    by (cases op) (auto intro!: growing.chained effects counterfactual_effect propose_effect apply_proposal_effect growing.refl)
  show "\<not> is_apply op \<Longrightarrow> steady b (snd (study_operation h c op b))"
    unfolding study_operation_def Let_def
    by (cases op) (auto simp: is_apply_def intro!: staying.chained effects counterfactual_effect propose_effect staying.refl)
qed

text \<open>Either nothing was published, or one validated revision that only adds to the history.\<close>

definition published_once :: "('a, 'c) codec \<Rightarrow> 64 word \<Rightarrow> study_bundle \<Rightarrow> study_bundle \<Rightarrow> bool" where
  "published_once cd n b b' \<longleftrightarrow> b' = b \<or>
     (revision (document b) = n \<and> unat (revision (document b')) = unat n + 1 \<and> validate cd b = Inr () \<and> validate cd b' = Inr () \<and>
      grows b b')"

lemma transaction_published:
  assumes "validate cd b = Inr ()" "\<And>x. grows b x \<Longrightarrow> grows b (snd (operation x))"
  shows "published_once cd n b (snd (transaction cd n operation b))"
  using transaction_cases [of cd n operation b]
proof (elim disjE exE conjE)
  fix r c m
  assume ok: "check_revision b n = Inr ()" "operation (edit_document (\<lambda>d. d\<lparr>version := STUDY_VERSION\<rparr>) b) = (Inr r, c)"
    "checked_succ n = Some m" "validate cd (edit_document (\<lambda>d. d\<lparr>revision := m\<rparr>) c) = Inr ()"
    "transaction cd n operation b = (Inr r, edit_document (\<lambda>d. d\<lparr>revision := m\<rparr>) c)"
  have "grows b c" using assms(2) [OF counter_effect(2)] ok(2) by (metis snd_conv)
  then have "grows b (edit_document (\<lambda>d. d\<lparr>revision := m\<rparr>) c)" by (rule growing.trans) simp
  with ok assms(1) show ?thesis by (simp add: published_once_def check_revision_def err_if_Inr checked_succ_Some)
qed (simp add: published_once_def)

text \<open>The bundle after \<open>execute_study\<close> is that after its transaction, or the given one.\<close>

lemma execute_study_bundle:
  "snd (execute_study h c n op b) = b \<or>
   validate (host_codec h) b = Inr () \<and> snd (execute_study h c n op b) = snd (transaction (host_codec h) n (study_operation h c op) b)"
  unfolding execute_study_def then_do_def by (auto split: prod.split sum.split simp: and_then_Inr)

lemma execute_study_async_bundle:
  "snd (execute_study_async h c n op b) = b \<or>
   (\<exists>c'. snd (execute_study_async h c n op b) = snd (execute_study h c' n op b)) \<or>
   (\<exists>s g opt why x. op = Propose s g opt why \<and> validate (host_codec h) b = Inr () \<and> x = snd (propose h s g opt why c b) \<and>
      snd (execute_study_async h c n op b) = snd (transaction (host_codec h) n (\<lambda>_. (Inr (), x)) b))"
  unfolding execute_study_async_def then_do_def
  by (cases op) (auto split: prod.split sum.split simp: and_then_Inr)

text \<open>C3: a request publishes at most one revision. After \<open>execute_study\<close> or its asynchronous form the
  bundle is either the one given, or a validated bundle exactly one revision later in which every
  artifact, state, experiment and decision is kept unchanged, no goal is lost and the experiment
  order is extended at its end only.\<close>

theorem requests_publish_once:
  "published_once (host_codec h) n b (snd (execute_study h cancelled n op b)) \<and>
   published_once (host_codec h) n b (snd (execute_study_async h checkpoint n op b))"
proof -
  have sync: "published_once (host_codec h) n b (snd (execute_study h c n op b))" for c
    using execute_study_bundle [of h c n op b]
  proof (elim disjE conjE)
    assume "validate (host_codec h) b = Inr ()" "snd (execute_study h c n op b) = snd (transaction (host_codec h) n (study_operation h c op) b)"
    moreover have "grows b (snd (study_operation h c op x))" if "grows b x" for x
      using that study_operation_effect(1) by (rule growing.trans)
    ultimately show ?thesis by (simp add: transaction_published)
  qed (simp add: published_once_def)
  have "published_once (host_codec h) n b (snd (execute_study_async h checkpoint n op b))"
    using execute_study_async_bundle [of h checkpoint n op b]
  proof (elim disjE exE conjE)
    fix s g opt why x
    assume "validate (host_codec h) b = Inr ()" "x = snd (propose h s g opt why checkpoint b)"
      "snd (execute_study_async h checkpoint n op b) = snd (transaction (host_codec h) n (\<lambda>_. (Inr (), x)) b)"
    then show ?thesis by (auto intro!: transaction_published propose_effect)
  qed (use sync in \<open>simp_all add: published_once_def\<close>)
  with sync show ?thesis by simp
qed

lemma transaction_applied:
  assumes "\<And>x. applied_state (document x) = applied_state (document b) \<Longrightarrow> applied_state (document (snd (operation x))) = applied_state (document b)"
  shows "applied_state (document (snd (transaction cd n operation b))) = applied_state (document b)"
  using transaction_cases [of cd n operation b]
proof (elim disjE exE conjE)
  fix r c m
  assume ok: "operation (edit_document (\<lambda>d. d\<lparr>version := STUDY_VERSION\<rparr>) b) = (Inr r, c)"
    "transaction cd n operation b = (Inr r, edit_document (\<lambda>d. d\<lparr>revision := m\<rparr>) c)"
  show ?thesis using assms [of "edit_document (\<lambda>d. d\<lparr>version := STUDY_VERSION\<rparr>) b"] ok by simp
qed simp

lemma apply_proposal_moves:
  assumes "apply_proposal cd p s g base_state b = (Inr r, b')"
  shows "applied_state (document b') = Some s \<and>
    (\<exists>record. map_of (experiments (document b)) p = Some record \<and> approval_matches (document b) record s g base_state)"
  using assms
  by (auto simp: apply_proposal_def then_do_def and_then_Inr ok_or_Inr err_if_Inr add_decision_def inspect_def split: prod.splits sum.splits if_splits)

text \<open>C4: only an explicit approval applies a state. The applied state of a Study changes through no request
  other than \<open>Apply\<close>, and there only to the state that was recommended when the request was made,
  as a result of the very proposal the request names, under the active goal and the base state
  the approval is bound to.\<close>

theorem only_approval_applies:
  assumes "b' \<in> {snd (execute_study h cancelled n op b), snd (execute_study_async h checkpoint n op b)}"
    and "applied_state (document b') \<noteq> applied_state (document b)"
  shows "\<exists>proposal state goal base_state record. op = ApplyProposal proposal state goal base_state \<and>
    applied_state (document b') = Some state \<and> map_of (experiments (document b)) proposal = Some record \<and>
    ex_kind record \<in> {Planning, Counterfactual} \<and> state \<in> set (result_states record) \<and>
    ex_goal record = goal \<and> active_goal (document b) = goal \<and> start_state record = Some base_state \<and>
    recommended_state (document b) = Some state"
proof -
  have "applied_state (document (snd (transaction (host_codec h) n (\<lambda>_. (Inr (), snd (propose h s g opt why checkpoint b))) b)))
      = applied_state (document b)" for s g opt why
    using propose_effect(2) [of b h s g opt why checkpoint] by (intro transaction_applied) (simp add: steady_def)
  with assms execute_study_async_bundle [of h checkpoint n op b] obtain c where "b' = snd (execute_study h c n op b)"
    by (elim insertE emptyE) (auto 4 3)
  with assms(2) execute_study_bundle [of h c n op b] have b': "b' = snd (transaction (host_codec h) n (study_operation h c op) b)" by auto
  have "is_apply op"
  proof (rule ccontr)
    assume "\<not> is_apply op"
    then have "applied_state (document (snd (study_operation h c op x))) = applied_state (document x)" for x
      using study_operation_effect(2) [of op x h c] by (simp add: steady_def)
    then have "applied_state (document b') = applied_state (document b)" unfolding b' by (intro transaction_applied) simp
    with assms(2) show False by simp
  qed
  then obtain p s g base_state where op: "op = ApplyProposal p s g base_state" by (cases op) (simp_all add: is_apply_def)
  from transaction_cases [of "host_codec h" n "study_operation h c op" b] b' assms(2) obtain r x m where
    "study_operation h c op (edit_document (\<lambda>d. d\<lparr>version := STUDY_VERSION\<rparr>) b) = (Inr r, x)" "b' = edit_document (\<lambda>d. d\<lparr>revision := m\<rparr>) x"
    by auto
  moreover from this(1) obtain r' where
    "apply_proposal (host_codec h) p s g base_state (edit_document (\<lambda>d. d\<lparr>version := STUDY_VERSION\<rparr>) b) = (Inr r', x)"
    by (auto simp: study_operation_def op then_do_def split: prod.splits sum.splits)
  ultimately show ?thesis using apply_proposal_moves [of "host_codec h" p s g base_state] op
    by (fastforce simp: approval_matches_def)
qed

section \<open>Requests on a concrete Study\<close>

text \<open>Validation reads the decisions and the pointers last: the rest carries over.\<close>

lemma validate_tail:
  assumes "validate cd b = Inr ()"
    and d: "d = (document b)\<lparr>decisions_made := ds, inspected_state := i, recommended_state := r, applied_state := a, revision := n\<rparr>"
    and "validate_document d (length (artifacts b)) = Inr ()" "try_each (validate_decision cd b) ds = Inr ()" "validate_pointers d = Inr ()"
  shows "validate cd (b\<lparr>document := d\<rparr>) = Inr ()"
proof -
  let ?b = "b\<lparr>document := d\<rparr>"
  have fields: "base_input d = base_input (document b)" "display d = display (document b)" "states d = states (document b)"
    "goals d = goals (document b)" "experiments d = experiments (document b)" "experiment_order d = experiment_order (document b)"
    "version d = version (document b)" "decisions_made d = ds" "document ?b = d" "artifacts ?b = artifacts b"
    by (simp_all add: d)
  have req: "require_artifact ?b = require_artifact b" "require_layer ?b = require_layer b" "state_view cd ?b = state_view cd b"
    by (simp_all add: fun_eq_iff require_artifact_def require_layer_def state_view_def fields)
  have trial: "validate_trial ?b = validate_trial b" unfolding validate_trial_def req fields ..
  have same: "validate_display ?b = validate_display b" "validate_experiment cd ?b = validate_experiment cd b"
    "validate_decision cd ?b = validate_decision cd b" "validate_goal cd d = validate_goal cd (document b)"
    "validate_state cd ?b = validate_state cd b"
    unfolding validate_display_def validate_experiment_def validate_decision_def validate_goal_def validate_state_def Let_def req trial fields
    by (rule refl)+
  have doc: "check_order d = check_order (document b)" "state_parents d = state_parents (document b)"
    "goal_parents d = goal_parents (document b)"
    by (simp_all add: check_order_def state_parents_def goal_parents_def fields)
  show ?thesis
    using assms(1) unfolding validate_def Let_def req same fields doc
    by (auto simp: and_then_Inr assms(3-5))
qed

definition witness_host :: "(unit, unit) host" where
  "witness_host = \<lparr>host_codec = witness_codec, evidence_json = (\<lambda>_. ''{}''), comparison_json = (\<lambda>_. Inr ''{}''), format_signed = (\<lambda>_. ''+1'')\<rparr>"

lemma witness_host_codec [simp]: "host_codec witness_host = witness_codec"
  by (simp add: witness_host_def)

lemma witness_current [simp]: "edit_document (\<lambda>d. d\<lparr>version := STUDY_VERSION\<rparr>) witness_bundle = witness_bundle"
  "check_revision witness_bundle 4 = Inr ()" "checked_succ 4 = Some 5"
  by (simp_all add: edit_document_def STUDY_VERSION_def witness_bundle_def check_revision_def checked_succ_def)

definition inspected_bundle :: study_bundle where
  "inspected_bundle = witness_bundle\<lparr>document := (document witness_bundle)\<lparr>decisions_made := [], inspected_state := Some (key_of ''7362''),
     recommended_state := Some (key_of ''7362''), applied_state := Some (key_of ''7361''), revision := 5\<rparr>\<rparr>"

lemma witness_inspect:
  "inspect (key_of ''7362'') witness_bundle =
     (Inr (), edit_document (\<lambda>d. d\<lparr>inspected_state := Some (key_of ''7362'')\<rparr>) witness_bundle)"
proof -
  have "bt_contains (states (document witness_bundle)) (key_of ''7362'')" by code_simp
  then show ?thesis by (simp add: inspect_def)
qed

lemma inspected_bundle_edit:
  "edit_document (\<lambda>d. d\<lparr>revision := 5\<rparr>) (edit_document (\<lambda>d. d\<lparr>inspected_state := Some (key_of ''7362'')\<rparr>) witness_bundle) = inspected_bundle"
  by (simp add: inspected_bundle_def edit_document_def witness_bundle_def)

lemma inspected_bundle_valid: "validate witness_codec inspected_bundle = Inr ()"
  unfolding inspected_bundle_def by (rule validate_tail [OF witness_bundle_valid refl]; code_simp)

lemma witness_bases_differ:
  "demand_changes witness_codec inspected_bundle (key_of ''7362'') = Inl ''base case and selected state have different bus identities''"
  "is_ok (summary 8 inspected_bundle)" "map_of (states (document inspected_bundle)) (key_of ''7362'') =
     Some \<lparr>sn_parent = Some (key_of ''7361''), sn_formulation = DcOpf, sn_input = key_of ''616d'', sn_solution = None, sn_view = None, sn_label = ''b''\<rparr>"
  by code_simp+


definition applied_bundle :: study_bundle where
  "applied_bundle = witness_bundle\<lparr>document := (document witness_bundle)\<lparr>decisions_made :=
       [(''sha256:64'' @ replicate 62 (CHR ''0''), \<lparr>dr_experiment = key_of ''6530'', dr_state = Some (key_of ''7362''), choice = Apply,
         dr_rationale = ''Explicitly applied the proposal bound to this goal and base state'', dr_evidence = []\<rparr>)],
     inspected_state := Some (key_of ''7362''), recommended_state := Some (key_of ''7362''), applied_state := Some (key_of ''7362''), revision := 5\<rparr>\<rparr>"

lemma applied_bundle_valid: "validate witness_codec applied_bundle = Inr ()"
  unfolding applied_bundle_def by (rule validate_tail [OF witness_bundle_valid refl]; code_simp)

lemma witness_applies:
  "fst (apply_proposal witness_codec (key_of ''6530'') (key_of ''7362'') None (key_of ''7361'') witness_bundle) = Inr (key_of ''6530'')"
  "edit_document (\<lambda>d. d\<lparr>revision := 5\<rparr>) (snd (apply_proposal witness_codec (key_of ''6530'') (key_of ''7362'') None (key_of ''7361'') witness_bundle)) = applied_bundle"
  by code_simp+

theorem only_approval_applies_witness:
  "\<exists>b' record. b' = snd (execute_study witness_host (\<lambda>_. False) 4 (ApplyProposal (key_of ''6530'') (key_of ''7362'') None (key_of ''7361'')) witness_bundle) \<and>
     applied_state (document b') = Some (key_of ''7362'') \<and> recommended_state (document witness_bundle) = Some (key_of ''7362'') \<and>
     map_of (experiments (document witness_bundle)) (key_of ''6530'') = Some record"
proof -
  let ?op = "ApplyProposal (key_of ''6530'') (key_of ''7362'') None (key_of ''7361'')"
  let ?b = "snd (execute_study witness_host (\<lambda>_. False) 4 ?op witness_bundle)"
  obtain b1 where b1: "apply_proposal witness_codec (key_of ''6530'') (key_of ''7362'') None (key_of ''7361'') witness_bundle = (Inr (key_of ''6530''), b1)"
    "edit_document (\<lambda>d. d\<lparr>revision := 5\<rparr>) b1 = applied_bundle"
    using witness_applies by (metis prod.collapse)
  have "transaction witness_codec 4 (study_operation witness_host (\<lambda>_. False) ?op) witness_bundle = (Inr (Some (key_of ''6530''), None), applied_bundle)"
    by (simp add: transaction_def study_operation_def b1 then_do_def applied_bundle_valid)
  then have b: "?b = applied_bundle" by (simp add: execute_study_def then_do_def witness_bundle_valid)
  have "applied_state (document ?b) \<noteq> applied_state (document witness_bundle)"
    unfolding b by (simp add: applied_bundle_def witness_bundle_def key_of_def)
  from only_approval_applies [OF insertI1 this] show ?thesis by (auto intro!: exI [of _ ?b])
qed

section \<open>Proposals and creation\<close>

text \<open>What saving states and evidence leaves alone.\<close>

definition pointed :: "study_bundle \<Rightarrow> study_bundle \<Rightarrow> bool" where
  "pointed b b' \<longleftrightarrow> recommended_state (document b') = recommended_state (document b) \<and> active_goal (document b') = active_goal (document b) \<and>
     experiments (document b') = experiments (document b) \<and> experiment_order (document b') = experiment_order (document b) \<and>
     inspected_state (document b') = inspected_state (document b)"

interpretation pointing: preorder_effect pointed
  by unfold_locales (simp_all add: pointed_def)

lemma additions_pointed:
  "pointed b (snd (add_artifact cd k t b))" "pointed b (snd (add_state cd s b))" "pointed b (snd (add_decision cd r b))"
  by (auto simp: add_artifact_def add_state_def add_decision_def pointed_def Let_def split: sum.split)

lemma capture_state_pointed: "pointed b (snd (capture_state cd cand parent label b))"
  unfolding capture_state_def by (auto intro!: pointing.chained additions_pointed pointing.refl split: sum.split)

lemma save_trials_pointed: "pointed b (snd (save_trials h s i ts acc b))"
proof -
  have "pointed b (snd (save_trial h s i t acc b))" for i t acc b
    unfolding save_trial_def Let_def
    by (auto intro!: pointing.chained additions_pointed capture_state_pointed pointing.refl split: option.split)
  then show ?thesis
    by (induction h s i ts acc b rule: save_trials.induct) (auto intro!: pointing.chained pointing.refl)
qed

lemma record_search_pointed: "pointed b (snd (record_search h s record run b))"
  unfolding record_search_def Let_def
  by (auto intro!: pointing.chained additions_pointed save_trials_pointed pointing.refl split: sum.split)

lemma then_do_Inr [result_simps]:
  "then_do m f = (Inr y, s') \<longleftrightarrow> (\<exists>x s. m = (Inr x, s) \<and> f x s = (Inr y, s'))"
  by (auto simp: then_do_def split: prod.split sum.split)

text \<open>A recommendation the trials leave is the state of a saved trial.\<close>

lemma save_trials_recommendation:
  assumes "save_trials h s i ts acc b = (Inr acc', b')" "set_option (tl_recommendation acc) \<subseteq> set (tl_results acc)"
  shows "set_option (tl_recommendation acc') \<subseteq> set (tl_results acc')"
  using assms
proof (induction h s i ts acc b rule: save_trials.induct)
  case (2 h s i t ts acc b)
  then obtain acc1 b1 where step: "save_trial h s i t acc b = (Inr acc1, b1)" "save_trials h s (i + 1) ts acc1 b1 = (Inr acc', b')"
    by (auto simp: then_do_Inr)
  from step(1) "2.prems"(2) have "set_option (tl_recommendation acc1) \<subseteq> set (tl_results acc1)"
    by (auto simp: save_trial_def Let_def then_do_Inr split: option.splits if_splits)
  with "2.IH" step show ?case by blast
qed simp

lemma record_search_results:
  assumes "record_search h s record run b = (Inr (recorded, best), b')"
  shows "set_option best \<subseteq> set (result_states recorded)"
    "solve_count recorded = solve_count record + (case run of Inl _ \<Rightarrow> 0 | Inr r \<Rightarrow> sr_solve_count r)"
    "ex_kind recorded = ex_kind record \<and> start_state recorded = start_state record \<and> ex_goal recorded = ex_goal record"
  using assms save_trials_recommendation [of h s 0 _ "\<lparr>tl_states = [], tl_results = [], tl_trials = [], tl_recommendation = None\<rparr>"]
  by (fastforce simp: record_search_def Let_def then_do_Inr split: sum.splits if_splits)+

lemma run_search_budget:
  assumes "run_search h problem g options input start_input changes checkpoint = (run, n)"
  shows "n + (case run of Inl _ \<Rightarrow> 0 | Inr r \<Rightarrow> sr_solve_count r) \<le> max_solves options"
proof -
  have budget: "sr_solve_count r \<le> max_solves (cx_options cx)" if "explore cx st origin = Inr r" for cx st origin r
    using explore_inv [OF that] by (auto simp: search_inv_def Let_def)
  show ?thesis
  proof (cases run)
    case (Inl e)
    with assms show ?thesis by (auto simp: run_search_def Let_def split: if_splits sum.splits prod.splits)
  next
    case (Inr r)
    with assms show ?thesis
      by (auto simp: run_search_def Let_def and_then_Inr split: if_splits sum.splits prod.splits dest!: budget)
  qed
qed


lemma display_effect:
  "grows b (snd (create_display_context cd dsp b))" "steady b (snd (create_display_context cd dsp b))" "pointed b (snd (create_display_context cd dsp b))"
proof -
  have "grows x (edit_document (\<lambda>d. d\<lparr>display := v\<rparr>) x)" "steady x (edit_document (\<lambda>d. d\<lparr>display := v\<rparr>) x)"
    "pointed x (edit_document (\<lambda>d. d\<lparr>display := v\<rparr>) x)" for x v
    by (simp_all add: grows_def steady_def pointed_def bundle_wf_def)
  then show "grows b (snd (create_display_context cd dsp b))" "steady b (snd (create_display_context cd dsp b))"
    "pointed b (snd (create_display_context cd dsp b))"
    unfolding create_display_context_def
    by (auto intro!: growing.chained growing.chained_map staying.chained staying.chained_map pointing.chained pointing.chained_map
        effects additions_pointed)
qed

lemma create_root_effect:
  "grows b (snd (create_root h req goal b))" "steady b (snd (create_root h req goal b))" "pointed b (snd (create_root h req goal b))"
  unfolding create_root_def Let_def
  by (auto intro!: growing.chained staying.chained pointing.chained effects additions_pointed capture_state_pointed
      growing.refl staying.refl pointing.refl split: option.split prod.split)

lemma outcome_Inr: "(case m of (Inl e, _) \<Rightarrow> Inl e | (Inr _, b) \<Rightarrow> Inr b) = Inr b' \<longleftrightarrow> (\<exists>x. m = (Inr x, b'))"
  by (auto split: prod.split sum.split)

lemma add_state_saved: "add_state cd s b = (Inr key, b') \<Longrightarrow> map_of (states (document b')) key \<noteq> None"
  by (cases "record_id cd (StateValue s)") (auto simp: add_state_def map_of_bt_or_insert)

lemma capture_state_saved: "capture_state cd cand parent label b = (Inr key, b') \<Longrightarrow> map_of (states (document b')) key \<noteq> None"
  by (auto simp: capture_state_def then_do_Inr dest: add_state_saved split: sum.splits)

lemma create_root_saved: "create_root h req goal b = (Inr (root, solves), b') \<Longrightarrow> map_of (states (document b')) root \<noteq> None"
  by (auto simp: create_root_def Let_def then_do_Inr dest: capture_state_saved add_state_saved split: option.splits)

lemma create_pointers_effect:
  assumes "create_pointers cd req goal root b = (Inr (), b')" "bundle_wf b"
  shows "bundle_wf b'" "revision (document b') = revision (document b)" "doc_id (document b') = doc_id (document b)"
    "applied_state (document b') = Some root" "inspected_state (document b') = Some root" "states (document b') = states (document b)"
    "goal = None \<Longrightarrow> active_goal (document b') = active_goal (document b) \<and> recommended_state (document b') = recommended_state (document b)"
    "goal \<noteq> None \<Longrightarrow> active_goal (document b') \<noteq> None \<and> recommended_state (document b') = None"
    "base_input (document b') = base_input (document b)"
  using assms
  by (auto simp: create_pointers_def Let_def then_do_Inr revise_goal_def bundle_wf_def bt_ok_insert split: option.splits sum.splits)

lemma record_start_solve_effect:
  "grows b (snd (record_start_solve h root solves b))" "steady b (snd (record_start_solve h root solves b))"
  "snd (record_start_solve h root solves b) = b' \<Longrightarrow> inspected_state (document b') = inspected_state (document b) \<and>
     active_goal (document b') = active_goal (document b) \<and> recommended_state (document b') = recommended_state (document b)"
proof -
  show "grows b (snd (record_start_solve h root solves b))" "steady b (snd (record_start_solve h root solves b))"
    unfolding record_start_solve_def by (auto intro!: growing.chained staying.chained effects growing.refl staying.refl)
  show "snd (record_start_solve h root solves b) = b' \<Longrightarrow> inspected_state (document b') = inspected_state (document b) \<and>
     active_goal (document b') = active_goal (document b) \<and> recommended_state (document b') = recommended_state (document b)"
    by (auto simp: record_start_solve_def then_do_def add_artifact_def add_experiment_def Let_def split: sum.splits prod.splits if_splits)
qed



definition witness_request :: create_study_request where
  "witness_request = \<lparr>cs_id = ''study'', cs_title = [], cs_input = ''n'', cs_base_input = None, cs_formulation = DcOpf, cs_request = [],
     cs_interpretation = [], cs_objective = None, cs_decisions = None, cs_success = None, cs_solution = None, cs_view = None,
     cs_display = None, cs_model_details = None\<rparr>"

definition start_key :: string where
  "start_key = ''sha256:735374617274696e6720706f696e74'' @ replicate 34 (CHR ''0'')"

definition created_bundle :: study_bundle where
  "created_bundle = \<lparr>document = \<lparr>schema = ''tellegen-study'', version = 2, doc_id = ''study'', title = [], revision = 0, goals = [],
     states = [(start_key, \<lparr>sn_parent = None, sn_formulation = DcOpf, sn_input = key_of ''616e'', sn_solution = None, sn_view = None,
       sn_label = ''Starting point''\<rparr>)], experiments = [], experiment_order = [], decisions_made = [], active_goal = None,
     inspected_state = Some start_key, recommended_state = None, applied_state = Some start_key, base_input = Some (key_of ''616e''),
     display = None, model_details = None\<rparr>, artifacts = [(key_of ''616e'', \<lparr>art_kind = PowerioIr, art_text = ''n''\<rparr>)]\<rparr>"

lemma created_bundle_parts:
  "validate_document (document created_bundle) (Suc 0) = Inr ()" "check_artifacts witness_codec (artifacts created_bundle) = Inr []"
  "check_chains ''states'' (state_parents (document created_bundle)) = Inr ()" "check_order (document created_bundle) = Inr ()"
  "check_chains ''goals'' (goal_parents (document created_bundle)) = Inr ()"
  "sum_list (map (\<lambda>(_, a). byte_len (art_text a)) (artifacts created_bundle)) = 1" "length (artifacts created_bundle) = Suc 0"
  "validate_pointers (document created_bundle) = Inr ()"
  "try_each (validate_state witness_codec created_bundle []) (states (document created_bundle)) = Inr ()"
  "require_artifact created_bundle (key_of ''616e'') True = Inr ()"
  "index (artifacts created_bundle) (key_of ''616e'') = Inr \<lparr>art_kind = PowerioIr, art_text = ''n''\<rparr>"
  by code_simp+

lemma created_bundle_fields: "display (document created_bundle) = None" "goals (document created_bundle) = []"
  "decisions_made (document created_bundle) = []" "experiment_order (document created_bundle) = []"
  "base_input (document created_bundle) = Some (key_of ''616e'')"
  by (simp_all add: created_bundle_def)

lemma created_bundle_valid: "validate witness_codec created_bundle = Inr ()"
  by (simp add: validate_def Let_def created_bundle_parts created_bundle_fields witness_bundle_base(4) MAX_BUNDLE_BYTES_def)

definition empty_witness :: study_bundle where
  "empty_witness = \<lparr>document = \<lparr>schema = ''tellegen-study'', version = 2, doc_id = ''study'', title = [], revision = 0, goals = [],
     states = [], experiments = [], experiment_order = [], decisions_made = [], active_goal = None,
     inspected_state = None, recommended_state = None, applied_state = None, base_input = None,
     display = None, model_details = None\<rparr>, artifacts = []\<rparr>"

lemma witness_creation_steps:
  "empty_bundle ''study'' [] = Inr empty_witness" "is_ok (validate_artifact witness_codec \<lparr>art_kind = PowerioIr, art_text = ''n''\<rparr>)"
  "record_id witness_codec (ArtifactValue \<lparr>art_kind = PowerioIr, art_text = ''n''\<rparr>) = Inr (key_of ''616e'')"
  "record_id witness_codec (StateValue \<lparr>sn_parent = None, sn_formulation = DcOpf, sn_input = key_of ''616e'', sn_solution = None,
     sn_view = None, sn_label = ''Starting point''\<rparr>) = Inr start_key"
  by code_simp+

lemma witness_adds_input:
  "add_artifact witness_codec PowerioIr ''n'' b =
     (Inr (key_of ''616e''), b\<lparr>artifacts := bt_or_insert (key_of ''616e'') \<lparr>art_kind = PowerioIr, art_text = ''n''\<rparr> (artifacts b)\<rparr>)"
proof -
  obtain v where "validate_artifact witness_codec \<lparr>art_kind = PowerioIr, art_text = ''n''\<rparr> = Inr v"
    using is_ok_obtain [OF witness_creation_steps(2)] by blast
  then show ?thesis by (simp add: add_artifact_def witness_creation_steps(3))
qed

lemma witness_creates: "create_study witness_host witness_request = Inr created_bundle"
proof -
  have "create_contents witness_host witness_request ''n'' empty_witness = (Inr (), created_bundle)"
    by (simp add: create_contents_def Let_def witness_request_def witness_adds_input then_do_def edit_document_def create_goal_def
        create_root_def add_state_def witness_creation_steps(4) bt_or_insert_def create_pointers_def record_start_solve_def empty_witness_def)
      (simp flip: created_bundle_def add: created_bundle_valid)
  then show ?thesis
    by (simp add: create_study_def witness_request_def witness_bundle_base(4) same_bus_identities_def witness_creation_steps(1))
qed


text \<open>A goal on the first state, and a proposal that is cancelled before its first solve.\<close>

definition goal_space :: decision_space where
  "goal_space = \<lparr>ds_variables = [\<lparr>dv_id = ''a'', dv_element = Id 1, intervention = ActiveDemand, lower = - 1, upper = 1, increment = 1,
     budget_weight = 1\<rparr>], total_budget = 1, max_changed_elements = 1, ds_demand = None\<rparr>"

definition goal_bundle :: study_bundle where
  "goal_bundle = witness_bundle\<lparr>document := (document witness_bundle)\<lparr>active_goal := Some ''g'', goals := [(''g'', \<lparr>gr_parent = None,
     anchor_state = key_of ''7361'', gr_request = [], gr_interpretation = [], gr_objective = InterventionPenalty ''a'' 1 0,
     gr_decisions = goal_space, success_value = None\<rparr>)]\<rparr>\<rparr>"

definition witness_options :: search_options where
  "witness_options = \<lparr>max_solves = 2, beam_width = 1, max_iterations = 1, min_improvement = 0\<rparr>"

definition root_node :: state_node where
  "root_node = \<lparr>sn_parent = None, sn_formulation = DcOpf, sn_input = key_of ''616e'', sn_solution = None, sn_view = None, sn_label = ''a''\<rparr>"

lemma goal_bundle_lookups:
  "map_of (states (document goal_bundle)) (key_of ''7361'') = Some root_node"
  "map_of (artifacts goal_bundle) (key_of ''616e'') = Some \<lparr>art_kind = PowerioIr, art_text = ''n''\<rparr>"
  "is_ok (network_changes witness_net witness_net goal_space)"
  "is_ok (record_id witness_codec (ExperimentValue 1 \<lparr>start_state = Some (key_of ''7361''), ex_goal = Some ''g'', ex_kind = Planning,
     ex_rationale = [], ex_evidence = [], trials = [], result_states = [], assessed_recommendation = None, solve_count = 0,
     termination_note = ''cancelled''\<rparr>))"
  by code_simp+

lemma witness_proposes:
  "is_ok (fst (propose witness_host (key_of ''7361'') ''g'' witness_options [] (\<lambda>_. True) goal_bundle))"
proof -
  obtain changes where changes: "network_changes witness_net witness_net goal_space = Inr changes"
    using is_ok_obtain [OF goal_bundle_lookups(3)] by blast
  have net: "state_network witness_codec goal_bundle (key_of ''7361'') = Inr witness_net"
    by (simp add: state_network_def goal_bundle_lookups(1,2) root_node_def witness_bundle_base(4))
  have goal: "active_goal (document goal_bundle) = Some ''g''" "map_of (goals (document goal_bundle)) ''g'' = Some \<lparr>gr_parent = None,
     anchor_state = key_of ''7361'', gr_request = [], gr_interpretation = [], gr_objective = InterventionPenalty ''a'' 1 0,
     gr_decisions = goal_space, success_value = None\<rparr>"
    by (simp_all add: goal_bundle_def)
  have order: "length (experiment_order (document goal_bundle)) = 1" by (simp add: goal_bundle_def witness_bundle_def)
  have "\<exists>g. proposal_start witness_codec goal_bundle (key_of ''7361'') ''g'' = Inr (g, DcOpf, changes, ''n'', ''n'')"
    by (simp add: proposal_start_def goal goal_bundle_lookups(1,2) state_changes_def net changes) (simp add: root_node_def goal_bundle_lookups(2))
  then show ?thesis
    using goal_bundle_lookups(4)
    by (elim exE) (simp add: propose_def then_do_def record_proposal_def run_search_def record_search_def add_experiment_def order
        recommend_best_def is_ok_def split: sum.split_asm)
qed


end
