(* ===== verification/Storage.thy ===== *)
theory Storage
  imports Document
begin

text \<open>
  Persistence of a Study file (\<open>src/crates/tellegen/src/study_storage.rs\<close>): the lock file, the
  revision-checked commit and the replacement through a temporary file. The directory of the Study
  is a map from file names to their text; what the operating system answers to each call is the
  parameter \<open>io\<close>. The operations are composed twice from the same parts: in one run, as the
  functions of the source do, and as the steps of several writers that interleave and may stop
  at any point.
\<close>

section \<open>The directory and the operating system\<close>

record disk =
  dir_exists :: bool
  files :: "(string, string) btree"

datatype io_call = Metadata | ReadText | OpenLock | WriteLock | RemoveLock | OpenTemp | WriteTemp | SyncTemp | Rename | RemoveTemp
  | SyncDirectory

text \<open>
  Failures of the calls of one operation, the process and its value of \<open>TEMP_SEQUENCE\<close>, and how
  much of a failed write reaches the file. Two failures are fixed by the directory: a file that is
  missing cannot be read, and \<open>create_new\<close> refuses a name in use.
\<close>

record io =
  io_fail :: "io_call \<Rightarrow> string option"
  io_missing :: string
  io_exists :: string
  io_written :: nat
  io_pid :: nat
  temp_sequence :: "64 word"
  io_unix :: bool

record file_store =
  st_path :: string
  st_parent :: string
  st_name :: "string option"

definition lock_name :: "string \<Rightarrow> string" where
  "lock_name name = ''.'' @ name @ ''.lock''"

definition temp_name :: "string \<Rightarrow> nat \<Rightarrow> 64 word \<Rightarrow> string" where
  "temp_name name process n = ''.'' @ name @ ''.'' @ show_nat process @ ''.'' @ show_nat (unat n) @ ''.tmp''"

definition put_file :: "string \<Rightarrow> string \<Rightarrow> disk \<Rightarrow> disk" where
  "put_file name t d = d\<lparr>files := bt_insert name t (files d)\<rparr>"

definition remove_file :: "string \<Rightarrow> disk \<Rightarrow> disk" where
  "remove_file name d = d\<lparr>files := bt_retain (\<lambda>k _. k \<noteq> name) (files d)\<rparr>"

definition study_text :: "file_store \<Rightarrow> disk \<Rightarrow> string option" where
  "study_text st d = Option.bind (st_name st) (map_of (files d))"

section \<open>Reading and locking\<close>

definition store_load :: "('a, 'c) codec \<Rightarrow> file_store \<Rightarrow> io \<Rightarrow> disk \<Rightarrow> (string, study_bundle) result" where
  "store_load cd st io d =
     (let unreadable = (\<lambda>e. ''cannot read Study '' @ st_path st @ '': '' @ e)
      in and_then (case io_fail io Metadata of
             Some e \<Rightarrow> Inl (unreadable e)
           | None \<Rightarrow> ok_or (unreadable (io_missing io)) (study_text st d)) (\<lambda>t.
         and_then (err_if (512 * 1024 * 1024 < byte_len t) ''Study file exceeds 512 MiB; use a smaller branch bundle'') (\<lambda>_.
         case io_fail io ReadText of
           Some e \<Rightarrow> Inl (unreadable e)
         | None \<Rightarrow> import_study cd t)))"

text \<open>\<open>Drop\<close> of the \<open>WriteLock\<close>.\<close>

definition drop_lock :: "io \<Rightarrow> string \<Rightarrow> disk \<Rightarrow> disk" where
  "drop_lock io lock d = (if io_fail io RemoveLock = None then remove_file lock d else d)"

definition store_lock :: "file_store \<Rightarrow> io \<Rightarrow> disk \<Rightarrow> (disk, string) stateful" where
  "store_lock st io d =
     (if \<not> dir_exists d
      then (Inl (''Study directory '' @ st_parent st @ '' does not exist; create it or select another destination''), d)
      else case st_name st of
        None \<Rightarrow> (Inl ''Study path requires a filename'', d)
      | Some name \<Rightarrow>
          (let lock = lock_name name;
               refused = (\<lambda>e. ''cannot lock Study '' @ st_path st @ '': '' @ e
                 @ ''. If a previous writer stopped, verify it is no longer running before removing '' @ st_parent st @ ''/'' @ lock)
           in if bt_contains (files d) lock then (Inl (refused (io_exists io)), d)
              else case io_fail io OpenLock of
                Some e \<Rightarrow> (Inl (refused e), d)
              | None \<Rightarrow>
                  (case io_fail io WriteLock of
                     Some e \<Rightarrow> (Inl (''cannot write Study lock: '' @ e), drop_lock io lock (put_file lock [] d))
                   | None \<Rightarrow> (Inr lock, put_file lock (''pid='' @ show_nat (io_pid io) @ ''\<newline>'') d))))"

section \<open>Writing\<close>

text \<open>The temporary file: created anew, written in full and synced.\<close>

definition stage :: "io \<Rightarrow> string \<Rightarrow> string \<Rightarrow> disk \<Rightarrow> (disk, unit) stateful" where
  "stage io temp t d =
     (if bt_contains (files d) temp then (Inl (io_exists io), d)
      else case io_fail io OpenTemp of
        Some e \<Rightarrow> (Inl e, d)
      | None \<Rightarrow>
          (case io_fail io WriteTemp of
             Some e \<Rightarrow> (Inl e, put_file temp (take (io_written io) t) d)
           | None \<Rightarrow>
               (case io_fail io SyncTemp of
                  Some e \<Rightarrow> (Inl e, put_file temp t d)
                | None \<Rightarrow> (Inr (), put_file temp t d))))"

definition rename :: "io \<Rightarrow> string \<Rightarrow> string \<Rightarrow> disk \<Rightarrow> (disk, unit) stateful" where
  "rename io temp name d =
     (case (io_fail io Rename, map_of (files d) temp) of
        (Some e, _) \<Rightarrow> (Inl e, d)
      | (None, None) \<Rightarrow> (Inl (io_missing io), d)
      | (None, Some t) \<Rightarrow> (Inr (), put_file name t (remove_file temp d)))"

definition discard_temp :: "io \<Rightarrow> string \<Rightarrow> disk \<Rightarrow> disk" where
  "discard_temp io temp d = (if io_fail io RemoveTemp = None then remove_file temp d else d)"

definition unsaved :: "file_store \<Rightarrow> string \<Rightarrow> string" where
  "unsaved st e = ''Study was not saved to '' @ st_path st @ '': '' @ e
     @ ''. Free disk space or choose a writable destination, then retry''"

definition confirm :: "file_store \<Rightarrow> io \<Rightarrow> (string, unit) result" where
  "confirm st io =
     (case io_fail io SyncDirectory of
        Some e \<Rightarrow> if io_unix io
          then Inl (''Study file was written but directory durability could not be confirmed: '' @ e @ ''. Reload '' @ st_path st @ '' before retrying'')
          else Inr ()
      | None \<Rightarrow> Inr ())"

definition store_write :: "('a, 'c) codec \<Rightarrow> file_store \<Rightarrow> io \<Rightarrow> study_bundle \<Rightarrow> disk \<Rightarrow> (disk, unit) stateful" where
  "store_write cd st io b d =
     then_do (and_then (export_study cd b) (\<lambda>t. and_then (ok_or ''Study path requires a filename'' (st_name st)) (\<lambda>name. Inr (t, name))), d)
       (\<lambda>(t, name) d.
     (let temp = temp_name name (io_pid io) (temp_sequence io)
      in case then_do (stage io temp t d) (\<lambda>_ d. rename io temp name d) of
           (Inl e, d) \<Rightarrow> (Inl (unsaved st e), discard_temp io temp d)
         | (Inr _, d) \<Rightarrow> (confirm st io, d)))"

section \<open>Creation and commit\<close>

datatype request = CreateNew study_bundle | CommitNext "64 word" study_bundle

fun request_bundle :: "request \<Rightarrow> study_bundle" where
  "request_bundle (CreateNew b) = b"
| "request_bundle (CommitNext _ b) = b"

text \<open>What is checked under the lock. \<open>Path::exists\<close> answers no when the metadata cannot be read.\<close>

fun check_request :: "('a, 'c) codec \<Rightarrow> file_store \<Rightarrow> io \<Rightarrow> request \<Rightarrow> disk \<Rightarrow> (string, unit) result" where
  "check_request cd st io (CreateNew b) d =
     err_if (io_fail io Metadata = None \<and> study_text st d \<noteq> None) ''Study file already exists; load it or select a new path''"
| "check_request cd st io (CommitNext expected b) d =
     and_then (store_load cd st io d) (\<lambda>current.
     and_then (check_revision current expected) (\<lambda>_.
     and_then (if doc_id (document current) \<noteq> doc_id (document b) then Inr True
               else and_then (ok_or ''Study revision exhausted'' (checked_succ expected)) (\<lambda>n. Inr (revision (document b) \<noteq> n))) (\<lambda>wrong.
     err_if wrong ''saved Study identity or next revision does not match the current file'')))"

definition store_request :: "('a, 'c) codec \<Rightarrow> file_store \<Rightarrow> io \<Rightarrow> request \<Rightarrow> disk \<Rightarrow> (disk, unit) stateful" where
  "store_request cd st io req d =
     then_do (store_lock st io d) (\<lambda>lock d.
     case then_do (check_request cd st io req d, d) (\<lambda>_ d. store_write cd st io (request_bundle req) d) of
       (outcome, d) \<Rightarrow> (outcome, drop_lock io lock d))"

definition store_create :: "('a, 'c) codec \<Rightarrow> file_store \<Rightarrow> io \<Rightarrow> study_bundle \<Rightarrow> disk \<Rightarrow> (disk, unit) stateful" where
  "store_create cd st io b d = store_request cd st io (CreateNew b) d"

definition store_commit :: "('a, 'c) codec \<Rightarrow> file_store \<Rightarrow> io \<Rightarrow> 64 word \<Rightarrow> study_bundle \<Rightarrow> disk \<Rightarrow> (disk, unit) stateful" where
  "store_commit cd st io expected b d = store_request cd st io (CommitNext expected b) d"

section \<open>Several writers\<close>

text \<open>
  A writer moves from one call that others can observe to the next: it takes the lock, checks the
  file, stages the new text, renames it into place and drops the lock. It can stop for good anywhere.
\<close>

datatype phase = Idle | Holding request io | Checked request io | Staged request io | Leaving io | Stopped

fun active :: "phase \<Rightarrow> bool" where
  "active Idle = False"
| "active Stopped = False"
| "active _ = True"

record system =
  sys_disk :: disk
  sys_phase :: "nat \<Rightarrow> phase"

fun next_phase :: "('a, 'c) codec \<Rightarrow> file_store \<Rightarrow> string \<Rightarrow> phase \<Rightarrow> disk \<Rightarrow> phase \<times> disk" where
  "next_phase cd st name (Holding req io) d =
     (case check_request cd st io req d of Inl _ \<Rightarrow> (Leaving io, d) | Inr _ \<Rightarrow> (Checked req io, d))"
| "next_phase cd st name (Checked req io) d =
     (let temp = temp_name name (io_pid io) (temp_sequence io)
      in case export_study cd (request_bundle req) of
           Inl _ \<Rightarrow> (Leaving io, d)
         | Inr t \<Rightarrow> (case stage io temp t d of (Inl _, d) \<Rightarrow> (Leaving io, discard_temp io temp d) | (Inr _, d) \<Rightarrow> (Staged req io, d)))"
| "next_phase cd st name (Staged req io) d =
     (let temp = temp_name name (io_pid io) (temp_sequence io)
      in case rename io temp name d of (Inl _, d) \<Rightarrow> (Leaving io, discard_temp io temp d) | (Inr _, d) \<Rightarrow> (Leaving io, d))"
| "next_phase cd st name (Leaving io) d = (Idle, drop_lock io (lock_name name) d)"
| "next_phase cd st name Idle d = (Idle, d)"
| "next_phase cd st name Stopped d = (Stopped, d)"

definition advance :: "('a, 'c) codec \<Rightarrow> file_store \<Rightarrow> string \<Rightarrow> nat \<Rightarrow> system \<Rightarrow> system" where
  "advance cd st name w s =
     (let (ph, d) = next_phase cd st name (sys_phase s w) (sys_disk s)
      in s\<lparr>sys_disk := d, sys_phase := (sys_phase s)(w := ph)\<rparr>)"

text \<open>\<open>IO\<close> is the set of behaviours of the operating system under consideration.\<close>

inductive step :: "('a, 'c) codec \<Rightarrow> file_store \<Rightarrow> string \<Rightarrow> io set \<Rightarrow> system \<Rightarrow> system \<Rightarrow> bool"
  for cd :: "('a, 'c) codec" and st :: file_store and name :: string and IO :: "io set" where
  acquire: "sys_phase s w = Idle \<Longrightarrow> io \<in> IO \<Longrightarrow> store_lock st io (sys_disk s) = (Inr lock, d) \<Longrightarrow>
     step cd st name IO s (s\<lparr>sys_disk := d, sys_phase := (sys_phase s)(w := Holding req io)\<rparr>)"
| refused: "sys_phase s w = Idle \<Longrightarrow> io \<in> IO \<Longrightarrow> store_lock st io (sys_disk s) = (Inl e, d) \<Longrightarrow>
     step cd st name IO s (s\<lparr>sys_disk := d\<rparr>)"
| proceed: "active (sys_phase s w) \<Longrightarrow> step cd st name IO s (advance cd st name w s)"
| stop: "step cd st name IO s (s\<lparr>sys_phase := (sys_phase s)(w := Stopped)\<rparr>)"

inductive_cases stepE: "step cd st name IO s s'"

section \<open>Facts on the directory\<close>

lemma map_of_remove: "map_of (bt_retain (\<lambda>k _. k \<noteq> name) m) = (map_of m)(name := None)"
  by (induction m) (auto simp: bt_retain_def fun_eq_iff)

lemma file_simps [simp]:
  "map_of (files (put_file name t d)) = (map_of (files d))(name \<mapsto> t)"
  "map_of (files (remove_file name d)) = (map_of (files d))(name := None)"
  by (simp_all add: put_file_def remove_file_def map_of_bt_insert map_of_remove)

lemma names_differ [simp]:
  "lock_name name \<noteq> name" "name \<noteq> lock_name name" "temp_name name i n \<noteq> name" "name \<noteq> temp_name name i n"
  "temp_name name i n \<noteq> lock_name name" "lock_name name \<noteq> temp_name name i n"
proof -
  have len: "length (lock_name name) > length name" "length (temp_name name i n) > length name"
    by (simp_all add: lock_name_def temp_name_def)
  then show "lock_name name \<noteq> name" "name \<noteq> lock_name name" "temp_name name i n \<noteq> name" "name \<noteq> temp_name name i n"
    by (metis less_irrefl)+
  have "last (temp_name name i n) \<noteq> last (lock_name name)" by (simp add: temp_name_def lock_name_def)
  then show "temp_name name i n \<noteq> lock_name name" "lock_name name \<noteq> temp_name name i n" by metis+
qed

lemma disk_frame:
  "k \<noteq> temp \<Longrightarrow> map_of (files (discard_temp io temp d)) k = map_of (files d) k"
  "k \<noteq> lock \<Longrightarrow> map_of (files (drop_lock io lock d)) k = map_of (files d) k"
  "k \<noteq> temp \<Longrightarrow> map_of (files (snd (stage io temp t d))) k = map_of (files d) k"
  "k \<noteq> temp \<Longrightarrow> k \<noteq> name \<Longrightarrow> map_of (files (snd (rename io temp name d))) k = map_of (files d) k"
  by (auto simp: discard_temp_def drop_lock_def stage_def rename_def split: option.split)

lemma stage_Inr: "stage io temp t d = (Inr u, d') \<Longrightarrow> map_of (files d') temp = Some t"
  by (auto simp: stage_def split: option.splits if_splits)

lemma rename_outcome:
  "temp \<noteq> name \<Longrightarrow> rename io temp name d = (Inr u, d') \<Longrightarrow> map_of (files d) temp = map_of (files d') name \<and> map_of (files d') name \<noteq> None"
  "rename io temp name d = (Inl e, d') \<Longrightarrow> d' = d"
  by (auto simp: rename_def split: option.splits)

lemma store_lock_Inr:
  assumes "store_lock st io d = (Inr lock, d')" "st_name st = Some name"
  shows "lock = lock_name name \<and> dir_exists d \<and> \<not> bt_contains (files d) lock \<and> map_of (files d') lock \<noteq> None \<and>
    (\<forall>k. k \<noteq> lock \<longrightarrow> map_of (files d') k = map_of (files d) k)"
  using assms by (auto simp: store_lock_def Let_def bt_contains_def split: if_splits option.splits)

lemma store_lock_Inl:
  assumes "store_lock st io d = (Inl e, d')" "st_name st = Some name"
  shows "(\<forall>k. k \<noteq> lock_name name \<longrightarrow> map_of (files d') k = map_of (files d) k) \<and> (map_of (files d) (lock_name name) \<noteq> None \<longrightarrow> d' = d)"
  using assms by (auto simp: store_lock_def Let_def bt_contains_def drop_lock_def split: if_splits option.splits)

text \<open>The check reads nothing but the Study file.\<close>

lemma check_request_cong:
  assumes "study_text st d = study_text st d'"
  shows "check_request cd st io req d = check_request cd st io req d'"
proof -
  have "store_load cd st io d = store_load cd st io d'" unfolding store_load_def assms ..
  with assms show ?thesis by (cases req) simp_all
qed

section \<open>Mutual exclusion\<close>

fun promised :: "('a, 'c) codec \<Rightarrow> file_store \<Rightarrow> string \<Rightarrow> disk \<Rightarrow> phase \<Rightarrow> bool" where
  "promised cd st name d (Checked req io) \<longleftrightarrow> check_request cd st io req d = Inr ()"
| "promised cd st name d (Staged req io) \<longleftrightarrow> check_request cd st io req d = Inr () \<and>
     (\<exists>t. export_study cd (request_bundle req) = Inr t \<and> map_of (files d) (temp_name name (io_pid io) (temp_sequence io)) = Some t)"
| "promised cd st name d _ \<longleftrightarrow> True"

fun phase_io :: "phase \<Rightarrow> io option" where
  "phase_io (Holding _ io) = Some io"
| "phase_io (Checked _ io) = Some io"
| "phase_io (Staged _ io) = Some io"
| "phase_io (Leaving io) = Some io"
| "phase_io _ = None"

text \<open>One writer at a time is active, the lock file is there while it is, and what it has checked still holds.\<close>

definition exclusive :: "('a, 'c) codec \<Rightarrow> file_store \<Rightarrow> string \<Rightarrow> io set \<Rightarrow> system \<Rightarrow> bool" where
  "exclusive cd st name IO s \<longleftrightarrow>
     (\<forall>v w. active (sys_phase s v) \<and> active (sys_phase s w) \<longrightarrow> v = w) \<and>
     (\<forall>w. active (sys_phase s w) \<longrightarrow> map_of (files (sys_disk s)) (lock_name name) \<noteq> None) \<and>
     (\<forall>w. promised cd st name (sys_disk s) (sys_phase s w)) \<and> (\<forall>w io. phase_io (sys_phase s w) = Some io \<longrightarrow> io \<in> IO)"

lemma inactive_promised: "\<not> active ph \<Longrightarrow> promised cd st name d ph \<and> phase_io ph = None"
  by (cases ph) simp_all

text \<open>One move of the active writer.\<close>

lemma next_phase_effect:
  assumes "next_phase cd st name ph d = (ph', d')" "active ph" "promised cd st name d ph" "st_name st = Some name"
    and "map_of (files d) (lock_name name) \<noteq> None"
  shows "promised cd st name d' ph' \<and> (active ph' \<longrightarrow> map_of (files d') (lock_name name) \<noteq> None \<and> phase_io ph' = phase_io ph) \<and>
    (study_text st d' = study_text st d \<or>
     (\<exists>req io t. ph = Staged req io \<and> check_request cd st io req d = Inr () \<and> export_study cd (request_bundle req) = Inr t \<and> study_text st d' = Some t))"
proof (cases ph)
  case (Holding req io)
  with assms show ?thesis by (auto split: sum.splits)
next
  case (Checked req io)
  let ?temp = "temp_name name (io_pid io) (temp_sequence io)"
  show ?thesis
  proof (cases "export_study cd (request_bundle req)")
    case (Inl e)
    with assms Checked show ?thesis by auto
  next
    case (Inr t)
    obtain r d1 where st: "stage io ?temp t d = (r, d1)" by fastforce
    have frame: "map_of (files d1) k = map_of (files d) k" if "k \<noteq> ?temp" for k
      using disk_frame(3) [OF that, of io t d] st by simp
    then have same: "study_text st d1 = study_text st d" using assms(4) by (simp add: study_text_def)
    show ?thesis
    proof (cases r)
      case (Inl e)
      with assms Checked Inr st have "ph' = Leaving io" "d' = discard_temp io ?temp d1" by auto
      with frame assms(4,5) Checked show ?thesis by (auto simp: study_text_def disk_frame(1))
    next
      case (Inr u)
      with assms(1) Checked \<open>export_study cd (request_bundle req) = Inr t\<close> st have *: "ph' = Staged req io" "d' = d1" by auto
      from st Inr have "map_of (files d1) ?temp = Some t" by (simp add: stage_Inr)
      with * frame assms(3,5) Checked same check_request_cong [OF same, of cd io req] \<open>export_study cd (request_bundle req) = Inr t\<close>
      show ?thesis by auto
    qed
  qed
next
  case (Staged req io)
  let ?temp = "temp_name name (io_pid io) (temp_sequence io)"
  from assms(3) Staged obtain t where t: "check_request cd st io req d = Inr ()" "export_study cd (request_bundle req) = Inr t"
    "map_of (files d) ?temp = Some t" by auto
  obtain r d1 where rn: "rename io ?temp name d = (r, d1)" by fastforce
  show ?thesis
  proof (cases r)
    case (Inl e)
    with rn have "d1 = d" using rename_outcome(2) by blast
    with Inl assms(1) Staged rn have "ph' = Leaving io" "d' = discard_temp io ?temp d" by auto
    with assms(4,5) Staged show ?thesis by (auto simp: study_text_def disk_frame(1))
  next
    case (Inr u)
    with assms(1) Staged rn have *: "ph' = Leaving io" "d' = d1" by auto
    have "map_of (files d1) (lock_name name) = map_of (files d) (lock_name name)"
      using disk_frame(4) [of "lock_name name" ?temp name io d] rn by simp
    moreover have "study_text st d1 = Some t"
      using rename_outcome(1) [of ?temp name io d u d1] rn Inr t(3) assms(4) by (simp add: study_text_def)
    ultimately show ?thesis using * t Staged assms(5) by auto
  qed
next
  case (Leaving io)
  with assms show ?thesis by (auto simp: study_text_def disk_frame(2))
qed (use assms in simp_all)

lemma exclusive_step:
  assumes "exclusive cd st name IO s" "step cd st name IO s s'" and name: "st_name st = Some name"
  shows "exclusive cd st name IO s' \<and>
    (study_text st (sys_disk s') = study_text st (sys_disk s) \<or>
     (\<exists>req io t. io \<in> IO \<and> check_request cd st io req (sys_disk s) = Inr () \<and> export_study cd (request_bundle req) = Inr t \<and>
        study_text st (sys_disk s') = Some t))"
  using assms(2)
proof cases
  case (acquire w io lock d req)
  note lock = store_lock_Inr [OF acquire(4) name]
  then have none: "\<not> active (sys_phase s v)" for v
    using assms(1) by (auto simp: exclusive_def bt_contains_def)
  then have "promised cd st name d (sys_phase s v) \<and> phase_io (sys_phase s v) = None" for v using inactive_promised by blast
  moreover have "study_text st d = study_text st (sys_disk s)" using lock name by (simp add: study_text_def)
  ultimately show ?thesis using acquire none lock by (auto simp: exclusive_def)
next
  case (refused w io e d)
  note lock = store_lock_Inl [OF refused(4) name]
  then have same: "study_text st d = study_text st (sys_disk s)" using name by (simp add: study_text_def)
  show ?thesis
  proof (cases "\<exists>v. active (sys_phase s v)")
    case True
    with assms(1) have "map_of (files (sys_disk s)) (lock_name name) \<noteq> None" by (auto simp: exclusive_def)
    with lock have "d = sys_disk s" by blast
    with assms(1) refused(1) show ?thesis by simp
  next
    case False
    then have "promised cd st name d (sys_phase s v) \<and> phase_io (sys_phase s v) = None" for v using inactive_promised by blast
    with False refused(1) same show ?thesis by (auto simp: exclusive_def)
  qed
next
  case (proceed w)
  obtain ph d where nx: "next_phase cd st name (sys_phase s w) (sys_disk s) = (ph, d)" by fastforce
  with proceed(1) have s': "s' = s\<lparr>sys_disk := d, sys_phase := (sys_phase s)(w := ph)\<rparr>" by (simp add: advance_def)
  from assms(1) proceed(2) have now: "promised cd st name (sys_disk s) (sys_phase s w)"
    "map_of (files (sys_disk s)) (lock_name name) \<noteq> None" "\<And>v. v \<noteq> w \<Longrightarrow> \<not> active (sys_phase s v)"
    "\<And>io. phase_io (sys_phase s w) = Some io \<Longrightarrow> io \<in> IO"
    by (auto simp: exclusive_def)
  note eff = next_phase_effect [OF nx proceed(2) now(1) name now(2)]
  have others: "promised cd st name d (sys_phase s v) \<and> phase_io (sys_phase s v) = None" if "v \<noteq> w" for v
    using inactive_promised now(3) [OF that] by blast
  have "exclusive cd st name IO s'"
    using eff others now(3,4) inactive_promised [of ph] unfolding exclusive_def s' by (auto split: if_splits)
  moreover have "study_text st d = study_text st (sys_disk s) \<or>
     (\<exists>req io t. io \<in> IO \<and> check_request cd st io req (sys_disk s) = Inr () \<and> export_study cd (request_bundle req) = Inr t \<and> study_text st d = Some t)"
    using eff now(4) by force
  ultimately show ?thesis by (simp add: s')
next
  case (stop w)
  with assms(1) show ?thesis by (auto simp: exclusive_def)
qed

section \<open>The abstract register\<close>

text \<open>
  What a Study file promises: it is empty, or holds one saved Study; a save into an empty register
  creates it, and any other replaces a Study by the next revision of the same Study.
\<close>

inductive register_step :: "('a, 'c) codec \<Rightarrow> string option \<Rightarrow> string option \<Rightarrow> bool" for cd :: "('a, 'c) codec" where
  create: "export_study cd b = Inr t \<Longrightarrow> register_step cd None (Some t)"
| commit: "import_study cd old = Inr current \<Longrightarrow> export_study cd b = Inr t \<Longrightarrow> doc_id (document b) = doc_id (document current) \<Longrightarrow>
     unat (revision (document b)) = unat (revision (document current)) + 1 \<Longrightarrow> register_step cd (Some old) (Some t)"

inductive_simps register_step_simps: "register_step cd v w"

lemma store_load_Inr: "store_load cd st io d = Inr b \<Longrightarrow> \<exists>t. study_text st d = Some t \<and> import_study cd t = Inr b"
  by (auto simp: store_load_def and_then_Inr ok_or_Inr split: option.splits)

lemma checked_save:
  assumes "check_request cd st io req d = Inr ()" "export_study cd (request_bundle req) = Inr t" "io_fail io Metadata = None"
  shows "register_step cd (study_text st d) (Some t)"
proof (cases req)
  case (CreateNew b)
  with assms show ?thesis by (auto simp: err_if_Inr intro: register_step.create)
next
  case (CommitNext n b)
  with assms(1) obtain current where load: "store_load cd st io d = Inr current" and next_rev: "revision (document current) = n"
    "doc_id (document current) = doc_id (document b)" "checked_succ n = Some (revision (document b))"
    by (auto simp: and_then_Inr err_if_Inr check_revision_def ok_or_Inr split: if_splits)
  from store_load_Inr [OF load] obtain old where old: "study_text st d = Some old" "import_study cd old = Inr current" by blast
  from assms(2) CommitNext have "export_study cd b = Inr t" by simp
  from register_step.commit [OF old(2) this] next_rev checked_succ_Some [OF next_rev(3)] old(1) show ?thesis by simp
qed

lemma idle_exclusive: "\<forall>w. sys_phase s w = Idle \<Longrightarrow> exclusive cd st name IO s"
  by (simp add: exclusive_def)

lemma reachable_exclusive:
  assumes "(step cd st name IO)\<^sup>*\<^sup>* s0 s" "\<forall>w. sys_phase s0 w = Idle" "st_name st = Some name"
  shows "exclusive cd st name IO s"
  using assms(1) by induction (use idle_exclusive [OF assms(2)] exclusive_step assms(3) in blast)+


section \<open>Progress\<close>

fun rank :: "phase \<Rightarrow> nat" where
  "rank (Holding _ _) = 4"
| "rank (Checked _ _) = 3"
| "rank (Staged _ _) = 2"
| "rank (Leaving _) = 1"
| "rank _ = 0"

lemma next_phase_rank:
  assumes "active ph" "next_phase cd st name ph d = (ph', d')"
  shows "rank ph' < rank ph \<and> (ph' = Idle \<or> active ph' \<and> phase_io ph' = phase_io ph) \<and>
    (ph' = Idle \<longrightarrow> (\<exists>io. phase_io ph = Some io \<and> d' = drop_lock io (lock_name name) d))"
  using assms by (cases ph) (auto simp: Let_def split: sum.splits prod.splits)

text \<open>C22: a writer that goes on always gives the lock back. Whatever the other writers did and whatever failed
  before, a writer that holds the lock is idle again after at most four moves of its own, which
  nothing can block, and the lock file is gone, provided the system removes a file when asked.\<close>

theorem lock_is_released:
  assumes "(step cd st name IO)\<^sup>*\<^sup>* s0 s" "\<forall>w. sys_phase s0 w = Idle" "st_name st = Some name"
    and "\<forall>io \<in> IO. io_fail io RemoveLock = None" "active (sys_phase s w)"
  shows "\<exists>k s'. k \<le> 4 \<and> (step cd st name IO ^^ k) s s' \<and> sys_phase s' w = Idle \<and> \<not> bt_contains (files (sys_disk s')) (lock_name name) \<and>
    (\<forall>v. v \<noteq> w \<longrightarrow> sys_phase s' v = sys_phase s v)"
proof -
  have "\<exists>k s'. k \<le> rank (sys_phase s w) \<and> (step cd st name IO ^^ k) s s' \<and> sys_phase s' w = Idle \<and>
      \<not> bt_contains (files (sys_disk s')) (lock_name name) \<and> (\<forall>v. v \<noteq> w \<longrightarrow> sys_phase s' v = sys_phase s v)"
    if "active (sys_phase s w)" "exclusive cd st name IO s" for s
    using that
  proof (induction "rank (sys_phase s w)" arbitrary: s rule: less_induct)
    case less
    obtain ph d where nx: "next_phase cd st name (sys_phase s w) (sys_disk s) = (ph, d)" by fastforce
    let ?s = "s\<lparr>sys_disk := d, sys_phase := (sys_phase s)(w := ph)\<rparr>"
    have adv: "step cd st name IO s ?s" using step.proceed [OF less.prems(1), of cd st name IO] nx by (simp add: advance_def)
    note rank = next_phase_rank [OF less.prems(1) nx]
    show ?case
    proof (cases "ph = Idle")
      case True
      with rank obtain io where io: "phase_io (sys_phase s w) = Some io" "d = drop_lock io (lock_name name) (sys_disk s)" by blast
      with less.prems(2) assms(4) have "io_fail io RemoveLock = None" by (auto simp: exclusive_def)
      with io have "\<not> bt_contains (files d) (lock_name name)" by (simp add: drop_lock_def bt_contains_def)
      with True adv rank show ?thesis by (intro exI [of _ 1] exI [of _ ?s]) (auto simp: Suc_le_eq)
    next
      case False
      with rank have "active (sys_phase ?s w)" "rank (sys_phase ?s w) < rank (sys_phase s w)" by auto
      with less.hyps [of ?s] exclusive_step [OF less.prems(2) adv assms(3)] obtain k s' where
        k: "k \<le> rank ph" "(step cd st name IO ^^ k) ?s s'" "sys_phase s' w = Idle" "\<not> bt_contains (files (sys_disk s')) (lock_name name)"
        "\<forall>v. v \<noteq> w \<longrightarrow> sys_phase s' v = sys_phase ?s v" by auto
      from relpowp_Suc_I2 [OF adv k(2)] have "(step cd st name IO ^^ Suc k) s s'" .
      with k rank show ?thesis by (intro exI [of _ "Suc k"] exI [of _ s']) (auto simp del: relpowp.simps)
    qed
  qed
  moreover have "rank (sys_phase s w) \<le> 4" by (cases "sys_phase s w") simp_all
  ultimately show ?thesis using assms(5) reachable_exclusive [OF assms(1-3)] by (meson order_trans)
qed

section \<open>One request\<close>

lemma store_write_run:
  assumes "export_study cd b = Inr t" "st_name st = Some name"
  shows "store_write cd st io b d =
    (let temp = temp_name name (io_pid io) (temp_sequence io)
     in case stage io temp t d of
          (Inl e, d1) \<Rightarrow> (Inl (unsaved st e), discard_temp io temp d1)
        | (Inr _, d1) \<Rightarrow>
            (case rename io temp name d1 of
               (Inl e, d2) \<Rightarrow> (Inl (unsaved st e), discard_temp io temp d2)
             | (Inr _, d2) \<Rightarrow> (confirm st io, d2)))"
  using assms by (simp add: store_write_def then_do_def Let_def split: sum.split prod.split)

text \<open>The moves of a writer that nobody interrupts are the request of the source.\<close>

lemma request_is_moves:
  assumes "store_lock st io d = (Inr lock, d1)" "st_name st = Some name"
  shows "((\<lambda>(ph, d). next_phase cd st name ph d) ^^ 4) (Holding req io, d1) = (Idle, snd (store_request cd st io req d))"
proof -
  have lock: "lock = lock_name name" using store_lock_Inr [OF assms] by simp
  show ?thesis
  proof (cases "check_request cd st io req d1")
    case (Inl e)
    with assms show ?thesis by (simp add: numeral_eq_Suc store_request_def then_do_def lock)
  next
    case ok: (Inr u)
    show ?thesis
    proof (cases "export_study cd (request_bundle req)")
      case (Inl e)
      with ok assms show ?thesis by (simp add: numeral_eq_Suc store_request_def then_do_def lock store_write_def)
    next
      case (Inr t)
      with ok assms show ?thesis
        by (simp add: numeral_eq_Suc store_request_def then_do_def lock store_write_run Let_def split: prod.split sum.split)
    qed
  qed
qed

lemma store_write_outcome:
  assumes "store_write cd st io b d = (r, d')" and name: "st_name st = Some name" and "map_of (files d) (lock_name name) \<noteq> None"
  shows "(\<forall>k. k \<noteq> name \<and> k \<noteq> temp_name name (io_pid io) (temp_sequence io) \<longrightarrow> map_of (files d') k = map_of (files d) k) \<and>
    (study_text st d' = study_text st d \<and> r \<noteq> Inr () \<or>
     (\<exists>t. export_study cd b = Inr t \<and> study_text st d' = Some t \<and> r = confirm st io))"
proof (cases "export_study cd b")
  case (Inl e)
  with assms(1) show ?thesis by (auto simp: store_write_def then_do_def)
next
  case (Inr t)
  let ?temp = "temp_name name (io_pid io) (temp_sequence io)"
  obtain rs d1 where st: "stage io ?temp t d = (rs, d1)" by fastforce
  have f1: "map_of (files d1) k = map_of (files d) k" if "k \<noteq> ?temp" for k using disk_frame(3) [OF that, of io t d] st by simp
  show ?thesis
  proof (cases rs)
    case (Inl e)
    with assms(1) st \<open>export_study cd b = Inr t\<close> have "r = Inl (unsaved st e)" "d' = discard_temp io ?temp d1"
      by (simp_all add: store_write_run [OF _ name])
    then show ?thesis using f1 name by (auto simp: study_text_def disk_frame(1))
  next
    case (Inr u)
    note staged = stage_Inr [OF st [unfolded Inr]]
    obtain rr d2 where rn: "rename io ?temp name d1 = (rr, d2)" by fastforce
    have f2: "map_of (files d2) k = map_of (files d) k" if "k \<noteq> ?temp" "k \<noteq> name" for k
      using disk_frame(4) [OF that, of io d1] rn f1 [OF that(1)] by simp
    show ?thesis
    proof (cases rr)
      case (Inl e)
      with rn have "d2 = d1" using rename_outcome(2) by blast
      with assms(1) st \<open>rs = Inr u\<close> \<open>export_study cd b = Inr t\<close> rn Inl have "r = Inl (unsaved st e)" "d' = discard_temp io ?temp d1"
        by (simp_all add: store_write_run [OF _ name])
      then show ?thesis using f1 name by (auto simp: study_text_def disk_frame(1))
    next
      case (Inr v)
      with assms(1) st \<open>rs = Inr u\<close> \<open>export_study cd b = Inr t\<close> rn have "r = confirm st io" "d' = d2"
        by (simp_all add: store_write_run [OF _ name])
      moreover have "study_text st d2 = Some t"
        using rename_outcome(1) [OF _ rn [unfolded Inr]] staged name by (simp add: study_text_def)
      ultimately show ?thesis using f2 \<open>export_study cd b = Inr t\<close> by blast
    qed
  qed
qed


section \<open>Witnesses\<close>

definition calm :: io where
  "calm = \<lparr>io_fail = (\<lambda>_. None), io_missing = [], io_exists = [], io_written = 0, io_pid = 7, temp_sequence = 0, io_unix = True\<rparr>"

definition witness_store :: file_store where
  "witness_store = \<lparr>st_path = ''d/s'', st_parent = ''d'', st_name = Some ''s''\<rparr>"

definition empty_disk :: disk where
  "empty_disk = \<lparr>dir_exists = True, files = []\<rparr>"

definition quiet :: system where
  "quiet = \<lparr>sys_disk = empty_disk, sys_phase = (\<lambda>_. Idle)\<rparr>"

lemma calm_simps [simp]: "io_fail calm c = None" "st_name witness_store = Some ''s''" "dir_exists empty_disk" "files empty_disk = []"
  by (simp_all add: calm_def witness_store_def empty_disk_def)

lemma witness_created: "\<exists>d. store_request witness_codec witness_store calm (CreateNew witness_bundle) empty_disk = (Inr (), d)"
proof -
  have written: "\<exists>d'. store_write witness_codec witness_store calm witness_bundle (put_file (lock_name ''s'') l empty_disk) = (Inr (), d')" for l
    using names_differ(5) [of "''s''"]
    by (simp add: store_write_run [OF witness_export] Let_def stage_def rename_def bt_contains_def confirm_def)
  have "\<exists>l. store_lock witness_store calm empty_disk = (Inr (lock_name ''s''), put_file (lock_name ''s'') l empty_disk)"
    by (simp add: store_lock_def Let_def bt_contains_def) blast
  then obtain l where "store_lock witness_store calm empty_disk = (Inr (lock_name ''s''), put_file (lock_name ''s'') l empty_disk)" ..
  moreover obtain d' where "store_write witness_codec witness_store calm witness_bundle (put_file (lock_name ''s'') l empty_disk) = (Inr (), d')"
    using written by blast
  moreover have "study_text witness_store (put_file (lock_name ''s'') l empty_disk) = None" by (simp add: study_text_def)
  ultimately show ?thesis by (simp add: store_request_def then_do_def)
qed


lemma quiet_idle: "\<forall>w. sys_phase quiet w = Idle"
  by (simp add: quiet_def)

lemma witness_locks: "\<exists>d. store_lock witness_store calm empty_disk = (Inr (lock_name ''s''), d) \<and> study_text witness_store d = None"
  by (simp add: store_lock_def Let_def bt_contains_def study_text_def)


theorem lock_is_released_witness:
  "\<exists>s s' k. (step witness_codec witness_store ''s'' {calm})\<^sup>*\<^sup>* quiet s \<and> k \<le> 4 \<and> (step witness_codec witness_store ''s'' {calm} ^^ k) s s' \<and>
     sys_phase s 0 \<noteq> Idle \<and> sys_phase s' 0 = Idle \<and> \<not> bt_contains (files (sys_disk s')) (lock_name ''s'')"
proof -
  obtain d where d: "store_lock witness_store calm (sys_disk quiet) = (Inr (lock_name ''s''), d)"
    using witness_locks by (auto simp: quiet_def)
  let ?s = "quiet\<lparr>sys_disk := d, sys_phase := (sys_phase quiet)(0 := Holding (CreateNew witness_bundle) calm)\<rparr>"
  have "step witness_codec witness_store ''s'' {calm} quiet ?s"
    by (rule step.acquire [OF _ _ d]) (simp_all add: quiet_def)
  then have run: "(step witness_codec witness_store ''s'' {calm})\<^sup>*\<^sup>* quiet ?s" by blast
  have held: "active (sys_phase ?s 0)" "sys_phase ?s 0 \<noteq> Idle" by simp_all
  from lock_is_released [OF run quiet_idle calm_simps(2) _ held(1)] run held(2) show ?thesis by (simp only: ball_simps calm_simps) blast
qed

end
