(* ===== verification/Spec2Isabelle.thy ===== *)
theory Spec2Isabelle
  imports Edits Islands Energized Mc_Session Drawing DcOpf Objective Session Preview Exploration Planning Document Study_Ops Storage
begin

text \<open>
  Tellegen, from an edit of a power network to a saved Study.

  Tellegen solves optimal power flow and sensitivity problems on PowerIO networks. Around the
  solvers stands a program that decides what is solved and what is kept: edits of demand and branch
  ratings are validated and folded onto a network, islands without supply are taken out, thermal
  limits are enforced lazily over repeated solves, a Study commits edits one exact solve at a time,
  a bounded search explores candidate edits, and a document records goals, states, experiments and
  approvals under content identities and is written to disk under a lock. The development models that
  program, the crate \<open>src/crates/tellegen\<close>. The numerical solvers below it and PowerIO beside it are
  parameters: each theorem holds for every solver and every reader, and where it needs one of their
  documented laws the law is a named hypothesis.

  \<^bold>\<open>Theories and the code they model\<close> (paths under \<open>src/crates/tellegen/src\<close>)

  \<^item> \<open>Prelude\<close>: \<open>Result\<close> as a sum with \<open>?\<close>, \<open>ok_or\<close> and fallible loops; \<open>BTreeMap\<close> as an
    association list sorted by key (locale \<open>ordered_map\<close>, interpreted on it), \<open>HashMap\<close> as an association
    list in iteration order; decimal printing.
  \<^item> \<open>F64\<close>: the \<open>f64\<close> of the program as IEEE 754 binary64 on its 64-bit pattern, with exact rounding, so
    that every guard on a float (\<open>is_finite\<close>, \<open>>\<close>, a NaN that compares false) is the guard of the code.
  \<^item> \<open>Network\<close>: formulations, operands, parameters and element keys (\<open>api.rs\<close>, \<open>sens/interface.rs\<close>), the
    uid checks (\<open>model/mod.rs\<close>), the columns of PowerIO rows that the program reads, solve responses.
  \<^item> \<open>Edits\<close>: the edit log and its fold, the step between two edit states, edits on a network
    (\<open>study.rs\<close>), canonical validation, dense resolution and aggregation (\<open>api.rs\<close>).
  \<^item> \<open>Islands\<close>: union-find with path halving, islands, supply, designated references and the energized
    network (\<open>model/islands.rs\<close>). Locale \<open>disjoint_sets\<close> is what the island search needs of the parent array.
  \<^item> \<open>Energized\<close>: the unpowered islands of a multiconductor feeder, the subset that stays, the selection
    that records it and the JSON entry (\<open>mc_pf/energized.rs\<close>).
  \<^item> \<open>Mc_Session\<close>: the revisioned session of the multiconductor OPF with its edits, options and starts
    (\<open>mc_opf/session.rs\<close>), the one-shot solve with its polls and gates (\<open>mc_opf/mod.rs\<close>) and the canonical order of a
    declared point (\<open>mc_opf/initial.rs\<close>). Locale \<open>row_edit\<close> is what every edit of an equipment row promises, interpreted
    on all eight; \<open>session_reachable\<close> is the transition system of the public operations.
  \<^item> \<open>Graphs\<close>: edges, reachability and the count of unvisited nodes behind every graph search below.
  \<^item> \<open>Schematic\<close> and \<open>Drawing\<close>: the display forest of a multiconductor graph, and the two placements of its
    rows, the routes of its edges and the columns of the layout (\<open>schematic.rs\<close>). Locale \<open>levelled\<close> is what the
    placements need of a forest, interpreted on the forest of the code.
  \<^item> \<open>DcOpf\<close>: linear constraints, limit options, limit rounds and the response of the DC OPF entry
    (\<open>api.rs\<close>, \<open>model/dc.rs\<close>, \<open>problem/dc.rs\<close>).
  \<^item> \<open>Objective\<close>: outer objectives, decision spaces and their validation (\<open>objective.rs\<close>).
  \<^item> \<open>Session\<close>: the live \<open>Study\<close>, its commits, constraint changes, forks, saved modules and history
    (\<open>study.rs\<close>, \<open>history.rs\<close>); \<open>reachable_study\<close> is the transition system of its public operations.
  \<^item> \<open>Preview\<close>: first-order previews, active constraints, export (\<open>study.rs\<close>).
  \<^item> \<open>Exploration\<close>: the gradient-guided beam search over exact trials (\<open>exploration.rs\<close>).
  \<^item> \<open>Planning\<close>: the plan of rating increases by a bounded descent on sensitivities, its record and its
    entries on an instance, an exact solve and a Study (\<open>plan.rs\<close>).
  \<^item> \<open>Document\<close>: content identities, the records of a Study, \<open>StudyBundle\<close> with validation,
    transaction, import and export (\<open>document.rs\<close>, \<open>content_id.rs\<close>). Locale \<open>preorder_effect\<close> states an
    effect that steps of a fallible program accumulate, interpreted as growth of the artifacts and as
    what an operation leaves alone.
  \<^item> \<open>Study_Ops\<close>: creation and the nine requests of \<open>execute_study\<close>, comparisons, counterfactuals and
    proposals (\<open>study_ops.rs\<close>).
  \<^item> \<open>Storage\<close>: lock file, revision-checked commit and replacement through a temporary file
    (\<open>study_storage.rs\<close>), once as single runs and once as the interleaved steps of several writers.

  A Rust struct is a record, an enum a datatype, a \<open>Result\<close> a sum whose \<open>Inl\<close> is the message. An
  operation on \<open>&mut self\<close> returns its outcome and the state after it, also when it fails, so that what an
  early return leaves behind is part of the model. Text is a character list; in \<open>Document\<close> and above, the
  list of its UTF-8 bytes.

  \<^bold>\<open>What is shown\<close>

  \<^item> Storage: the interleaved writers of one file, each able to stop at any step, refine an abstract
    register whose content changes only by a revision-checked replacement; a lone writer leaves no lock.
  \<^item> Document and requests: a bundle that validates has identities that are digests of its content,
    acyclic parent chains and an order that lists every experiment once; a failed transaction changes
    nothing; a request publishes at most one revision; only an approval that names the recommended
    state applies it; export and import are inverse.
  \<^item> Study: a failed commit leaves the Study as it was; every reachable Study holds the solve of its own
    log; commits do not drift from a solve of the folded edits; history ids are fresh.
  \<^item> Exploration: the best state is one that was solved exactly and improves by the declared margin,
    and no search exceeds its solve budget.
  \<^item> Planning: the increases respect every bound of the specification, the reported result was solved
    exactly at the proposed ratings and is no worse than the start, the amended instance carries the
    proposal, and the search returns.
  \<^item> Multiconductor islands: what is listed are the clusters of connected buses without a source, what
    remains is fully powered, and the prepared selection passes the validation of its own reader.
  \<^item> Multiconductor session: the retained model is always the compilation of the current instance and options, a
    current result passed every gate on it, a failed operation changes nothing but the count of attempts, an unusable warm
    start falls back to the declared one, and the first solve of a session is the one-shot solve.
  \<^item> Schematic: the forest spans the closed branches with every bus at its least distance from a root, the
    drawing of every graph comes out with one position per bus and one role per edge, and in the leaf order the
    rows of two leaves keep the declared gap beyond their attachment symbols.
  \<^item> Engine: limits the lazy rounds leave out are slack at the result; energized islands have supply and
    exactly one reference where one was lacking; canonical validation equals a scan of the tables;
    the validators of objectives and decision spaces accept exactly the declarative specification.

  \<^bold>\<open>Loops and bounds\<close>

  \<^item> \<open>find_root\<close> is a \<open>partial_function (option)\<close>: it may not end on a cyclic parent array. On a \<open>forest\<close>
    it returns, and every array the code builds is one.
  \<^item> \<open>lazy_rounds\<close> ends by the measure \<open>max_rounds - round\<close>, the bound of the source; the objective walk
    carries the depth bound 16 of the source; \<open>walk_parents\<close> and \<open>next_free\<close> end because the names not
    yet visited shrink; \<open>walk_island\<close> ends because a step pops a bus or visits one, as does \<open>spread\<close>, \<open>plan_search\<close> because
    every repetition spends an exact solve of the budget; the beam and the search recurse on the candidates and the iteration limit.
    \<open>post_order\<close> and \<open>place_frames\<close> are \<open>partial_function (option)\<close>, proved to return on every forest the code builds.
    No model has fuel that the code lacks.

  \<^bold>\<open>Parameters\<close>

  \<^item> \<open>engine\<close> (\<open>Session\<close>): model preparation, solves, sensitivities and PowerIO emission, as functions;
    the vectors of a solve have one entry per bus and branch of the prepared model.
  \<^item> \<open>codec\<close> (\<open>Document\<close>): JSON, SHA-256 and the readers. The round trip assumes that reading a written bundle
    returns it; no property assumes that SHA-256 is injective.
  \<^item> \<open>host\<close> (\<open>Study_Ops\<close>): rendering of evidence, comparisons and numbers. \<open>io\<close> (\<open>Storage\<close>): the answer of the
    operating system to each call. \<open>planner\<close> (\<open>Planning\<close>): exact and adjoint solves at given ratings.
    \<open>mc_powerio\<close> (\<open>Energized\<close>): modules, instances and extension values of PowerIO; \<open>extension_laws\<close> states that
    a recorded value is read back. \<open>opf_io\<close> (\<open>Mc_Session\<close>): PowerIO instances and points, POUNCE and the numeric code of
    \<open>mc_opf\<close>; \<open>point_laws\<close> states what attaching, building and looking up a point do. \<open>lc\<close> (\<open>Schematic\<close>): the Unicode lower-case table. The refinement assumes that the metadata of the Study file can be
    read (a finding shows why), the release of the lock that removing a file works.

  \<^bold>\<open>Not modelled\<close>

  \<^item> The numerical solvers and their derivatives (\<open>solve.rs\<close>, \<open>nlp.rs\<close>, \<open>problem/\<close>, \<open>sens/\<close>, the model compiler, residual
    checks and sensitivities of \<open>mc_opf/\<close>, \<open>mc_pf/\<close> except \<open>energized.rs\<close>, \<open>model/acopf.rs\<close>): sparse linear algebra over Clarabel, POUNCE and faer, whose results the model takes
    as given.
  \<^item> The generator of synthetic grids (\<open>tellegen-synth\<close>) and the adapters (\<open>tellegen-wasm\<close>, \<open>tellegen-server\<close>,
    \<open>tellegen-py\<close>, \<open>tellegen-cli\<close>, \<open>tellegen-acopf-wasi\<close>), which pass JSON to the operations modelled here.
  \<^item> The text of a diagnostic where it prints a float, and wall-clock time.
\<close>

end
